(* ===== verification/Prelude.thy ===== *)
theory Prelude
  imports Main "HOL-Library.Multiset"
begin

text \<open>
  Prelude of the development: the collections of rewrite rules, the machine-integer
  wrap-around of Go's \<open>int\<close>, the early-return loop combinator and the generic facts on
  maps and lists that the component theories share.

  Instants (\<open>time.Time\<close>) are nanoseconds since the Unix epoch, durations
  (\<open>time.Duration\<close>) are nanoseconds. Both are \<open>int\<close>; where the code computes in a
  64-bit integer and the wrap-around can be observed, \<open>wrap64\<close> is written out.
\<close>

named_theorems op_defs \<open>definitions of the operations of the components\<close>
named_theorems inv_defs \<open>definitions of the invariants of the components\<close>
named_theorems frame_simps \<open>what an operation leaves unchanged\<close>

type_synonym instant = int
type_synonym duration = int

section \<open>Go's 64-bit integers\<close>

definition wrap64 :: "int \<Rightarrow> int" where
  "wrap64 x = (x + 2 ^ 63) mod 2 ^ 64 - 2 ^ 63"

definition in_int64 :: "int \<Rightarrow> bool" where
  "in_int64 x \<longleftrightarrow> - (2 ^ 63) \<le> x \<and> x < 2 ^ 63"

lemma wrap64_id [simp]: "in_int64 x \<Longrightarrow> wrap64 x = x"
  by (simp add: wrap64_def in_int64_def)

lemma in_int64_wrap64 [simp]: "in_int64 (wrap64 x)"
  using pos_mod_sign [of "2 ^ 64" "x + 2 ^ 63"] pos_mod_bound [of "2 ^ 64" "x + 2 ^ 63"]
  by (simp add: wrap64_def in_int64_def)

section \<open>Loops that return early\<close>

text \<open>
  \<open>first_some f xs\<close> is the Go loop \<open>for _, x := range xs { ... }\<close> whose body either
  continues (\<open>None\<close>) or returns a value (\<open>Some\<close>).
\<close>

fun first_some :: "('a \<Rightarrow> 'b option) \<Rightarrow> 'a list \<Rightarrow> 'b option" where
  "first_some f [] = None"
| "first_some f (x # xs) = (case f x of Some r \<Rightarrow> Some r | None \<Rightarrow> first_some f xs)"

lemma first_some_None_iff [simp]: "first_some f xs = None \<longleftrightarrow> (\<forall>x \<in> set xs. f x = None)"
  by (induction xs) (auto split: option.splits)

lemma first_some_SomeD:
  "first_some f xs = Some r \<Longrightarrow> \<exists>ys x zs. xs = ys @ x # zs \<and> f x = Some r \<and> (\<forall>y \<in> set ys. f y = None)"
proof (induction xs)
  case (Cons a xs)
  show ?case
  proof (cases "f a")
    case None
    with Cons obtain ys x zs
      where "xs = ys @ x # zs" "f x = Some r" "\<forall>y \<in> set ys. f y = None"
      by auto
    with None have "a # xs = (a # ys) @ x # zs \<and> f x = Some r \<and> (\<forall>y \<in> set (a # ys). f y = None)"
      by simp
    then show ?thesis by blast
  next
    case (Some b)
    with Cons.prems have "a # xs = [] @ a # xs \<and> f a = Some r \<and> (\<forall>y \<in> set []. f y = None)"
      by simp
    then show ?thesis by blast
  qed
qed simp

lemma first_some_set: "first_some f xs = Some r \<Longrightarrow> \<exists>x \<in> set xs. f x = Some r"
  by (auto dest: first_some_SomeD)

lemma first_some_nth:
  "first_some f xs = Some r \<longleftrightarrow> (\<exists>k < length xs. f (xs ! k) = Some r \<and> (\<forall>j < k. f (xs ! j) = None))"
proof
  assume "first_some f xs = Some r"
  from first_some_SomeD [OF this] obtain ys x zs
    where xs: "xs = ys @ x # zs" and x: "f x = Some r" and ys: "\<forall>y \<in> set ys. f y = None" by blast
  then show "\<exists>k < length xs. f (xs ! k) = Some r \<and> (\<forall>j < k. f (xs ! j) = None)"
    by (intro exI [of _ "length ys"]) (simp add: nth_append)
next
  assume "\<exists>k < length xs. f (xs ! k) = Some r \<and> (\<forall>j < k. f (xs ! j) = None)"
  then show "first_some f xs = Some r"
  proof (induction xs)
    case (Cons x xs)
    then obtain k where k: "k < length (x # xs)" "f ((x # xs) ! k) = Some r" "\<forall>j < k. f ((x # xs) ! j) = None"
      by blast
    show ?case
    proof (cases k)
      case (Suc l)
      then have "\<exists>k < length xs. f (xs ! k) = Some r \<and> (\<forall>j < k. f (xs ! j) = None)"
        using k by (intro exI [of _ l]) (metis Suc_less_eq length_Cons nth_Cons_Suc)
      with Cons.IH k Suc show ?thesis by fastforce
    qed (use k in simp)
  qed simp
qed

lemma first_some_cong [fundef_cong]:
  "xs = ys \<Longrightarrow> (\<And>x. x \<in> set ys \<Longrightarrow> f x = g x) \<Longrightarrow> first_some f xs = first_some g ys"
  by (induction xs arbitrary: ys) (auto split: option.splits)

section \<open>Position of the first match\<close>

fun find_index :: "('a \<Rightarrow> bool) \<Rightarrow> 'a list \<Rightarrow> nat option" where
  "find_index P [] = None"
| "find_index P (x # xs) = (if P x then Some 0 else map_option Suc (find_index P xs))"

lemma find_index_None [simp]: "find_index P xs = None \<longleftrightarrow> (\<forall>x \<in> set xs. \<not> P x)"
  by (induction xs) auto

lemma find_index_Some: "find_index P xs = Some i \<Longrightarrow> i < length xs \<and> P (xs ! i)"
  by (induction xs arbitrary: i) (auto split: if_splits)

lemma find_index_ex: "x \<in> set xs \<Longrightarrow> P x \<Longrightarrow> \<exists>i. find_index P xs = Some i"
  by (metis find_index_None option.exhaust)

section \<open>Maps\<close>

lemma option_eqI: "(\<And>u. a = Some u \<longleftrightarrow> b = Some u) \<Longrightarrow> a = b"
  by (cases a; cases b) auto

lemma dom_upd_None [simp]: "dom (m(k := None)) = dom m - {k}"
  by (auto simp: dom_def)

lemma ran_upd_None_subset: "ran (m(k := None)) \<subseteq> ran m"
  by (auto simp: ran_def split: if_splits)

section \<open>Lists with the same elements\<close>

lemma set_distinct_of_mset:
  assumes "mset xs = mset ys"
  shows "set xs = set ys" and "distinct xs = distinct ys" and "length xs = length ys"
  using assms by (metis set_mset_mset, metis mset_eq_imp_distinct_iff, metis size_mset)

section \<open>Association lists\<close>

lemma map_of_list_update:
  "distinct (map fst xs) \<Longrightarrow> i < length xs \<Longrightarrow> fst (xs ! i) = k \<Longrightarrow>
   map_of (xs[i := (k, v)]) = (map_of xs)(k \<mapsto> v)"
proof (induction xs arbitrary: i)
  case (Cons x xs)
  show ?case
  proof (cases i)
    case 0
    with Cons.prems show ?thesis by auto
  next
    case (Suc j)
    then have "k \<in> fst ` set xs" using Cons.prems by force
    then have "k \<noteq> fst x" using Cons.prems(1) by (metis distinct.simps(2) list.set_map list.simps(9))
    moreover have "map_of (xs[j := (k, v)]) = (map_of xs)(k \<mapsto> v)"
      using Cons.prems Suc by (intro Cons.IH) simp_all
    ultimately show ?thesis using Suc by auto
  qed
qed simp

lemma map_fst_list_update:
  "i < length xs \<Longrightarrow> fst (xs ! i) = k \<Longrightarrow> map fst (xs[i := (k, v)]) = map fst xs"
  by (metis fst_conv list_update_id map_update nth_map)

lemma distinct_map_concat:
  assumes "distinct keys" and "\<And>k. k \<in> set keys \<Longrightarrow> distinct (map f (g k))"
    and "\<And>k x. k \<in> set keys \<Longrightarrow> x \<in> set (g k) \<Longrightarrow> h x = k"
    and "\<And>k x k' y. x \<in> set (g k) \<Longrightarrow> y \<in> set (g k') \<Longrightarrow> f x = f y \<Longrightarrow> x = y"
  shows "distinct (map f (concat (map g keys)))"
  using assms(1-3)
proof (induction keys)
  case (Cons k ks)
  have "f ` set (g k) \<inter> f ` set (concat (map g ks)) = {}"
  proof (rule ccontr)
    assume "f ` set (g k) \<inter> f ` set (concat (map g ks)) \<noteq> {}"
    then obtain x y k' where xy: "x \<in> set (g k)" "k' \<in> set ks" "y \<in> set (g k')" "f x = f y" by auto
    then have "x = y" using assms(4) by blast
    then have "k = k'" using Cons.prems(3) [of k x] Cons.prems(3) [of k' y] xy by simp
    with Cons.prems(1) xy(2) show False by simp
  qed
  with Cons show ?case by auto
qed simp

lemma map_filter_Some_iff: "y \<in> set (List.map_filter f xs) \<longleftrightarrow> (\<exists>x \<in> set xs. f x = Some y)"
  by (force simp: List.map_filter_def)

lemma distinct_map_filter:
  assumes "distinct xs" and "\<And>x y. f x = Some y \<Longrightarrow> g y = x"
  shows "distinct (map g (List.map_filter f xs))"
  using assms
proof (induction xs)
  case (Cons x xs)
  have "g y \<noteq> x" if "y \<in> set (List.map_filter f xs)" for y
    using that Cons.prems by (auto simp: map_filter_Some_iff)
  with Cons show ?case by (auto simp: List.map_filter_def split: option.splits)
qed (simp add: List.map_filter_def)

end
