(* ===== verification/GoHeap.thy ===== *)
theory GoHeap
  imports Prelude
begin

text \<open>
  The binary heap of Go's \<open>container/heap\<close>, which both queues (\<open>internal/queue\<close>) use
  through the interface \<open>heap.Interface\<close>. The interface is a record of its methods, and
  the five functions follow the library's loops. The locale \<open>heap_impl\<close> states what an
  implementation of the interface promises; inside it the functions are proved correct:
  they permute the entries, restore the heap order, and the root is a minimal entry.
\<close>

section \<open>The interface and the functions of container/heap\<close>

record 'e heap_interface =
  hLess :: "'e list \<Rightarrow> nat \<Rightarrow> nat \<Rightarrow> bool"
  hSwap :: "'e list \<Rightarrow> nat \<Rightarrow> nat \<Rightarrow> 'e list"
  hPush :: "'e list \<Rightarrow> 'e \<Rightarrow> 'e list"
  hPop :: "'e list \<Rightarrow> 'e list \<times> 'e"

function heap_up :: "'e heap_interface \<Rightarrow> 'e list \<Rightarrow> nat \<Rightarrow> 'e list" where
  "heap_up I h j =
     (let i = (j - 1) div 2 in
      if i = j \<or> \<not> hLess I h j i then h
      else heap_up I (hSwap I h i j) i)"
  by pat_completeness auto
termination
  by (relation "measure (\<lambda>(I, h, j). j)") auto

definition heap_child :: "'e heap_interface \<Rightarrow> 'e list \<Rightarrow> nat \<Rightarrow> nat \<Rightarrow> nat" where
  "heap_child I h i n =
     (let j1 = 2 * i + 1 in if j1 + 1 < n \<and> hLess I h (j1 + 1) j1 then j1 + 1 else j1)"

lemma heap_child_greater: "i < heap_child I h i n"
  by (simp add: heap_child_def Let_def)

function heap_down_loop :: "'e heap_interface \<Rightarrow> 'e list \<Rightarrow> nat \<Rightarrow> nat \<Rightarrow> 'e list \<times> nat" where
  "heap_down_loop I h i n =
     (if n \<le> 2 * i + 1 then (h, i)
      else
        let j = heap_child I h i n in
        if \<not> hLess I h j i then (h, i)
        else heap_down_loop I (hSwap I h i j) j n)"
  by pat_completeness auto
termination
  by (relation "measure (\<lambda>(I, h, i, n). n - i)") (auto intro: diff_less_mono2 heap_child_greater)

declare heap_up.simps [simp del] heap_down_loop.simps [simp del]

lemma heap_down_loop_stop:
  "n \<le> 2 * i + 1 \<or> \<not> hLess I h (heap_child I h i n) i \<Longrightarrow> heap_down_loop I h i n = (h, i)"
  by (auto simp: heap_down_loop.simps [of I h i n] Let_def)

lemma heap_down_loop_go:
  "\<not> n \<le> 2 * i + 1 \<Longrightarrow> hLess I h (heap_child I h i n) i \<Longrightarrow> heap_down_loop I h i n =
   heap_down_loop I (hSwap I h i (heap_child I h i n)) (heap_child I h i n) n"
  by (simp add: heap_down_loop.simps [of I h i n] Let_def)

definition heap_down :: "'e heap_interface \<Rightarrow> 'e list \<Rightarrow> nat \<Rightarrow> nat \<Rightarrow> 'e list \<times> bool" where
  "heap_down I h i0 n = (let (h', i) = heap_down_loop I h i0 n in (h', i0 < i))"

definition heap_push :: "'e heap_interface \<Rightarrow> 'e list \<Rightarrow> 'e \<Rightarrow> 'e list" where
  "heap_push I h x = (let h' = hPush I h x in heap_up I h' (length h' - 1))"

definition heap_pop :: "'e heap_interface \<Rightarrow> 'e list \<Rightarrow> 'e list \<times> 'e" where
  "heap_pop I h = (let n = length h - 1 in hPop I (fst (heap_down I (hSwap I h 0 n) 0 n)))"

definition heap_fix :: "'e heap_interface \<Rightarrow> 'e list \<Rightarrow> nat \<Rightarrow> 'e list" where
  "heap_fix I h i =
     (let (h', moved) = heap_down I h i (length h) in if moved then h' else heap_up I h' i)"

definition heap_remove :: "'e heap_interface \<Rightarrow> 'e list \<Rightarrow> nat \<Rightarrow> 'e list \<times> 'e" where
  "heap_remove I h i =
     (let n = length h - 1 in
      if n = i then hPop I h
      else
        let (h', moved) = heap_down I (hSwap I h i n) i n in
        hPop I (if moved then h' else heap_up I h' i))"

section \<open>Swapping in a list\<close>

definition list_swap :: "'a list \<Rightarrow> nat \<Rightarrow> nat \<Rightarrow> 'a list" where
  "list_swap ks i j = ks[i := ks ! j, j := ks ! i]"

lemma length_list_swap [simp]: "length (list_swap ks i j) = length ks"
  by (simp add: list_swap_def)

lemma list_swap_nth:
  "k < length ks \<Longrightarrow> i < length ks \<Longrightarrow> j < length ks \<Longrightarrow>
   list_swap ks i j ! k = (if k = i then ks ! j else if k = j then ks ! i else ks ! k)"
  by (auto simp: list_swap_def nth_list_update)

lemma mset_list_swap [simp]:
  "i < length ks \<Longrightarrow> j < length ks \<Longrightarrow> mset (list_swap ks i j) = mset ks"
  by (simp add: list_swap_def mset_swap)

lemma take_list_swap:
  "i < n \<Longrightarrow> j < n \<Longrightarrow> take n (list_swap ks i j) = list_swap (take n ks) i j"
  by (simp add: list_swap_def take_update_swap)

section \<open>Heap order on a list of keys\<close>

definition heap_parent :: "nat \<Rightarrow> nat" where
  "heap_parent j = (j - 1) div 2"

definition edge_ok :: "('k \<Rightarrow> 'k \<Rightarrow> bool) \<Rightarrow> 'k list \<Rightarrow> nat \<Rightarrow> bool" where
  "edge_ok lt ks j \<longleftrightarrow> \<not> lt (ks ! j) (ks ! heap_parent j)"

definition heap_order :: "('k \<Rightarrow> 'k \<Rightarrow> bool) \<Rightarrow> 'k list \<Rightarrow> nat \<Rightarrow> bool" where
  "heap_order lt ks n \<longleftrightarrow> (\<forall>j. 0 < j \<longrightarrow> j < n \<longrightarrow> edge_ok lt ks j)"

text \<open>
  The order with a hole at position \<open>i\<close>: every edge that does not touch \<open>i\<close> is in
  order, and the children of \<open>i\<close> are not before the parent of \<open>i\<close>. This is what holds
  after one entry was replaced.
\<close>

definition heap_hole :: "('k \<Rightarrow> 'k \<Rightarrow> bool) \<Rightarrow> 'k list \<Rightarrow> nat \<Rightarrow> nat \<Rightarrow> bool" where
  "heap_hole lt ks n i \<longleftrightarrow>
     (\<forall>j. 0 < j \<longrightarrow> j < n \<longrightarrow> j \<noteq> i \<longrightarrow> heap_parent j \<noteq> i \<longrightarrow> edge_ok lt ks j) \<and>
     (\<forall>j. 0 < j \<longrightarrow> j < n \<longrightarrow> heap_parent j = i \<longrightarrow> 0 < i \<longrightarrow> \<not> lt (ks ! j) (ks ! heap_parent i))"

definition children_ok :: "('k \<Rightarrow> 'k \<Rightarrow> bool) \<Rightarrow> 'k list \<Rightarrow> nat \<Rightarrow> nat \<Rightarrow> bool" where
  "children_ok lt ks n i \<longleftrightarrow> (\<forall>j. 0 < j \<longrightarrow> j < n \<longrightarrow> heap_parent j = i \<longrightarrow> edge_ok lt ks j)"

lemmas heap_order_defs = heap_order_def heap_hole_def children_ok_def edge_ok_def

lemma heap_hole_edge:
  "heap_hole lt ks n i \<Longrightarrow> 0 < j \<Longrightarrow> j < n \<Longrightarrow> j \<noteq> i \<Longrightarrow> heap_parent j \<noteq> i \<Longrightarrow>
   \<not> lt (ks ! j) (ks ! heap_parent j)"
  by (simp add: heap_hole_def edge_ok_def)

lemma heap_hole_grandparent:
  "heap_hole lt ks n i \<Longrightarrow> 0 < j \<Longrightarrow> j < n \<Longrightarrow> heap_parent j = i \<Longrightarrow> 0 < i \<Longrightarrow>
   \<not> lt (ks ! j) (ks ! heap_parent i)"
  by (simp add: heap_hole_def)

lemma heap_parent_less: "0 < j \<Longrightarrow> heap_parent j < j"
  by (simp add: heap_parent_def)

lemma heap_parent_eq_iff: "0 < j \<Longrightarrow> heap_parent j = i \<longleftrightarrow> j = 2 * i + 1 \<or> j = 2 * i + 2"
  unfolding heap_parent_def by arith

lemma heap_order_hole: "heap_order lt ks n \<Longrightarrow> (\<And>a b c. \<not> lt b a \<Longrightarrow> \<not> lt c b \<Longrightarrow> \<not> lt c a) \<Longrightarrow> heap_hole lt ks n i"
  unfolding heap_order_defs by (metis heap_parent_less less_trans)

lemma heap_order_complete:
  assumes "heap_hole lt ks n i" and "children_ok lt ks n i" and "0 < i \<Longrightarrow> i < n \<Longrightarrow> edge_ok lt ks i"
  shows "heap_order lt ks n"
  using assms unfolding heap_order_defs by metis

text \<open>Everything a heap function may change lies below position \<open>n\<close>.\<close>

definition permuted_below :: "nat \<Rightarrow> 'k list \<Rightarrow> 'k list \<Rightarrow> bool" where
  "permuted_below n ks ks' \<longleftrightarrow> mset (take n ks') = mset (take n ks) \<and> drop n ks' = drop n ks"

lemma permuted_below_refl [simp]: "permuted_below n ks ks"
  by (simp add: permuted_below_def)

lemma permuted_below_trans:
  "permuted_below n ks ks' \<Longrightarrow> permuted_below n ks' ks'' \<Longrightarrow> permuted_below n ks ks''"
  by (simp add: permuted_below_def)

lemma permuted_below_swap:
  assumes "i < n" and "j < n" and "n \<le> length ks"
  shows "permuted_below n ks (list_swap ks i j)"
  using assms by (simp add: permuted_below_def take_list_swap) (simp add: list_swap_def)

lemma permuted_below_mset: "permuted_below n ks ks' \<Longrightarrow> mset ks' = mset ks"
  by (metis append_take_drop_id mset_append permuted_below_def)

lemma permuted_below_length: "permuted_below n ks ks' \<Longrightarrow> length ks' = length ks"
  by (metis permuted_below_mset size_mset)

lemma permuted_below_nth:
  assumes "permuted_below n ks ks'" and "n \<le> k" and "k < length ks"
  shows "ks' ! k = ks ! k"
proof -
  have "drop n ks' ! (k - n) = drop n ks ! (k - n)"
    using assms(1) by (simp add: permuted_below_def)
  moreover have "length ks' = length ks"
    using assms(1) by (rule permuted_below_length)
  ultimately show ?thesis
    using assms(2,3) by simp
qed

lemma heap_order_butlast: "heap_order lt ks (length ks - 1) \<Longrightarrow> heap_order lt (butlast ks) (length ks - 1)"
  unfolding heap_order_def edge_ok_def
  by (metis heap_parent_less length_butlast less_trans nth_butlast)

section \<open>Implementations of the interface\<close>

text \<open>
  What \<open>heap.Interface\<close> asks of its implementations: \<open>Less\<close> compares keys by a strict
  weak order, \<open>Swap\<close> exchanges two keys, \<open>Push\<close> appends and \<open>Pop\<close> removes the last
  entry. A key is what is left of an entry when its \<open>index\<close> field is ignored.
\<close>

locale heap_impl =
  fixes I :: "'e heap_interface"
    and key :: "'e \<Rightarrow> 'k"
    and lt :: "'k \<Rightarrow> 'k \<Rightarrow> bool"
  assumes less_key: "i < length h \<Longrightarrow> j < length h \<Longrightarrow> hLess I h i j = lt (key (h ! i)) (key (h ! j))"
    and swap_key: "i < length h \<Longrightarrow> j < length h \<Longrightarrow> map key (hSwap I h i j) = list_swap (map key h) i j"
    and push_key: "map key (hPush I h x) = map key h @ [key x]"
    and pop_key: "h \<noteq> [] \<Longrightarrow> map key (fst (hPop I h)) = butlast (map key h) \<and> key (snd (hPop I h)) = key (last h)"
    and lt_asym: "lt a b \<Longrightarrow> \<not> lt b a"
    and not_lt_trans: "\<not> lt b a \<Longrightarrow> \<not> lt c b \<Longrightarrow> \<not> lt c a"
begin

abbreviation keys :: "'e list \<Rightarrow> 'k list" where
  "keys h \<equiv> map key h"

lemma swap_length [simp]: "i < length h \<Longrightarrow> j < length h \<Longrightarrow> length (hSwap I h i j) = length h"
  by (metis length_list_swap length_map swap_key)

lemma lt_irrefl [simp]: "\<not> lt a a"
  using lt_asym by blast

lemma up_step_hole:
  assumes hole: "heap_hole lt ks n j" and ch: "children_ok lt ks n j"
    and j: "0 < j" "j < n" "n \<le> length ks" and lt: "lt (ks ! j) (ks ! heap_parent j)"
  shows "heap_hole lt (list_swap ks (heap_parent j) j) n (heap_parent j)"
    and "children_ok lt (list_swap ks (heap_parent j) j) n (heap_parent j)"
proof -
  let ?p = "heap_parent j" and ?ks = "list_swap ks (heap_parent j) j"
  have p: "?p < j" using j(1) by (rule heap_parent_less)
  have nth: "?ks ! k = (if k = ?p then ks ! j else if k = j then ks ! ?p else ks ! k)" if "k < n" for k
    using that j p by (simp add: list_swap_nth)
  show "heap_hole lt ?ks n ?p"
    unfolding heap_hole_def
  proof (intro conjI allI impI)
    fix k assume k: "0 < k" "k < n" "k \<noteq> ?p" "heap_parent k \<noteq> ?p"
    have pk: "heap_parent k < n" using heap_parent_less [OF k(1)] k(2) by simp
    show "edge_ok lt ?ks k"
    proof (cases "heap_parent k = j")
      case True
      moreover have "k \<noteq> j" using True heap_parent_less [OF k(1)] by simp
      ultimately have "?ks ! k = ks ! k" and "?ks ! heap_parent k = ks ! ?p"
        using nth [OF k(2)] nth [OF pk] k p by auto
      moreover have "\<not> lt (ks ! k) (ks ! ?p)"
        using hole k True j by (auto simp: heap_hole_def)
      ultimately show ?thesis by (simp add: edge_ok_def)
    next
      case False
      with k have "k \<noteq> j" by auto
      with False k have "edge_ok lt ks k" using hole by (auto simp: heap_hole_def)
      with False k \<open>k \<noteq> j\<close> show ?thesis using nth [OF k(2)] nth [OF pk] by (simp add: edge_ok_def)
    qed
  next
    fix k assume k: "0 < k" "k < n" "heap_parent k = ?p" "0 < ?p"
    have pp: "heap_parent ?p < ?p" using k(4) by (rule heap_parent_less)
    have g: "?ks ! heap_parent ?p = ks ! heap_parent ?p" using nth [of "heap_parent ?p"] pp p j by simp
    have pe: "\<not> lt (ks ! ?p) (ks ! heap_parent ?p)"
      using hole k(4) p j pp by (auto simp: heap_hole_def edge_ok_def)
    show "\<not> lt (?ks ! k) (?ks ! heap_parent ?p)"
    proof (cases "k = j")
      case True
      with nth [OF k(2)] p g pe show ?thesis by simp
    next
      case False
      have "k \<noteq> ?p" using heap_parent_less [OF k(1)] k(3) by auto
      have "\<not> lt (ks ! k) (ks ! ?p)"
        using heap_hole_edge [OF hole k(1,2) False] k(3) p by simp
      with pe have "\<not> lt (ks ! k) (ks ! heap_parent ?p)" by (rule not_lt_trans)
      with False \<open>k \<noteq> ?p\<close> nth [OF k(2)] g show ?thesis by simp
    qed
  qed
  show "children_ok lt ?ks n ?p"
    unfolding children_ok_def
  proof (intro allI impI)
    fix k assume k: "0 < k" "k < n" "heap_parent k = ?p"
    have kp: "k \<noteq> ?p" using heap_parent_less [OF k(1)] k(3) by auto
    have pv: "?ks ! ?p = ks ! j" using nth [of ?p] p j by simp
    show "edge_ok lt ?ks k"
    proof (cases "k = j")
      case True
      with nth [OF k(2)] pv k(3) kp lt_asym [OF lt] show ?thesis by (simp add: edge_ok_def)
    next
      case False
      have "\<not> lt (ks ! k) (ks ! ?p)"
        using heap_hole_edge [OF hole k(1,2) False] k(3) p by simp
      with lt_asym [OF lt] have "\<not> lt (ks ! k) (ks ! j)" using not_lt_trans by blast
      with False kp nth [OF k(2)] pv k(3) show ?thesis by (simp add: edge_ok_def)
    qed
  qed
qed

lemma heap_up_permutes:
  "j < n \<Longrightarrow> n \<le> length h \<Longrightarrow> permuted_below n (keys h) (keys (heap_up I h j))"
proof (induction I\<equiv>I h j rule: heap_up.induct)
  case (1 h j)
  let ?i = "(j - 1) div 2"
  show ?case
  proof (cases "?i = j \<or> \<not> hLess I h j ?i")
    case True
    then show ?thesis by (simp add: heap_up.simps [of I h j] Let_def)
  next
    case False
    then have i: "?i < j" by arith
    have sw: "permuted_below n (keys h) (keys (hSwap I h ?i j))"
      using i "1.prems" by (simp add: swap_key permuted_below_swap)
    have "permuted_below n (keys (hSwap I h ?i j)) (keys (heap_up I (hSwap I h ?i j) ?i))"
      using "1.hyps" [OF refl False] i "1.prems" by simp
    with sw show ?thesis
      using False by (simp add: heap_up.simps [of I h j] Let_def) (rule permuted_below_trans)
  qed
qed

lemma heap_up_order:
  "j < n \<Longrightarrow> n \<le> length h \<Longrightarrow> heap_hole lt (keys h) n j \<Longrightarrow> children_ok lt (keys h) n j \<Longrightarrow>
   heap_order lt (keys (heap_up I h j)) n"
proof (induction I\<equiv>I h j rule: heap_up.induct)
  case (1 h j)
  let ?i = "(j - 1) div 2"
  have pi: "heap_parent j = ?i" by (simp add: heap_parent_def)
  have ij: "?i < length h" using "1.prems" by linarith
  show ?case
  proof (cases "?i = j \<or> \<not> hLess I h j ?i")
    case True
    have "edge_ok lt (keys h) j" if "0 < j"
      using True that "1.prems" ij by (auto simp: edge_ok_def pi less_key)
    with "1.prems" have "heap_order lt (keys h) n"
      by (intro heap_order_complete [of lt "keys h" n j]) auto
    then show ?thesis using True by (simp add: heap_up.simps [of I h j] Let_def)
  next
    case False
    then have i: "?i < j" "0 < j" by arith+
    have lt: "lt (keys h ! j) (keys h ! heap_parent j)"
      using False "1.prems" ij by (simp add: less_key pi)
    have sw: "keys (hSwap I h ?i j) = list_swap (keys h) (heap_parent j) j"
      using "1.prems" ij by (simp add: swap_key pi)
    have "heap_order lt (keys (heap_up I (hSwap I h ?i j) ?i)) n"
    proof (rule "1.hyps" [OF refl False])
      show "?i < n" and "n \<le> length (hSwap I h ?i j)" using i "1.prems" by simp_all
      show "heap_hole lt (keys (hSwap I h ?i j)) n ?i"
        using up_step_hole(1) [OF "1.prems"(3,4) i(2) "1.prems"(1) _ lt] "1.prems"(2) sw pi by simp
      show "children_ok lt (keys (hSwap I h ?i j)) n ?i"
        using up_step_hole(2) [OF "1.prems"(3,4) i(2) "1.prems"(1) _ lt] "1.prems"(2) sw pi by simp
    qed
    then show ?thesis using False by (simp add: heap_up.simps [of I h j] Let_def)
  qed
qed

lemma down_step_hole:
  assumes hole: "heap_hole lt ks n i" and n: "n \<le> length ks"
    and j: "0 < j" "j < n" "heap_parent j = i" and lt: "lt (ks ! j) (ks ! i)"
    and least: "\<And>c. 0 < c \<Longrightarrow> c < n \<Longrightarrow> heap_parent c = i \<Longrightarrow> \<not> lt (ks ! c) (ks ! j)"
  shows "heap_hole lt (list_swap ks i j) n j" and "edge_ok lt (list_swap ks i j) j"
proof -
  let ?ks = "list_swap ks i j"
  have ij: "i < j" using j heap_parent_less by blast
  have nth: "?ks ! k = (if k = i then ks ! j else if k = j then ks ! i else ks ! k)" if "k < n" for k
    using that j n ij by (simp add: list_swap_nth)
  show "edge_ok lt ?ks j"
    using nth [of j] nth [of i] j ij lt_asym [OF lt] by (simp add: edge_ok_def)
  show "heap_hole lt ?ks n j"
    unfolding heap_hole_def
  proof (intro conjI allI impI)
    fix k assume k: "0 < k" "k < n" "k \<noteq> j" "heap_parent k \<noteq> j"
    have pk: "heap_parent k < n" using heap_parent_less [OF k(1)] k(2) by simp
    show "edge_ok lt ?ks k"
    proof (cases "heap_parent k = i")
      case True
      then have "k \<noteq> i" using heap_parent_less [OF k(1)] by simp
      with True k nth [OF k(2)] nth [OF pk] least [OF k(1,2) True] show ?thesis
        by (simp add: edge_ok_def)
    next
      case False
      show ?thesis
      proof (cases "k = i")
        case True
        have "\<not> lt (ks ! j) (ks ! heap_parent i)"
          using heap_hole_grandparent [OF hole j] k(1) True by simp
        with True False k nth [OF k(2)] nth [OF pk] show ?thesis by (simp add: edge_ok_def)
      next
        case False2: False
        have "\<not> lt (ks ! k) (ks ! heap_parent k)"
          using heap_hole_edge [OF hole k(1,2) False2 False] .
        with False False2 k nth [OF k(2)] nth [OF pk] show ?thesis by (simp add: edge_ok_def)
      qed
    qed
  next
    fix k assume k: "0 < k" "k < n" "heap_parent k = j" "0 < j"
    have kj: "j < k" using heap_parent_less [OF k(1)] k(3) by simp
    have "\<not> lt (ks ! k) (ks ! j)"
      using heap_hole_edge [OF hole k(1,2)] k(3) kj ij by simp
    with nth [OF k(2)] nth [of i] kj ij j show "\<not> lt (?ks ! k) (?ks ! heap_parent j)" by simp
  qed
qed

text \<open>The child that \<open>down\<close> picks is a least one, and the loop's two exits.\<close>

lemma down_child:
  assumes n: "n \<le> length h" and j1: "\<not> n \<le> 2 * i + 1"
  shows "heap_child I h i n < n" and "heap_parent (heap_child I h i n) = i"
    and "0 < c \<Longrightarrow> c < n \<Longrightarrow> heap_parent c = i \<Longrightarrow> \<not> lt (keys h ! c) (keys h ! heap_child I h i n)"
proof -
  show "heap_child I h i n < n" "heap_parent (heap_child I h i n) = i"
    using j1 by (auto simp: heap_child_def heap_parent_def Let_def)
  assume c: "0 < c" "c < n" "heap_parent c = i"
  then have "c = 2 * i + 1 \<or> c = 2 * i + 2" by (simp add: heap_parent_eq_iff)
  then show "\<not> lt (keys h ! c) (keys h ! heap_child I h i n)"
    using c n j1 lt_asym by (auto simp: heap_child_def less_key Let_def)
qed

lemma children_ok_leaf: "n \<le> 2 * i + 1 \<Longrightarrow> children_ok lt ks n i"
  by (auto simp: children_ok_def heap_parent_eq_iff)

lemma children_ok_least:
  assumes "\<And>c. 0 < c \<Longrightarrow> c < n \<Longrightarrow> heap_parent c = i \<Longrightarrow> \<not> lt (ks ! c) (ks ! j)"
    and "\<not> lt (ks ! j) (ks ! i)"
  shows "children_ok lt ks n i"
  using assms not_lt_trans unfolding children_ok_def edge_ok_def by blast

lemma heap_down_loop_permutes:
  "n \<le> length h \<Longrightarrow> permuted_below n (keys h) (keys (fst (heap_down_loop I h i n)))
     \<and> i \<le> snd (heap_down_loop I h i n)"
proof (induction I\<equiv>I h i n rule: heap_down_loop.induct)
  case (1 h i n)
  let ?j = "heap_child I h i n"
  show ?case
  proof (cases "n \<le> 2 * i + 1 \<or> \<not> hLess I h ?j i")
    case True
    then show ?thesis by (simp add: heap_down_loop_stop)
  next
    case False
    then have j: "i < ?j" "?j < n" using heap_child_greater down_child(1) [OF "1.prems"] by auto
    have sw: "permuted_below n (keys h) (keys (hSwap I h i ?j))"
      using j "1.prems" by (simp add: swap_key permuted_below_swap)
    have "permuted_below n (keys (hSwap I h i ?j)) (keys (fst (heap_down_loop I (hSwap I h i ?j) ?j n)))
        \<and> ?j \<le> snd (heap_down_loop I (hSwap I h i ?j) ?j n)"
      using False j "1.prems" by (intro "1.hyps" [OF _ refl]) auto
    with sw j show ?thesis
      using False by (auto simp: heap_down_loop_go intro: permuted_below_trans)
  qed
qed

lemma heap_down_loop_order:
  "n \<le> length h \<Longrightarrow> heap_hole lt (keys h) n i \<Longrightarrow> (0 < i \<Longrightarrow> i < n \<Longrightarrow> edge_ok lt (keys h) i) \<Longrightarrow>
   heap_order lt (keys (fst (heap_down_loop I h i n))) n"
proof (induction I\<equiv>I h i n rule: heap_down_loop.induct)
  case (1 h i n)
  let ?j = "heap_child I h i n"
  note j = down_child [OF "1.prems"(1), of i]
  show ?case
  proof (cases "n \<le> 2 * i + 1")
    case True
    with "1.prems"(2,3) show ?thesis
      by (simp add: heap_down_loop_stop heap_order_complete children_ok_leaf)
  next
    case inner: False
    then have ij: "i < n" "?j < length h" "i < length h" using j(1) "1.prems"(1) by auto
    show ?thesis
    proof (cases "hLess I h ?j i")
      case False
      then have "children_ok lt (keys h) n i"
        using children_ok_least [OF j(3) [OF inner]] ij by (simp add: less_key)
      with "1.prems"(2,3) False show ?thesis
        by (simp add: heap_down_loop_stop heap_order_complete)
    next
      case True
      have sw: "keys (hSwap I h i ?j) = list_swap (keys h) i ?j" using ij by (intro swap_key)
      have pos: "0 < ?j" using heap_child_greater [of i I h n] by simp
      have less: "lt (keys h ! ?j) (keys h ! i)" using True ij by (simp add: less_key)
      have len: "n \<le> length (keys h)" using "1.prems"(1) by simp
      note step = down_step_hole [OF "1.prems"(2) len pos j(1,2) [OF inner] less j(3) [OF inner]]
      have len': "n \<le> length (hSwap I h i ?j)" using ij "1.prems"(1) by simp
      have "heap_order lt (keys (fst (heap_down_loop I (hSwap I h i ?j) ?j n))) n"
        using True by (intro "1.hyps" [OF inner refl _ len'] step [folded sw]) simp
      then show ?thesis unfolding heap_down_loop_go [of n i I h, OF inner True] .
    qed
  qed
qed

text \<open>
  \<open>down\<close> from a hole: when it moves the entry, the order holds below \<open>n\<close>; when it does
  not, nothing changed and only the edge to the parent can be out of order.
\<close>

lemma heap_down_hole:
  assumes n: "n \<le> length h" and hole: "heap_hole lt (keys h) n i" and i: "i < n"
    and d: "heap_down I h i n = (h', moved)"
  shows "permuted_below n (keys h) (keys h')"
    and "moved \<Longrightarrow> heap_order lt (keys h') n"
    and "\<not> moved \<Longrightarrow> h' = h \<and> children_ok lt (keys h) n i"
proof -
  let ?j = "heap_child I h i n"
  note j = down_child [OF n, of i]
  obtain i' where lp: "heap_down_loop I h i n = (h', i')" and mv: "moved = (i < i')"
    using d by (auto simp: heap_down_def split: prod.splits)
  show "permuted_below n (keys h) (keys h')"
    using heap_down_loop_permutes [OF n, of i] lp by simp
  consider (leaf) "n \<le> 2 * i + 1" | (stay) "\<not> n \<le> 2 * i + 1" "\<not> hLess I h ?j i"
    | (go) "\<not> n \<le> 2 * i + 1" "hLess I h ?j i" by blast
  then have "(moved \<longrightarrow> heap_order lt (keys h') n) \<and> (\<not> moved \<longrightarrow> h' = h \<and> children_ok lt (keys h) n i)"
  proof cases
    case leaf
    then show ?thesis using lp mv by (simp add: heap_down_loop_stop children_ok_leaf)
  next
    case stay
    then have "children_ok lt (keys h) n i"
      using children_ok_least [OF j(3) [OF stay(1)]] j(1) n i by (simp add: less_key)
    then show ?thesis using lp mv stay by (simp add: heap_down_loop_stop)
  next
    case go
    then have ij: "?j < length h" "i < length h" using j(1) n i by auto
    have sw: "keys (hSwap I h i ?j) = list_swap (keys h) i ?j" using ij by (intro swap_key)
    have pos: "0 < ?j" using heap_child_greater [of i I h n] by simp
    have less: "lt (keys h ! ?j) (keys h ! i)" using go ij by (simp add: less_key)
    have len: "n \<le> length (keys h)" using n by simp
    note step = down_step_hole [OF hole len pos j(1,2) [OF go(1)] less j(3) [OF go(1)]]
    have lp': "heap_down_loop I (hSwap I h i ?j) ?j n = (h', i')"
      using lp heap_down_loop_go [of n i I h, OF go] by simp
    have len': "n \<le> length (hSwap I h i ?j)" using n ij by simp
    have "heap_order lt (keys h') n"
      using heap_down_loop_order [OF len' step(1) [folded sw] step(2) [folded sw]] unfolding lp' fst_conv .
    moreover have "?j \<le> i'"
      using heap_down_loop_permutes [OF len', of ?j] unfolding lp' snd_conv by (rule conjunct2)
    with heap_child_greater have "i < i'" by (rule less_le_trans)
    ultimately show ?thesis using mv by simp
  qed
  then show "moved \<Longrightarrow> heap_order lt (keys h') n"
    and "\<not> moved \<Longrightarrow> h' = h \<and> children_ok lt (keys h) n i" by blast+
qed

definition heap_ok :: "'e list \<Rightarrow> bool" where
  "heap_ok h \<longleftrightarrow> heap_order lt (keys h) (length h)"

lemma heap_ok_Nil [simp]: "heap_ok []"
  by (simp add: heap_ok_def heap_order_def)

theorem heap_root_least:
  assumes "heap_ok h" and "j < length h"
  shows "\<not> lt (key (h ! j)) (key (h ! 0))"
  using assms(2)
proof (induction j rule: less_induct)
  case (less j)
  show ?case
  proof (cases "j = 0")
    case False
    then have p: "heap_parent j < j" by (simp add: heap_parent_less)
    with less.prems have pl: "heap_parent j < length h" by simp
    have "\<not> lt (key (h ! j)) (key (h ! heap_parent j))"
      using assms(1) False less.prems nth_map [OF pl, of key]
      unfolding heap_ok_def heap_order_def edge_ok_def by (metis length_map neq0_conv nth_map)
    with less.IH [OF p pl] show ?thesis by (rule not_lt_trans)
  qed simp
qed

lemma heap_hole_cong:
  assumes "\<And>k. k < n \<Longrightarrow> k \<noteq> i \<Longrightarrow> ks' ! k = ks ! k" and "heap_hole lt ks n i"
  shows "heap_hole lt ks' n i"
  unfolding heap_hole_def
proof (intro conjI allI impI)
  fix j assume j: "0 < j" "j < n" "j \<noteq> i" "heap_parent j \<noteq> i"
  with heap_hole_edge [OF assms(2) j] assms(1) heap_parent_less [OF j(1)] show "edge_ok lt ks' j"
    by (simp add: edge_ok_def)
next
  fix j assume j: "0 < j" "j < n" "heap_parent j = i" "0 < i"
  have "heap_parent i < i" "i < j" using heap_parent_less j by auto
  with heap_hole_grandparent [OF assms(2) j] assms(1) j show "\<not> lt (ks' ! j) (ks' ! heap_parent i)"
    by simp
qed

lemma heap_order_hole_lt: "heap_order lt ks n \<Longrightarrow> heap_hole lt ks n i"
  by (erule heap_order_hole) (rule not_lt_trans)

lemma heap_order_mono: "heap_order lt ks n \<Longrightarrow> m \<le> n \<Longrightarrow> heap_order lt ks m"
  by (simp add: heap_order_def)

lemma heap_hole_swapped:
  assumes "heap_order lt ks (length ks)" and "i < n" and "n < length ks"
  shows "heap_hole lt (list_swap ks i n) n i"
proof (rule heap_hole_cong)
  show "heap_hole lt ks n i"
    using assms by (simp add: heap_order_hole_lt heap_order_mono [of ks "length ks" n])
qed (use assms in \<open>simp add: list_swap_nth\<close>)

text \<open>The last step of \<open>Pop\<close> and \<open>Remove\<close>: the entry parked at the end leaves the list.\<close>

lemma pop_last:
  assumes "permuted_below n (list_swap ks i n) (keys h)" and "heap_order lt (keys h) n"
    and "i \<le> n" and "length ks = Suc n"
  shows "heap_ok (fst (hPop I h))" and "key (snd (hPop I h)) = ks ! i"
    and "mset ks = add_mset (ks ! i) (mset (keys (fst (hPop I h))))"
proof -
  have len: "length (keys h) = Suc n"
    using permuted_below_length [OF assms(1)] assms(4) by simp
  then have h: "h \<noteq> []" by auto
  have at: "keys h ! n = ks ! i"
    using permuted_below_nth [OF assms(1), of n] assms(3,4) by (simp add: list_swap_nth)
  have pop: "keys (fst (hPop I h)) = butlast (keys h)" "key (snd (hPop I h)) = key (last h)"
    using pop_key [OF h] by simp_all
  show "key (snd (hPop I h)) = ks ! i"
    using pop(2) at len h by (simp add: last_conv_nth)
  show "heap_ok (fst (hPop I h))"
    using heap_order_butlast [of lt "keys h"] assms(2) len pop(1)
    by (metis diff_Suc_1 heap_ok_def length_butlast length_map)
  have "keys h = butlast (keys h) @ [ks ! i]"
    using at len h by (metis append_butlast_last_id diff_Suc_1 last_conv_nth map_is_Nil_conv)
  then have "mset (keys h) = add_mset (ks ! i) (mset (keys (fst (hPop I h))))"
    by (metis pop(1) mset.simps(2) mset_append union_code union_mset_add_mset_right add.right_neutral mset.simps(1))
  moreover have "mset (keys h) = mset ks"
    using permuted_below_mset [OF assms(1)] assms(3,4) by simp
  ultimately show "mset ks = add_mset (ks ! i) (mset (keys (fst (hPop I h))))" by simp
qed

theorem heap_push_correct:
  assumes "heap_ok h"
  shows "heap_ok (heap_push I h x)"
    and "mset (keys (heap_push I h x)) = add_mset (key x) (mset (keys h))"
proof -
  let ?h = "hPush I h x"
  have ks: "keys ?h = keys h @ [key x]" by (rule push_key)
  have len: "length ?h = Suc (length h)"
    using ks by (metis length_append_singleton length_map)
  have nth: "keys ?h ! k = keys h ! k" if "k < length h" for k
    using that by (simp add: ks nth_append)
  have hole: "heap_hole lt (keys ?h) (length ?h) (length h)"
    unfolding heap_hole_def
  proof (intro conjI allI impI)
    fix j assume j: "0 < j" "j < length ?h" "j \<noteq> length h"
    then have "j < length h" "heap_parent j < length h" using heap_parent_less [of j] len by auto
    with assms j show "edge_ok lt (keys ?h) j"
      by (simp only: heap_ok_def heap_order_def edge_ok_def nth) simp
  next
    fix j assume "0 < j" "j < length ?h" "heap_parent j = length h" "0 < length h"
    with heap_parent_less [of j] len show "\<not> lt (keys ?h ! j) (keys ?h ! heap_parent (length h))"
      by simp
  qed
  have ch: "children_ok lt (keys ?h) (length ?h) (length h)"
    by (rule children_ok_leaf) (simp add: len)
  have lt: "length h < length ?h" by (simp add: len)
  have eq: "heap_push I h x = heap_up I ?h (length h)" by (simp add: heap_push_def len)
  have perm: "permuted_below (length ?h) (keys ?h) (keys (heap_push I h x))"
    unfolding eq by (rule heap_up_permutes [OF lt order_refl])
  show "mset (keys (heap_push I h x)) = add_mset (key x) (mset (keys h))"
    using permuted_below_mset [OF perm] by (simp add: ks)
  have "length (heap_push I h x) = length ?h"
    using permuted_below_length [OF perm] by simp
  then show "heap_ok (heap_push I h x)"
    using heap_up_order [OF lt order_refl hole ch] by (simp add: heap_ok_def eq)
qed

theorem heap_pop_correct:
  assumes "heap_ok h" and "h \<noteq> []"
  shows "heap_ok (fst (heap_pop I h))"
    and "key (snd (heap_pop I h)) = keys h ! 0"
    and "mset (keys h) = add_mset (keys h ! 0) (mset (keys (fst (heap_pop I h))))"
proof -
  let ?n = "length h - 1"
  have n: "?n < length (keys h)" "length (keys h) = Suc ?n" using assms(2) by simp_all
  have sw: "keys (hSwap I h 0 ?n) = list_swap (keys h) 0 ?n" using assms(2) by (simp add: swap_key)
  have len: "?n \<le> length (hSwap I h 0 ?n)" using assms(2) by simp
  let ?d = "fst (heap_down I (hSwap I h 0 ?n) 0 ?n)"
  have d: "?d = fst (heap_down_loop I (hSwap I h 0 ?n) 0 ?n)"
    by (simp add: heap_down_def split: prod.splits)
  have perm: "permuted_below ?n (list_swap (keys h) 0 ?n) (keys ?d)"
    using heap_down_loop_permutes [OF len, of 0] unfolding d sw by (rule conjunct1)
  have ord: "heap_order lt (keys ?d) ?n"
  proof (cases "0 < ?n")
    case True
    have "heap_hole lt (keys (hSwap I h 0 ?n)) ?n 0"
      using heap_hole_swapped [of "keys h" 0 ?n] assms(1) True n unfolding sw heap_ok_def by simp
    then show ?thesis unfolding d by (intro heap_down_loop_order len) simp_all
  qed (simp add: heap_order_def)
  have eq: "heap_pop I h = hPop I ?d" by (simp add: heap_pop_def Let_def)
  show "heap_ok (fst (heap_pop I h))" "key (snd (heap_pop I h)) = keys h ! 0"
    "mset (keys h) = add_mset (keys h ! 0) (mset (keys (fst (heap_pop I h))))"
    unfolding eq using pop_last [OF perm ord le0 n(2)] by blast+
qed

text \<open>Putting a hole back in order: \<open>down\<close>, and \<open>up\<close> when \<open>down\<close> did not move.\<close>

lemma sift_correct:
  assumes n: "n \<le> length h" and hole: "heap_hole lt (keys h) n i" and i: "i < n"
    and d: "heap_down I h i n = (h', moved)"
  defines "h'' \<equiv> (if moved then h' else heap_up I h' i)"
  shows "permuted_below n (keys h) (keys h'')" and "heap_order lt (keys h'') n"
proof -
  note down = heap_down_hole [OF n hole i d]
  show "permuted_below n (keys h) (keys h'')"
    using down heap_up_permutes [OF i n] by (cases moved) (simp_all add: h''_def)
  show "heap_order lt (keys h'') n"
    using down heap_up_order [OF i n hole] by (cases moved) (simp_all add: h''_def)
qed

theorem heap_fix_correct:
  assumes hole: "heap_hole lt (keys h) (length h) i" and i: "i < length h"
  shows "heap_ok (heap_fix I h i)" and "mset (keys (heap_fix I h i)) = mset (keys h)"
proof -
  obtain h' moved where d: "heap_down I h i (length h) = (h', moved)" by fastforce
  note s = sift_correct [OF order_refl hole i d]
  have eq: "heap_fix I h i = (if moved then h' else heap_up I h' i)"
    by (simp add: heap_fix_def d)
  show "mset (keys (heap_fix I h i)) = mset (keys h)"
    unfolding eq using s(1) by (rule permuted_below_mset)
  have "length (heap_fix I h i) = length h"
    using permuted_below_length [OF s(1)] by (simp add: eq)
  with s(2) show "heap_ok (heap_fix I h i)" by (simp add: heap_ok_def eq)
qed

theorem heap_remove_correct:
  assumes ok: "heap_ok h" and i: "i < length h"
  shows "heap_ok (fst (heap_remove I h i))"
    and "key (snd (heap_remove I h i)) = key (h ! i)"
    and "mset (keys h) = add_mset (key (h ! i)) (mset (keys (fst (heap_remove I h i))))"
proof -
  let ?n = "length h - 1"
  have n: "length (keys h) = Suc ?n" "?n < length h" "i \<le> ?n" using i by simp_all
  obtain g where eq: "heap_remove I h i = hPop I g"
    and perm: "permuted_below ?n (list_swap (keys h) i ?n) (keys g)"
    and ord: "heap_order lt (keys g) ?n"
  proof (cases "i = ?n")
    case True
    have "heap_remove I h i = hPop I h" by (simp add: heap_remove_def Let_def True)
    moreover have "list_swap (keys h) i ?n = keys h" by (simp add: list_swap_def True)
    moreover have "heap_order lt (keys h) ?n"
      using ok unfolding heap_ok_def by (rule heap_order_mono) simp
    ultimately show ?thesis using that [of h] by simp
  next
    case False
    with n have lt: "i < ?n" by simp
    obtain h' moved where d: "heap_down I (hSwap I h i ?n) i ?n = (h', moved)" by fastforce
    have sw: "keys (hSwap I h i ?n) = list_swap (keys h) i ?n" using i n by (simp add: swap_key)
    have len: "?n \<le> length (hSwap I h i ?n)" using i n by simp
    have hole: "heap_hole lt (keys (hSwap I h i ?n)) ?n i"
      using heap_hole_swapped [of "keys h" i ?n] ok lt n unfolding sw heap_ok_def by simp
    have "heap_remove I h i = hPop I (if moved then h' else heap_up I h' i)"
      using False unfolding heap_remove_def Let_def d by simp
    then show ?thesis
      using that sift_correct [OF len hole lt d] unfolding sw by blast
  qed
  show "heap_ok (fst (heap_remove I h i))" "key (snd (heap_remove I h i)) = key (h ! i)"
    "mset (keys h) = add_mset (key (h ! i)) (mset (keys (fst (heap_remove I h i))))"
    unfolding eq using pop_last [OF perm ord n(3,1)] i by simp_all
qed

lemma heap_pop_length: "h \<noteq> [] \<Longrightarrow> length (fst (heap_pop I h)) = length h - 1"
proof -
  assume h: "h \<noteq> []"
  let ?s = "hSwap I h 0 (length h - 1)"
  have len: "length h - 1 \<le> length ?s" using h by simp
  have "length (fst (heap_down I ?s 0 (length h - 1))) = length h"
    using heap_down_loop_permutes [OF len, of 0] h
    by (auto simp: heap_down_def dest: permuted_below_length split: prod.splits)
  moreover from this have "fst (heap_down I ?s 0 (length h - 1)) \<noteq> []" using h by force
  ultimately show "length (fst (heap_pop I h)) = length h - 1"
    using pop_key [of "fst (heap_down I ?s 0 (length h - 1))"]
    by (metis heap_pop_def length_butlast length_map)
qed

lemmas heap_correct = heap_push_correct heap_pop_correct heap_remove_correct

end

section \<open>The index field\<close>

text \<open>
  Both entry types carry an \<open>index\<close> that \<open>Swap\<close>, \<open>Push\<close> and \<open>Pop\<close> maintain. The
  extended contract says so, and every function of \<open>container/heap\<close> keeps
  \<open>h[i].index = i\<close>.
\<close>

definition indexed :: "('e \<Rightarrow> int) \<Rightarrow> 'e list \<Rightarrow> bool" where
  "indexed pos h \<longleftrightarrow> (\<forall>i < length h. pos (h ! i) = int i)"

locale indexed_heap_impl = heap_impl I key lt
  for I :: "'e heap_interface" and key :: "'e \<Rightarrow> 'k" and lt :: "'k \<Rightarrow> 'k \<Rightarrow> bool" +
  fixes pos :: "'e \<Rightarrow> int"
  assumes swap_indexed: "indexed pos h \<Longrightarrow> i < length h \<Longrightarrow> j < length h \<Longrightarrow> indexed pos (hSwap I h i j)"
    and push_indexed: "indexed pos h \<Longrightarrow> indexed pos (hPush I h x)"
    and pop_indexed: "indexed pos h \<Longrightarrow> h \<noteq> [] \<Longrightarrow> indexed pos (fst (hPop I h))"
begin

lemma heap_up_indexed: "j < length h \<Longrightarrow> indexed pos h \<Longrightarrow> indexed pos (heap_up I h j)"
proof (induction I\<equiv>I h j rule: heap_up.induct)
  case (1 h j)
  show ?case
  proof (cases "(j - 1) div 2 = j \<or> \<not> hLess I h j ((j - 1) div 2)")
    case True
    with "1.prems" show ?thesis by (simp add: heap_up.simps [of I h j] Let_def)
  next
    case False
    have i: "(j - 1) div 2 < length h" using "1.prems"(1) by linarith
    have "indexed pos (heap_up I (hSwap I h ((j - 1) div 2) j) ((j - 1) div 2))"
      using False "1.prems" i by (intro "1.hyps" [OF refl] swap_indexed) simp_all
    with False show ?thesis by (simp add: heap_up.simps [of I h j] Let_def)
  qed
qed

lemma heap_down_loop_indexed:
  "n \<le> length h \<Longrightarrow> indexed pos h \<Longrightarrow> indexed pos (fst (heap_down_loop I h i n))"
proof (induction I\<equiv>I h i n rule: heap_down_loop.induct)
  case (1 h i n)
  let ?j = "heap_child I h i n"
  show ?case
  proof (cases "n \<le> 2 * i + 1 \<or> \<not> hLess I h ?j i")
    case True
    with "1.prems" show ?thesis by (simp add: heap_down_loop_stop)
  next
    case False
    then have inner: "\<not> n \<le> 2 * i + 1" and less: "hLess I h ?j i" by auto
    have j: "?j < length h" "i < length h"
      using down_child(1) [OF "1.prems"(1) inner] inner "1.prems"(1) by auto
    have "indexed pos (fst (heap_down_loop I (hSwap I h i ?j) ?j n))"
      using less j "1.prems" by (intro "1.hyps" [OF inner refl] swap_indexed) simp_all
    then show ?thesis unfolding heap_down_loop_go [of n i I h, OF inner less] .
  qed
qed

lemma heap_down_indexed: "n \<le> length h \<Longrightarrow> indexed pos h \<Longrightarrow> indexed pos (fst (heap_down I h i n))"
  using heap_down_loop_indexed [of n h i] by (auto simp: heap_down_def split: prod.splits)

lemma heap_down_length: "n \<le> length h \<Longrightarrow> length (fst (heap_down I h i n)) = length h"
  using heap_down_loop_permutes [of n h i]
  by (auto simp: heap_down_def dest: permuted_below_length split: prod.splits)

lemma heap_push_indexed: "indexed pos h \<Longrightarrow> indexed pos (heap_push I h x)"
proof -
  have "hPush I h x \<noteq> []" using push_key [of h x] by auto
  then show "indexed pos h \<Longrightarrow> indexed pos (heap_push I h x)"
    by (simp add: heap_push_def Let_def heap_up_indexed push_indexed)
qed

lemma heap_pop_indexed: "h \<noteq> [] \<Longrightarrow> indexed pos h \<Longrightarrow> indexed pos (fst (heap_pop I h))"
proof -
  assume h: "h \<noteq> []" and ix: "indexed pos h"
  let ?n = "length h - 1" and ?s = "hSwap I h 0 (length h - 1)"
  have "indexed pos ?s" using h ix by (intro swap_indexed) simp_all
  moreover have le: "?n \<le> length ?s" using h by simp
  ultimately have "indexed pos (fst (heap_down I ?s 0 ?n))" by (intro heap_down_indexed)
  moreover have "fst (heap_down I ?s 0 ?n) \<noteq> []" using heap_down_length [OF le, of 0] h by force
  ultimately show "indexed pos (fst (heap_pop I h))" by (simp add: heap_pop_def Let_def pop_indexed)
qed

lemma heap_remove_indexed:
  "i < length h \<Longrightarrow> indexed pos h \<Longrightarrow> indexed pos (fst (heap_remove I h i))"
proof -
  assume i: "i < length h" and ix: "indexed pos h"
  let ?n = "length h - 1" and ?s = "hSwap I h i (length h - 1)"
  have h: "h \<noteq> []" using i by auto
  have s: "indexed pos ?s" using h i ix by (intro swap_indexed) simp_all
  have le: "?n \<le> length ?s" using h i by simp
  obtain h' moved where d: "heap_down I ?s i ?n = (h', moved)" by fastforce
  have h': "indexed pos h'" "length h' = length h"
    using heap_down_indexed [OF le s, of i] heap_down_length [OF le, of i] d h i by simp_all
  have up: "indexed pos (heap_up I h' i)" "heap_up I h' i \<noteq> []"
    using heap_up_indexed [of i h'] heap_up_permutes [of i "length h'" h'] h' i
    by (auto dest: permuted_below_length)
  show "indexed pos (fst (heap_remove I h i))"
    unfolding heap_remove_def Let_def d using h ix h' up by (auto intro!: pop_indexed)
qed

lemma heap_fix_indexed: "i < length h \<Longrightarrow> indexed pos h \<Longrightarrow> indexed pos (heap_fix I h i)"
  using heap_down_indexed [OF order_refl, of h i] heap_down_length [OF order_refl, of h i]
  by (auto simp: heap_fix_def heap_up_indexed split: prod.splits)

lemmas heap_indexed = heap_push_indexed heap_pop_indexed heap_remove_indexed heap_fix_indexed

end

text \<open>The order of entries whose second component is a linearly ordered key.\<close>

definition served_before :: "'a \<times> 'k::linorder \<Rightarrow> 'a \<times> 'k \<Rightarrow> bool" where
  "served_before a b \<longleftrightarrow> snd a < snd b"

end
