(* ===== verification/QueueContract.thy ===== *)
theory QueueContract
  imports Prelude
begin

text \<open>
  The interfaces of \<open>internal/queue\<close> as its clients see them: what both queues promise
  (\<open>task_queue\<close>) and what the ready queue and the delayed queue add to it. The lemmas the
  clients need are proved once here; \<open>ReadyQueue\<close> and \<open>DelayedQueue\<close> interpret the
  contracts on the models of the code.
\<close>

text \<open>A queue that holds at most one entry per task, seen as the set of the ids it holds.\<close>

locale task_queue =
  fixes queue_inv :: "'q \<Rightarrow> bool"
    and queued :: "'q \<Rightarrow> string set"
    and queue_new :: 'q
    and queue_remove :: "'q \<Rightarrow> string \<Rightarrow> 'q \<times> bool"
    and queue_len :: "'q \<Rightarrow> nat"
  assumes inv_new: "queue_inv queue_new"
    and queued_new: "queued queue_new = {}"
    and inv_remove: "queue_inv q \<Longrightarrow> queue_inv (fst (queue_remove q t))"
    and queued_remove: "queue_inv q \<Longrightarrow> queued (fst (queue_remove q t)) = queued q - {t}"
    and remove_reports: "queue_inv q \<Longrightarrow> snd (queue_remove q t) = (t \<in> queued q)"
    and len_card: "queue_inv q \<Longrightarrow> queue_len q = card (queued q)"
    and queued_finite: "queue_inv q \<Longrightarrow> finite (queued q)"
begin

lemma remove_idempotent:
  "queue_inv q \<Longrightarrow> \<not> snd (queue_remove (fst (queue_remove q t)) t)"
  by (simp add: remove_reports inv_remove queued_remove)

lemma len_zero_iff: "queue_inv q \<Longrightarrow> queue_len q = 0 \<longleftrightarrow> queued q = {}"
  by (simp add: len_card queued_finite)

end

locale ready_contract = task_queue queue_inv queued queue_new queue_remove queue_len
  for queue_inv :: "'q \<Rightarrow> bool" and queued queue_new queue_remove queue_len +
  fixes queue_push :: "'q \<Rightarrow> string \<Rightarrow> int \<Rightarrow> instant \<Rightarrow> 'q \<times> bool"
    and queue_pop :: "'q \<Rightarrow> 'q \<times> 'e option"
    and entry_task :: "'e \<Rightarrow> string"
  assumes inv_push: "queue_inv q \<Longrightarrow> queue_inv (fst (queue_push q t p at))"
    and queued_push: "queue_inv q \<Longrightarrow> queued (fst (queue_push q t p at)) = insert t (queued q)"
    and push_reports: "queue_inv q \<Longrightarrow> snd (queue_push q t p at) = (t \<notin> queued q)"
    and push_present: "queue_inv q \<Longrightarrow> t \<in> queued q \<Longrightarrow> fst (queue_push q t p at) = q"
    and inv_pop: "queue_inv q \<Longrightarrow> queue_inv (fst (queue_pop q))"
    and pop_None: "queue_inv q \<Longrightarrow> snd (queue_pop q) = None \<longleftrightarrow> queued q = {}"
    and pop_empty: "queue_inv q \<Longrightarrow> queued q = {} \<Longrightarrow> fst (queue_pop q) = q"
    and pop_Some: "queue_inv q \<Longrightarrow> snd (queue_pop q) = Some e \<Longrightarrow>
      entry_task e \<in> queued q \<and> queued (fst (queue_pop q)) = queued q - {entry_task e}"
begin

lemma push_twice:
  assumes "queue_inv q"
  shows "queue_push (fst (queue_push q t p at)) t p' at' = (fst (queue_push q t p at), False)"
proof (rule prod_eqI)
  let ?q = "fst (queue_push q t p at)"
  have "queue_inv ?q" and "t \<in> queued ?q" using assms by (simp_all add: inv_push queued_push)
  then show "fst (queue_push ?q t p' at') = fst (?q, False)"
    and "snd (queue_push ?q t p' at') = snd (?q, False)"
    by (simp_all add: push_present push_reports)
qed

lemma push_len:
  "queue_inv q \<Longrightarrow> queue_len (fst (queue_push q t p at)) = (if t \<in> queued q then queue_len q else Suc (queue_len q))"
  by (simp add: len_card inv_push queued_push queued_finite card_insert_if)

lemma pop_len:
  "queue_inv q \<Longrightarrow> snd (queue_pop q) = Some e \<Longrightarrow> Suc (queue_len (fst (queue_pop q))) = queue_len q"
  using pop_Some [of q e] card_Suc_Diff1 [of "queued q" "entry_task e"]
  by (simp add: len_card inv_pop queued_finite del: card_Diff_insert card_Diff_singleton)

lemma pop_gone:
  "queue_inv q \<Longrightarrow> snd (queue_pop q) = Some e \<Longrightarrow> entry_task e \<notin> queued (fst (queue_pop q))"
  using pop_Some [of q e] by simp

end

text \<open>
  The delayed queue: \<open>Push\<close> keeps the earlier of two times for one task, \<open>PopDue\<close> takes
  out exactly the entries whose time has come, earliest first.
\<close>

locale delayed_contract = task_queue queue_inv queued queue_new queue_remove queue_len
  for queue_inv :: "'q \<Rightarrow> bool" and queued queue_new queue_remove queue_len +
  fixes due_at :: "'q \<Rightarrow> string \<rightharpoonup> instant"
    and queue_push :: "'q \<Rightarrow> 'e \<Rightarrow> 'q \<times> bool"
    and queue_pop_due :: "'q \<Rightarrow> instant \<Rightarrow> 'q \<times> 'e list"
    and entry_task :: "'e \<Rightarrow> string"
    and entry_time :: "'e \<Rightarrow> instant"
  assumes queued_dom: "queue_inv q \<Longrightarrow> queued q = dom (due_at q)"
    and inv_push: "queue_inv q \<Longrightarrow> queue_inv (fst (queue_push q e))"
    and due_push: "queue_inv q \<Longrightarrow> due_at (fst (queue_push q e)) = (due_at q)(entry_task e \<mapsto>
      (case due_at q (entry_task e) of None \<Rightarrow> entry_time e | Some t \<Rightarrow> min t (entry_time e)))"
    and push_reports: "queue_inv q \<Longrightarrow> snd (queue_push q e) = (entry_task e \<notin> queued q)"
    and due_remove: "queue_inv q \<Longrightarrow> due_at (fst (queue_remove q t)) = (due_at q)(t := None)"
    and inv_pop_due: "queue_inv q \<Longrightarrow> queue_inv (fst (queue_pop_due q now))"
    and due_pop_due: "queue_inv q \<Longrightarrow> due_at (fst (queue_pop_due q now)) =
      (\<lambda>t. case due_at q t of None \<Rightarrow> None | Some u \<Rightarrow> if u \<le> now then None else Some u)"
    and popped_set: "queue_inv q \<Longrightarrow> entry_task ` set (snd (queue_pop_due q now)) =
      {t. \<exists>u. due_at q t = Some u \<and> u \<le> now}"
    and popped_distinct: "queue_inv q \<Longrightarrow> distinct (map entry_task (snd (queue_pop_due q now)))"
    and popped_sorted: "queue_inv q \<Longrightarrow> sorted (map entry_time (snd (queue_pop_due q now)))"
begin

lemma queued_push: "queue_inv q \<Longrightarrow> queued (fst (queue_push q e)) = insert (entry_task e) (queued q)"
  by (auto simp: queued_dom inv_push due_push)

lemma queued_pop_due:
  "queue_inv q \<Longrightarrow> queued (fst (queue_pop_due q now)) = queued q - entry_task ` set (snd (queue_pop_due q now))"
  by (auto simp: queued_dom inv_pop_due due_pop_due popped_set dom_def split: option.splits if_splits)

lemma popped_queued: "queue_inv q \<Longrightarrow> entry_task ` set (snd (queue_pop_due q now)) \<subseteq> queued q"
  by (auto simp: queued_dom popped_set dom_def)

lemma pop_due_again:
  assumes "queue_inv q"
  shows "snd (queue_pop_due (fst (queue_pop_due q now)) now) = []"
proof -
  let ?q = "fst (queue_pop_due q now)"
  have "due_at ?q t = Some u \<Longrightarrow> \<not> u \<le> now" for t u
    by (simp add: due_pop_due [OF assms] split: option.splits if_splits)
  then have "entry_task ` set (snd (queue_pop_due ?q now)) = {}"
    using popped_set [OF inv_pop_due [OF assms], of now now] by auto
  then show ?thesis by simp
qed

end

end
