(* ===== verification/ReadyQueue.thy ===== *)
theory ReadyQueue
  imports GoHeap QueueContract
begin

text \<open>
  \<open>internal/queue/ready.go\<close>: the priority queue of tasks waiting to be leased, a binary
  heap of entries with the set of the task ids present. The entry's key is its priority
  (higher first) and its enqueue time (earlier first).
\<close>

section \<open>The code\<close>

record ready_entry =
  re_task_id :: string
  re_priority :: int
  re_enqueued_at :: instant
  re_index :: int

record ready_queue =
  rq_entries :: "ready_entry list"
  rq_present :: "string set"

definition ready_new :: ready_queue where
  "ready_new = \<lparr>rq_entries = [], rq_present = {}\<rparr>"

definition ready_less :: "ready_entry list \<Rightarrow> nat \<Rightarrow> nat \<Rightarrow> bool" where
  "ready_less h i j =
     (if re_priority (h ! i) \<noteq> re_priority (h ! j)
      then re_priority (h ! j) < re_priority (h ! i)
      else re_enqueued_at (h ! i) < re_enqueued_at (h ! j))"

definition ready_swap :: "ready_entry list \<Rightarrow> nat \<Rightarrow> nat \<Rightarrow> ready_entry list" where
  "ready_swap h i j =
     (let h1 = h[i := h ! j, j := h ! i];
          h2 = h1[i := (h1 ! i)\<lparr>re_index := int i\<rparr>]
      in h2[j := (h2 ! j)\<lparr>re_index := int j\<rparr>])"

definition ready_heap_push :: "ready_entry list \<Rightarrow> ready_entry \<Rightarrow> ready_entry list" where
  "ready_heap_push h x = h @ [x\<lparr>re_index := int (length h)\<rparr>]"

definition ready_heap_pop :: "ready_entry list \<Rightarrow> ready_entry list \<times> ready_entry" where
  "ready_heap_pop h = (butlast h, (last h)\<lparr>re_index := -1\<rparr>)"

definition ready_heap :: "ready_entry heap_interface" where
  "ready_heap = \<lparr>hLess = ready_less, hSwap = ready_swap, hPush = ready_heap_push, hPop = ready_heap_pop\<rparr>"

definition ready_push :: "ready_queue \<Rightarrow> string \<Rightarrow> int \<Rightarrow> instant \<Rightarrow> ready_queue \<times> bool" where
  "ready_push q t prio at =
     (if t \<in> rq_present q then (q, False)
      else
        let entry = \<lparr>re_task_id = t, re_priority = prio, re_enqueued_at = at, re_index = 0\<rparr> in
        (\<lparr>rq_entries = heap_push ready_heap (rq_entries q) entry,
          rq_present = insert t (rq_present q)\<rparr>, True))"

definition ready_pop :: "ready_queue \<Rightarrow> ready_queue \<times> ready_entry option" where
  "ready_pop q =
     (if rq_entries q = [] then (q, None)
      else
        let (es, entry) = heap_pop ready_heap (rq_entries q) in
        (\<lparr>rq_entries = es, rq_present = rq_present q - {re_task_id entry}\<rparr>, Some entry))"

definition ready_remove :: "ready_queue \<Rightarrow> string \<Rightarrow> ready_queue \<times> bool" where
  "ready_remove q t =
     (if t \<notin> rq_present q then (q, False)
      else
        case find_index (\<lambda>e. re_task_id e = t) (rq_entries q) of
          Some i \<Rightarrow>
            (\<lparr>rq_entries = fst (heap_remove ready_heap (rq_entries q) i),
              rq_present = rq_present q - {t}\<rparr>, True)
        | None \<Rightarrow> (q, False))"

definition ready_len :: "ready_queue \<Rightarrow> nat" where
  "ready_len q = length (rq_entries q)"

section \<open>The order of the entries\<close>

text \<open>A key is less when its entry is served earlier; keys are linearly ordered.\<close>

datatype ready_key = ReadyKey (key_priority: int) (key_enqueued: instant)

instantiation ready_key :: linorder
begin

definition less_ready_key :: "ready_key \<Rightarrow> ready_key \<Rightarrow> bool" where
  "less_ready_key a b \<longleftrightarrow>
     key_priority b < key_priority a \<or> key_priority a = key_priority b \<and> key_enqueued a < key_enqueued b"

definition less_eq_ready_key :: "ready_key \<Rightarrow> ready_key \<Rightarrow> bool" where
  "less_eq_ready_key a b \<longleftrightarrow>
     key_priority b < key_priority a \<or> key_priority a = key_priority b \<and> key_enqueued a \<le> key_enqueued b"

instance
  by standard (auto simp: less_ready_key_def less_eq_ready_key_def intro: ready_key.expand)

end

definition ready_view :: "ready_entry \<Rightarrow> string \<times> ready_key" where
  "ready_view e = (re_task_id e, ReadyKey (re_priority e) (re_enqueued_at e))"

lemma ready_view_index [simp]: "ready_view (e\<lparr>re_index := i\<rparr>) = ready_view e"
  by (simp add: ready_view_def)

lemma ready_less_view:
  "ready_less h i j = served_before (ready_view (h ! i)) (ready_view (h ! j))"
  by (auto simp: ready_less_def served_before_def ready_view_def less_ready_key_def)

lemma ready_swap_view:
  "i < length h \<Longrightarrow> j < length h \<Longrightarrow>
   map ready_view (ready_swap h i j) = list_swap (map ready_view h) i j"
  by (intro nth_equalityI) (auto simp: ready_swap_def list_swap_def nth_list_update Let_def)

interpretation rh: indexed_heap_impl ready_heap ready_view served_before re_index
proof unfold_locales
  fix h :: "ready_entry list" and i j assume "i < length h" "j < length h"
  then show "map ready_view (hSwap ready_heap h i j) = list_swap (map ready_view h) i j"
    by (simp add: ready_heap_def ready_swap_view)
  show "hLess ready_heap h i j = served_before (ready_view (h ! i)) (ready_view (h ! j))"
    by (simp add: ready_heap_def ready_less_view)
next
  fix h :: "ready_entry list" and i j
  assume "indexed re_index h" "i < length h" "j < length h"
  then show "indexed re_index (hSwap ready_heap h i j)"
    by (auto simp: ready_heap_def ready_swap_def indexed_def nth_list_update Let_def)
next
  fix h :: "ready_entry list" assume "indexed re_index h" "h \<noteq> []"
  then show "indexed re_index (fst (hPop ready_heap h))"
    by (auto simp: ready_heap_def ready_heap_pop_def indexed_def nth_butlast)
qed (auto simp: ready_heap_def ready_heap_push_def ready_heap_pop_def served_before_def map_butlast
       indexed_def nth_append less_Suc_eq)

section \<open>The queue's invariant\<close>

definition ready_ids :: "ready_entry list \<Rightarrow> string list" where
  "ready_ids h = map re_task_id h"

definition ready_queued :: "ready_queue \<Rightarrow> string set" where
  "ready_queued q = rq_present q"

definition ready_inv :: "ready_queue \<Rightarrow> bool" where
  "ready_inv q \<longleftrightarrow> rh.heap_ok (rq_entries q) \<and> distinct (ready_ids (rq_entries q)) \<and>
     rq_present q = set (ready_ids (rq_entries q)) \<and> indexed re_index (rq_entries q)"

text \<open>The abstract contents: the multiset of task ids with their keys.\<close>

definition ready_items :: "ready_queue \<Rightarrow> (string \<times> ready_key) multiset" where
  "ready_items q = mset (map ready_view (rq_entries q))"

lemma ready_ids_mset: "mset (ready_ids h) = image_mset fst (mset (map ready_view h))"
  by (simp add: ready_ids_def ready_view_def multiset.map_comp comp_def)

lemma ready_ids_push:
  assumes "rh.heap_ok h" and "re_task_id x = t"
  shows "mset (ready_ids (heap_push ready_heap h x)) = mset (t # ready_ids h)"
  using rh.heap_push_correct(2) [OF assms(1), of x] assms(2)
  by (simp only: ready_ids_mset) (simp add: ready_view_def ready_ids_mset [symmetric] del: mset_map)

lemma ready_push_inv: "ready_inv q \<Longrightarrow> ready_inv (fst (ready_push q t p at))"
proof -
  assume inv: "ready_inv q"
  define x where "x = \<lparr>re_task_id = t, re_priority = p, re_enqueued_at = at, re_index = 0\<rparr>"
  have ok: "rh.heap_ok (rq_entries q)" using inv by (simp add: ready_inv_def)
  have "re_task_id x = t" by (simp add: x_def)
  note ids = set_distinct_of_mset [OF ready_ids_push [OF ok this]]
  show "ready_inv (fst (ready_push q t p at))"
    using inv ids rh.heap_push_correct(1) [OF ok, of x] rh.heap_push_indexed [of "rq_entries q" x]
    by (auto simp: ready_push_def ready_inv_def Let_def x_def)
qed

lemma ready_pop_step:
  assumes inv: "ready_inv q" and ne: "rq_entries q \<noteq> []"
  obtains es e where "ready_pop q = (\<lparr>rq_entries = es, rq_present = rq_present q - {re_task_id e}\<rparr>, Some e)"
    and "rh.heap_ok es" and "indexed re_index es"
    and "mset (ready_ids (rq_entries q)) = mset (re_task_id e # ready_ids es)"
    and "ready_items q = add_mset (ready_view e) (mset (map ready_view es))"
    and "ready_view e = ready_view (rq_entries q ! 0)"
proof -
  obtain es e where pop: "heap_pop ready_heap (rq_entries q) = (es, e)" by fastforce
  have ok: "rh.heap_ok (rq_entries q)" "indexed re_index (rq_entries q)"
    using inv by (simp_all add: ready_inv_def)
  note c = rh.heap_pop_correct [OF ok(1) ne, unfolded pop fst_conv snd_conv]
  have v: "ready_view e = ready_view (rq_entries q ! 0)" using c(2) ne by simp
  have items: "ready_items q = add_mset (ready_view e) (mset (map ready_view es))"
    using c(2,3) by (simp add: ready_items_def)
  have ids: "mset (ready_ids (rq_entries q)) = mset (re_task_id e # ready_ids es)"
    using items by (simp add: ready_ids_mset ready_items_def ready_view_def)
  have "indexed re_index es" using rh.heap_pop_indexed [OF ne ok(2)] pop by simp
  moreover have "ready_pop q = (\<lparr>rq_entries = es, rq_present = rq_present q - {re_task_id e}\<rparr>, Some e)"
    using ne pop by (simp add: ready_pop_def)
  ultimately show ?thesis using that c(1) ids items v by blast
qed

lemma ready_remove_step:
  assumes inv: "ready_inv q" and t: "t \<in> rq_present q"
  obtains es e where "ready_remove q t = (\<lparr>rq_entries = es, rq_present = rq_present q - {t}\<rparr>, True)"
    and "rh.heap_ok es" and "indexed re_index es"
    and "mset (ready_ids (rq_entries q)) = mset (t # ready_ids es)"
    and "ready_items q = add_mset (ready_view e) (mset (map ready_view es))" and "re_task_id e = t"
proof -
  have "\<exists>e \<in> set (rq_entries q). re_task_id e = t"
    using inv t by (auto simp: ready_inv_def ready_ids_def)
  then obtain i where i: "find_index (\<lambda>e. re_task_id e = t) (rq_entries q) = Some i"
    using find_index_ex [of _ "rq_entries q" "\<lambda>e. re_task_id e = t"] by blast
  then have il: "i < length (rq_entries q)" and ti: "re_task_id (rq_entries q ! i) = t"
    by (auto dest: find_index_Some)
  let ?es = "fst (heap_remove ready_heap (rq_entries q) i)" and ?e = "rq_entries q ! i"
  have ok: "rh.heap_ok (rq_entries q)" "indexed re_index (rq_entries q)"
    using inv by (simp_all add: ready_inv_def)
  note c = rh.heap_remove_correct [OF ok(1) il]
  have items: "ready_items q = add_mset (ready_view ?e) (mset (map ready_view ?es))"
    using c(3) by (simp add: ready_items_def)
  then have ids: "mset (ready_ids (rq_entries q)) = mset (t # ready_ids ?es)"
    using ti by (simp add: ready_ids_mset ready_items_def ready_view_def)
  have "ready_remove q t = (\<lparr>rq_entries = ?es, rq_present = rq_present q - {t}\<rparr>, True)"
    using t i by (simp add: ready_remove_def)
  then show ?thesis
    using that c(1) ids items ti rh.heap_remove_indexed [OF il ok(2)] by blast
qed

lemma ready_inv_after:
  assumes "ready_inv q" and "rh.heap_ok es" and "indexed re_index es"
    and "mset (ready_ids (rq_entries q)) = mset (t # ready_ids es)"
  shows "ready_inv \<lparr>rq_entries = es, rq_present = rq_present q - {t}\<rparr>"
  using assms set_distinct_of_mset [OF assms(4)] by (auto simp: ready_inv_def)

lemma ready_pop_inv: "ready_inv q \<Longrightarrow> ready_inv (fst (ready_pop q))"
proof (cases "rq_entries q = []")
  case False
  assume inv: "ready_inv q"
  show ?thesis by (rule ready_pop_step [OF inv False]) (simp add: ready_inv_after [OF inv])
qed (simp add: ready_pop_def)

lemma ready_remove_inv: "ready_inv q \<Longrightarrow> ready_inv (fst (ready_remove q t))"
proof (cases "t \<in> rq_present q")
  case True
  assume inv: "ready_inv q"
  show ?thesis by (rule ready_remove_step [OF inv True]) (simp add: ready_inv_after [OF inv])
qed (simp add: ready_remove_def)

lemma ready_len_card: "ready_inv q \<Longrightarrow> ready_len q = card (ready_queued q)"
  by (simp add: ready_inv_def ready_len_def ready_queued_def distinct_card) (simp add: ready_ids_def)

lemma ready_queued_finite: "ready_inv q \<Longrightarrow> finite (ready_queued q)"
  by (simp add: ready_inv_def ready_queued_def)

lemma ready_empty_iff: "ready_inv q \<Longrightarrow> ready_queued q = {} \<longleftrightarrow> rq_entries q = []"
  by (simp add: ready_inv_def ready_queued_def) (simp add: ready_ids_def)

interpretation rq: ready_contract ready_inv ready_queued ready_new ready_remove ready_len
  ready_push ready_pop re_task_id
proof unfold_locales
  show "ready_inv ready_new" by (simp add: ready_inv_def ready_new_def ready_ids_def indexed_def)
next
  fix q t assume inv: "ready_inv q"
  show "ready_inv (fst (ready_remove q t))" using inv by (rule ready_remove_inv)
  show "ready_queued (fst (ready_remove q t)) = ready_queued q - {t}"
  proof (cases "t \<in> rq_present q")
    case True
    then show ?thesis by (rule ready_remove_step [OF inv]) (simp add: ready_queued_def)
  qed (simp add: ready_remove_def ready_queued_def)
  show "snd (ready_remove q t) = (t \<in> ready_queued q)"
  proof (cases "t \<in> rq_present q")
    case True
    then show ?thesis by (rule ready_remove_step [OF inv]) (simp add: ready_queued_def True)
  qed (simp add: ready_remove_def ready_queued_def)
next
  fix q e assume inv: "ready_inv q" and pop: "snd (ready_pop q) = Some e"
  then have ne: "rq_entries q \<noteq> []" by (auto simp: ready_pop_def)
  show "re_task_id e \<in> ready_queued q \<and> ready_queued (fst (ready_pop q)) = ready_queued q - {re_task_id e}"
  proof (rule ready_pop_step [OF inv ne])
    fix es x
    assume p: "ready_pop q = (\<lparr>rq_entries = es, rq_present = rq_present q - {re_task_id x}\<rparr>, Some x)"
      and m: "mset (ready_ids (rq_entries q)) = mset (re_task_id x # ready_ids es)"
    have "re_task_id x \<in> rq_present q"
      using set_distinct_of_mset(1) [OF m] inv by (simp add: ready_inv_def)
    with p pop show ?thesis by (simp add: ready_queued_def)
  qed
next
  fix q assume inv: "ready_inv q"
  show "snd (ready_pop q) = None \<longleftrightarrow> ready_queued q = {}"
    by (simp add: ready_empty_iff [OF inv] ready_pop_def split: prod.splits)
  show "ready_queued q = {} \<Longrightarrow> fst (ready_pop q) = q"
    by (simp add: ready_empty_iff [OF inv] ready_pop_def)
qed (simp_all only: ready_push_inv ready_pop_inv ready_len_card ready_queued_finite,
     auto simp: ready_push_def ready_queued_def ready_new_def Let_def)

section \<open>Properties\<close>

text \<open>Two entries of different priority, for the concrete instances.\<close>

definition demo_ready :: ready_queue where
  "demo_ready = fst (ready_push (fst (ready_push ready_new ''low'' 1 10)) ''high'' 5 20)"

lemma demo_ready_inv: "ready_inv demo_ready"
  by (simp add: demo_ready_def ready_push_inv rq.inv_new)

lemma demo_ready_entries:
  "rq_entries demo_ready = [\<lparr>re_task_id = ''high'', re_priority = 5, re_enqueued_at = 20, re_index = 0\<rparr>,
     \<lparr>re_task_id = ''low'', re_priority = 1, re_enqueued_at = 10, re_index = 1\<rparr>]"
  by (simp add: demo_ready_def ready_push_def ready_new_def heap_push_def ready_heap_def ready_heap_push_def
      heap_up.simps ready_less_def ready_swap_def Let_def)

text \<open>
  C23. \<open>Pop\<close> returns an entry that no queued entry precedes: none has a higher priority, and
  none of the same priority was enqueued earlier. It takes out that entry and nothing else.
\<close>

theorem ready_pop_serves_first:
  assumes inv: "ready_inv q" and pop: "ready_pop q = (q', Some e)" and x: "x \<in> set (rq_entries q)"
  shows "(re_priority x < re_priority e \<or> re_priority x = re_priority e \<and> re_enqueued_at e \<le> re_enqueued_at x) \<and>
    ready_items q = add_mset (ready_view e) (ready_items q')"
proof -
  have ne: "rq_entries q \<noteq> []" using x by auto
  obtain j where j: "j < length (rq_entries q)" "x = rq_entries q ! j" using x by (auto simp: in_set_conv_nth)
  have ok: "rh.heap_ok (rq_entries q)" using inv by (simp add: ready_inv_def)
  show ?thesis
  proof (rule ready_pop_step [OF inv ne])
    fix es e'
    assume p: "ready_pop q = (\<lparr>rq_entries = es, rq_present = rq_present q - {re_task_id e'}\<rparr>, Some e')"
      and items: "ready_items q = add_mset (ready_view e') (mset (map ready_view es))"
      and v: "ready_view e' = ready_view (rq_entries q ! 0)"
    have "\<not> served_before (ready_view x) (ready_view e)"
      using rh.heap_root_least [OF ok j(1)] j(2) v p pop by simp
    with items p pop show ?thesis
      by (auto simp: served_before_def ready_view_def less_ready_key_def ready_items_def)
  qed
qed

theorem ready_pop_serves_first_witness:
  "\<exists>q' e. ready_pop demo_ready = (q', Some e) \<and> re_priority e = 5 \<and>
     ready_items demo_ready = add_mset (ready_view e) (ready_items q')"
proof -
  have "snd (ready_pop demo_ready) \<noteq> None"
    by (simp add: ready_pop_def demo_ready_entries split: prod.splits)
  then obtain q' e where pop: "ready_pop demo_ready = (q', Some e)" by (metis not_None_eq prod.collapse)
  let ?x = "\<lparr>re_task_id = ''high'', re_priority = 5, re_enqueued_at = 20, re_index = 0\<rparr>"
  have x: "?x \<in> set (rq_entries demo_ready)" by (simp add: demo_ready_entries)
  have "re_priority e = 5"
    using pop by (auto simp: ready_pop_def demo_ready_entries heap_pop_def heap_down_def heap_down_loop.simps
        ready_heap_def ready_heap_pop_def ready_swap_def Let_def)
  with ready_pop_serves_first [OF demo_ready_inv pop x] pop show ?thesis by blast
qed

text \<open>
  C24. One entry per task: pushing a task that is queued changes nothing and reports
  \<open>false\<close>, whatever priority and time come with it, and the length counts the distinct
  queued tasks. (The duplicate trigger that \<open>verifycase\<close> tests.)
\<close>

theorem ready_push_dedup:
  assumes "ready_inv q"
  shows "ready_push (fst (ready_push q t p at)) t p' at' = (fst (ready_push q t p at), False) \<and>
    ready_len (fst (ready_push q t p at)) = (if t \<in> ready_queued q then ready_len q else Suc (ready_len q)) \<and>
    ready_len q = card (ready_queued q)"
  using rq.push_twice [OF assms] rq.push_len [OF assms] rq.len_card [OF assms] by blast

theorem ready_push_dedup_witness:
  "ready_push (fst (ready_push demo_ready ''high'' 9 1)) ''high'' 3 2 = (fst (ready_push demo_ready ''high'' 9 1), False)"
  using ready_push_dedup [OF demo_ready_inv] by blast

text \<open>
  C25. Every operation keeps the queue's invariant: the heap order of the entries, one entry
  per task, \<open>present\<close> equal to the ids of the entries, and \<open>index\<close> equal to the position.
\<close>

inductive ready_reachable :: "ready_queue \<Rightarrow> bool" where
  ready_reach_new: "ready_reachable ready_new"
| ready_reach_push: "ready_reachable q \<Longrightarrow> ready_reachable (fst (ready_push q t p at))"
| ready_reach_pop: "ready_reachable q \<Longrightarrow> ready_reachable (fst (ready_pop q))"
| ready_reach_remove: "ready_reachable q \<Longrightarrow> ready_reachable (fst (ready_remove q t))"

theorem ready_runs_keep_invariant: "ready_reachable q \<Longrightarrow> ready_inv q"
  by (induction rule: ready_reachable.induct)
    (simp_all add: rq.inv_new ready_push_inv ready_pop_inv ready_remove_inv)

theorem ready_runs_keep_invariant_witness: "ready_inv (fst (ready_remove demo_ready ''low''))"
  by (rule ready_runs_keep_invariant)
    (simp add: demo_ready_def ready_reach_new ready_reach_push ready_reach_remove)

end
