(* ===== verification/DelayedQueue.thy ===== *)
theory DelayedQueue
  imports GoHeap QueueContract
begin

text \<open>
  \<open>internal/queue/delayed.go\<close>: tasks scheduled for a future instant, a binary heap ordered
  by next run time and, within one instant, by priority. The entries are pointers in the
  code; the queue owns them, so a list of records is the same state.
\<close>

section \<open>The code\<close>

record delayed_entry =
  de_task_id :: string
  de_next_run_at :: instant
  de_priority :: int
  de_enqueued_at :: instant
  de_index :: int

record delayed_queue =
  dq_entries :: "delayed_entry list"
  dq_present :: "string set"

definition delayed_new :: delayed_queue where
  "delayed_new = \<lparr>dq_entries = [], dq_present = {}\<rparr>"

definition delayed_less :: "delayed_entry list \<Rightarrow> nat \<Rightarrow> nat \<Rightarrow> bool" where
  "delayed_less h i j =
     (if de_next_run_at (h ! i) \<noteq> de_next_run_at (h ! j)
      then de_next_run_at (h ! i) < de_next_run_at (h ! j)
      else de_priority (h ! j) < de_priority (h ! i))"

definition delayed_swap :: "delayed_entry list \<Rightarrow> nat \<Rightarrow> nat \<Rightarrow> delayed_entry list" where
  "delayed_swap h i j =
     (let h1 = h[i := h ! j, j := h ! i];
          h2 = h1[i := (h1 ! i)\<lparr>de_index := int i\<rparr>]
      in h2[j := (h2 ! j)\<lparr>de_index := int j\<rparr>])"

definition delayed_heap_push :: "delayed_entry list \<Rightarrow> delayed_entry \<Rightarrow> delayed_entry list" where
  "delayed_heap_push h x = h @ [x\<lparr>de_index := int (length h)\<rparr>]"

definition delayed_heap_pop :: "delayed_entry list \<Rightarrow> delayed_entry list \<times> delayed_entry" where
  "delayed_heap_pop h = (butlast h, (last h)\<lparr>de_index := -1\<rparr>)"

definition delayed_heap :: "delayed_entry heap_interface" where
  "delayed_heap =
     \<lparr>hLess = delayed_less, hSwap = delayed_swap, hPush = delayed_heap_push, hPop = delayed_heap_pop\<rparr>"

text \<open>
  \<open>Push\<close> looks for an entry of the same task only when the task is in \<open>present\<close>; when
  the loop finds none, the code falls through to the insertion.
\<close>

definition delayed_push :: "delayed_queue \<Rightarrow> delayed_entry \<Rightarrow> delayed_queue \<times> bool" where
  "delayed_push q entry =
     (case (if de_task_id entry \<in> dq_present q
            then find_index (\<lambda>e. de_task_id e = de_task_id entry) (dq_entries q) else None) of
        Some i \<Rightarrow>
          (let e = dq_entries q ! i in
           if de_next_run_at entry < de_next_run_at e
           then (q\<lparr>dq_entries := heap_fix delayed_heap
                   ((dq_entries q)[i := e\<lparr>de_next_run_at := de_next_run_at entry\<rparr>]) i\<rparr>, False)
           else (q, False))
      | None \<Rightarrow>
          (\<lparr>dq_entries = heap_push delayed_heap (dq_entries q) entry,
            dq_present = insert (de_task_id entry) (dq_present q)\<rparr>, True))"

definition delayed_remove :: "delayed_queue \<Rightarrow> string \<Rightarrow> delayed_queue \<times> bool" where
  "delayed_remove q t =
     (if t \<notin> dq_present q then (q, False)
      else
        case find_index (\<lambda>e. de_task_id e = t) (dq_entries q) of
          Some i \<Rightarrow>
            (\<lparr>dq_entries = fst (heap_remove delayed_heap (dq_entries q) i),
              dq_present = dq_present q - {t}\<rparr>, True)
        | None \<Rightarrow> (q, False))"

definition delayed_len :: "delayed_queue \<Rightarrow> nat" where
  "delayed_len q = length (dq_entries q)"

section \<open>The order of the entries\<close>

datatype delayed_key = DelayedKey (key_run_at: instant) (key_prio: int)

instantiation delayed_key :: linorder
begin

definition less_delayed_key :: "delayed_key \<Rightarrow> delayed_key \<Rightarrow> bool" where
  "less_delayed_key a b \<longleftrightarrow>
     key_run_at a < key_run_at b \<or> key_run_at a = key_run_at b \<and> key_prio b < key_prio a"

definition less_eq_delayed_key :: "delayed_key \<Rightarrow> delayed_key \<Rightarrow> bool" where
  "less_eq_delayed_key a b \<longleftrightarrow>
     key_run_at a < key_run_at b \<or> key_run_at a = key_run_at b \<and> key_prio b \<le> key_prio a"

instance
  by standard (auto simp: less_delayed_key_def less_eq_delayed_key_def intro: delayed_key.expand)

end

definition delayed_view :: "delayed_entry \<Rightarrow> string \<times> delayed_key" where
  "delayed_view e = (de_task_id e, DelayedKey (de_next_run_at e) (de_priority e))"

lemma delayed_view_index [simp]: "delayed_view (e\<lparr>de_index := i\<rparr>) = delayed_view e"
  by (simp add: delayed_view_def)

lemma delayed_less_view:
  "delayed_less h i j = served_before (delayed_view (h ! i)) (delayed_view (h ! j))"
  by (auto simp: delayed_less_def served_before_def delayed_view_def less_delayed_key_def)

lemma delayed_swap_view:
  "i < length h \<Longrightarrow> j < length h \<Longrightarrow>
   map delayed_view (delayed_swap h i j) = list_swap (map delayed_view h) i j"
  by (intro nth_equalityI) (auto simp: delayed_swap_def list_swap_def nth_list_update Let_def)

interpretation dh: indexed_heap_impl delayed_heap delayed_view served_before de_index
proof unfold_locales
  fix h :: "delayed_entry list" and i j assume "i < length h" "j < length h"
  then show "map delayed_view (hSwap delayed_heap h i j) = list_swap (map delayed_view h) i j"
    by (simp add: delayed_heap_def delayed_swap_view)
  show "hLess delayed_heap h i j = served_before (delayed_view (h ! i)) (delayed_view (h ! j))"
    by (simp add: delayed_heap_def delayed_less_view)
next
  fix h :: "delayed_entry list" and i j
  assume "indexed de_index h" "i < length h" "j < length h"
  then show "indexed de_index (hSwap delayed_heap h i j)"
    by (auto simp: delayed_heap_def delayed_swap_def indexed_def nth_list_update Let_def)
next
  fix h :: "delayed_entry list" assume "indexed de_index h" "h \<noteq> []"
  then show "indexed de_index (fst (hPop delayed_heap h))"
    by (auto simp: delayed_heap_def delayed_heap_pop_def indexed_def nth_butlast)
qed (auto simp: delayed_heap_def delayed_heap_push_def delayed_heap_pop_def served_before_def map_butlast
       indexed_def nth_append less_Suc_eq)

section \<open>PopDue\<close>

text \<open>The loop of \<open>PopDue\<close>: it ends because every round takes one entry off the heap.\<close>

function delayed_pop_loop ::
  "delayed_entry list \<Rightarrow> string set \<Rightarrow> instant \<Rightarrow> delayed_entry list \<times> string set \<times> delayed_entry list" where
  "delayed_pop_loop h present now =
     (if h = [] then (h, present, [])
      else if now < de_next_run_at (h ! 0) then (h, present, [])
      else
        let (h1, entry) = heap_pop delayed_heap h;
            (h2, present2, out) = delayed_pop_loop h1 (present - {de_task_id entry}) now
        in (h2, present2, entry # out))"
  by pat_completeness auto
termination
proof (relation "measure (\<lambda>(h, present, now). length h)")
  fix h :: "delayed_entry list" and present :: "string set" and now :: instant and x h1 entry
  assume h: "h \<noteq> []" and "x = heap_pop delayed_heap h" and "(h1, entry) = x"
  then have "length h1 = length h - 1" using dh.heap_pop_length [OF h] by (metis fst_conv)
  with h show "((h1, present - {de_task_id entry}, now), h, present, now) \<in> measure (\<lambda>(h, present, now). length h)"
    by simp
qed simp

declare delayed_pop_loop.simps [simp del]

definition delayed_pop_due :: "delayed_queue \<Rightarrow> instant \<Rightarrow> delayed_queue \<times> delayed_entry list" where
  "delayed_pop_due q now =
     (let (es, present, out) = delayed_pop_loop (dq_entries q) (dq_present q) now
      in (\<lparr>dq_entries = es, dq_present = present\<rparr>, out))"

section \<open>The queue's invariant\<close>

definition delayed_alist :: "delayed_entry list \<Rightarrow> (string \<times> instant) list" where
  "delayed_alist h = map (\<lambda>e. (de_task_id e, de_next_run_at e)) h"

definition delayed_queued :: "delayed_queue \<Rightarrow> string set" where
  "delayed_queued q = dq_present q"

text \<open>The abstract contents: for each task of the queue, when it is due.\<close>

definition delayed_due :: "delayed_queue \<Rightarrow> string \<rightharpoonup> instant" where
  "delayed_due q = map_of (delayed_alist (dq_entries q))"

definition delayed_heap_inv :: "delayed_entry list \<Rightarrow> bool" where
  "delayed_heap_inv h \<longleftrightarrow>
     dh.heap_ok h \<and> distinct (map fst (delayed_alist h)) \<and> indexed de_index h"

definition delayed_inv :: "delayed_queue \<Rightarrow> bool" where
  "delayed_inv q \<longleftrightarrow>
     delayed_heap_inv (dq_entries q) \<and> dq_present q = fst ` set (delayed_alist (dq_entries q))"

lemma delayed_alist_mset:
  "mset (delayed_alist h) = image_mset (apsnd key_run_at) (mset (map delayed_view h))"
  by (simp add: delayed_alist_def delayed_view_def multiset.map_comp comp_def)

lemma map_of_mset:
  assumes "mset xs = mset ys" and "distinct (map fst xs)"
  shows "map_of xs = map_of ys" and "distinct (map fst ys)"
proof -
  have "mset (map fst xs) = mset (map fst ys)" using assms(1) by simp
  then show d: "distinct (map fst ys)" using assms(2) by (metis mset_eq_imp_distinct_iff)
  have "set xs = set ys" using assms(1) by (rule set_distinct_of_mset)
  then show "map_of xs = map_of ys" using assms(2) d by (simp add: map_of_inject_set)
qed

text \<open>One entry more, one entry less: how a heap change shows in the association list.\<close>

lemma delayed_added:
  assumes "delayed_heap_inv h" and "dh.heap_ok h'" and "indexed de_index h'"
    and "mset (map delayed_view h') = add_mset (delayed_view e) (mset (map delayed_view h))"
    and "de_task_id e \<notin> fst ` set (delayed_alist h)"
  shows "delayed_heap_inv h'"
    and "map_of (delayed_alist h') = (map_of (delayed_alist h))(de_task_id e \<mapsto> de_next_run_at e)"
    and "fst ` set (delayed_alist h') = insert (de_task_id e) (fst ` set (delayed_alist h))"
proof -
  have m: "mset ((de_task_id e, de_next_run_at e) # delayed_alist h) = mset (delayed_alist h')"
    using assms(4) by (simp add: delayed_alist_mset delayed_view_def)
  have d: "distinct (map fst ((de_task_id e, de_next_run_at e) # delayed_alist h))"
    using assms(1,5) by (simp add: delayed_heap_inv_def)
  show "delayed_heap_inv h'" using map_of_mset(2) [OF m d] assms(2,3) by (simp add: delayed_heap_inv_def)
  show "map_of (delayed_alist h') = (map_of (delayed_alist h))(de_task_id e \<mapsto> de_next_run_at e)"
    using map_of_mset(1) [OF m d] by simp
  show "fst ` set (delayed_alist h') = insert (de_task_id e) (fst ` set (delayed_alist h))"
    using set_distinct_of_mset(1) [OF m] by (metis fst_conv image_insert list.simps(15))
qed

lemma delayed_taken:
  assumes "delayed_heap_inv h" and "dh.heap_ok h'" and "indexed de_index h'"
    and "mset (map delayed_view h) = add_mset (delayed_view e) (mset (map delayed_view h'))"
  shows "delayed_heap_inv h'"
    and "map_of (delayed_alist h') = (map_of (delayed_alist h))(de_task_id e := None)"
    and "fst ` set (delayed_alist h') = fst ` set (delayed_alist h) - {de_task_id e}"
    and "set (delayed_alist h) = insert (de_task_id e, de_next_run_at e) (set (delayed_alist h'))"
    and "de_task_id e \<notin> fst ` set (delayed_alist h')"
proof -
  have m: "mset (delayed_alist h) = mset ((de_task_id e, de_next_run_at e) # delayed_alist h')"
    using assms(4) by (simp add: delayed_alist_mset delayed_view_def)
  have d: "distinct (map fst (delayed_alist h))" using assms(1) by (simp add: delayed_heap_inv_def)
  note mo = map_of_mset [OF m d]
  show "delayed_heap_inv h'" using mo(2) assms(2,3) by (simp add: delayed_heap_inv_def)
  show s: "set (delayed_alist h) = insert (de_task_id e, de_next_run_at e) (set (delayed_alist h'))"
    using set_distinct_of_mset(1) [OF m] by simp
  show n: "de_task_id e \<notin> fst ` set (delayed_alist h')" using mo(2) by simp
  show "fst ` set (delayed_alist h') = fst ` set (delayed_alist h) - {de_task_id e}"
    using s n by auto
  have "map_of (delayed_alist h') (de_task_id e) = None" using n by (simp add: map_of_eq_None_iff)
  then show "map_of (delayed_alist h') = (map_of (delayed_alist h))(de_task_id e := None)"
    using mo(1) by auto
qed

lemma delayed_due_dom: "delayed_inv q \<Longrightarrow> delayed_queued q = dom (delayed_due q)"
  by (simp add: delayed_inv_def delayed_queued_def delayed_due_def dom_map_of_conv_image_fst)

lemma delayed_find:
  assumes "delayed_inv q" and "t \<in> dq_present q"
  obtains i where "find_index (\<lambda>e. de_task_id e = t) (dq_entries q) = Some i"
    and "i < length (dq_entries q)" and "de_task_id (dq_entries q ! i) = t"
    and "delayed_due q t = Some (de_next_run_at (dq_entries q ! i))"
proof -
  have "\<exists>e \<in> set (dq_entries q). de_task_id e = t"
    using assms by (auto simp: delayed_inv_def delayed_alist_def)
  then obtain i where i: "find_index (\<lambda>e. de_task_id e = t) (dq_entries q) = Some i"
    using find_index_ex [of _ "dq_entries q" "\<lambda>e. de_task_id e = t"] by blast
  then have il: "i < length (dq_entries q)" "de_task_id (dq_entries q ! i) = t"
    by (auto dest: find_index_Some)
  then have "(t, de_next_run_at (dq_entries q ! i)) \<in> set (delayed_alist (dq_entries q))"
    by (force simp: delayed_alist_def)
  then have "delayed_due q t = Some (de_next_run_at (dq_entries q ! i))"
    using assms(1) by (simp add: delayed_due_def delayed_inv_def delayed_heap_inv_def)
  with i il that show ?thesis by blast
qed

section \<open>Push\<close>

lemma delayed_push_new:
  assumes inv: "delayed_inv q" and t: "de_task_id e \<notin> dq_present q"
  shows "delayed_inv (fst (delayed_push q e)) \<and> snd (delayed_push q e) \<and>
    delayed_due (fst (delayed_push q e)) = (delayed_due q)(de_task_id e \<mapsto> de_next_run_at e)"
proof -
  let ?h = "heap_push delayed_heap (dq_entries q) e"
  have hi: "delayed_heap_inv (dq_entries q)" using inv by (simp add: delayed_inv_def)
  then have ok: "dh.heap_ok (dq_entries q)" "indexed de_index (dq_entries q)"
    by (simp_all add: delayed_heap_inv_def)
  have "de_task_id e \<notin> fst ` set (delayed_alist (dq_entries q))"
    using inv t by (simp add: delayed_inv_def)
  note a = delayed_added [OF hi dh.heap_push_correct(1) [OF ok(1)] dh.heap_push_indexed [OF ok(2)]
    dh.heap_push_correct(2) [OF ok(1)] this]
  show ?thesis
    using t a inv by (simp add: delayed_push_def delayed_inv_def delayed_due_def)
qed

lemma delayed_fix_earlier:
  fixes u :: instant
  assumes hi: "delayed_heap_inv h" and i: "i < length h" and t: "de_task_id (h ! i) = t"
  defines "h' \<equiv> heap_fix delayed_heap (h[i := (h ! i)\<lparr>de_next_run_at := u\<rparr>]) i"
  shows "delayed_heap_inv h'" and "map_of (delayed_alist h') = (map_of (delayed_alist h))(t \<mapsto> u)"
    and "fst ` set (delayed_alist h') = fst ` set (delayed_alist h)"
proof -
  let ?g = "h[i := (h ! i)\<lparr>de_next_run_at := u\<rparr>]"
  have ok: "dh.heap_ok h" "indexed de_index h" "distinct (map fst (delayed_alist h))"
    using hi by (simp_all add: delayed_heap_inv_def)
  have al: "delayed_alist ?g = (delayed_alist h)[i := (t, u)]"
    using t by (simp add: delayed_alist_def map_update)
  have at: "fst (delayed_alist h ! i) = t" "i < length (delayed_alist h)"
    using i t by (simp_all add: delayed_alist_def)
  have fst_al: "map fst (delayed_alist ?g) = map fst (delayed_alist h)"
    using at by (simp add: al map_fst_list_update)
  have hole_h: "heap_hole served_before (map delayed_view h) (length ?g) i"
    using ok(1) by (simp add: dh.heap_ok_def dh.heap_order_hole_lt)
  have hole: "heap_hole served_before (map delayed_view ?g) (length ?g) i"
    by (rule dh.heap_hole_cong [OF _ hole_h]) simp
  have gi: "i < length ?g" using i by simp
  have ix: "indexed de_index ?g" using ok(2) i by (auto simp: indexed_def nth_list_update)
  note f = dh.heap_fix_correct [OF hole gi]
  have m: "mset (delayed_alist ?g) = mset (delayed_alist h')"
    using f(2) unfolding h'_def delayed_alist_mset by simp
  have dg: "distinct (map fst (delayed_alist ?g))" using ok(3) fst_al by simp
  show "delayed_heap_inv h'"
    using f(1) dh.heap_fix_indexed [OF gi ix] map_of_mset(2) [OF m dg]
    by (simp add: delayed_heap_inv_def h'_def)
  show "map_of (delayed_alist h') = (map_of (delayed_alist h))(t \<mapsto> u)"
    using map_of_mset(1) [OF m dg] al map_of_list_update [OF ok(3) at(2,1), of u] by simp
  show "fst ` set (delayed_alist h') = fst ` set (delayed_alist h)"
    using set_distinct_of_mset(1) [OF m] fst_al by (metis set_map)
qed

lemma delayed_push_present:
  assumes inv: "delayed_inv q" and t: "de_task_id e \<in> dq_present q"
  obtains u where "delayed_due q (de_task_id e) = Some u" and "delayed_inv (fst (delayed_push q e))"
    and "\<not> snd (delayed_push q e)"
    and "delayed_due (fst (delayed_push q e)) = (delayed_due q)(de_task_id e \<mapsto> min u (de_next_run_at e))"
proof -
  obtain i where i: "find_index (\<lambda>x. de_task_id x = de_task_id e) (dq_entries q) = Some i"
    "i < length (dq_entries q)" "de_task_id (dq_entries q ! i) = de_task_id e"
    and u: "delayed_due q (de_task_id e) = Some (de_next_run_at (dq_entries q ! i))"
    using delayed_find [OF inv t] by blast
  have hi: "delayed_heap_inv (dq_entries q)" using inv by (simp add: delayed_inv_def)
  note f = delayed_fix_earlier [OF hi i(2,3), of "de_next_run_at e"]
  show ?thesis
  proof (rule that [OF u])
    show "delayed_inv (fst (delayed_push q e))"
      using inv t i f by (simp add: delayed_push_def delayed_inv_def Let_def)
    show "\<not> snd (delayed_push q e)" using t i by (simp add: delayed_push_def Let_def)
    show "delayed_due (fst (delayed_push q e)) =
        (delayed_due q)(de_task_id e \<mapsto> min (de_next_run_at (dq_entries q ! i)) (de_next_run_at e))"
      using t i f(2) u by (auto simp: delayed_push_def delayed_due_def Let_def min_def)
  qed
qed

section \<open>Remove and PopDue\<close>

lemma delayed_remove_step:
  assumes inv: "delayed_inv q" and t: "t \<in> dq_present q"
  shows "delayed_inv (fst (delayed_remove q t)) \<and> snd (delayed_remove q t) \<and>
    delayed_due (fst (delayed_remove q t)) = (delayed_due q)(t := None)"
proof -
  obtain i where i: "find_index (\<lambda>x. de_task_id x = t) (dq_entries q) = Some i"
    "i < length (dq_entries q)" "de_task_id (dq_entries q ! i) = t"
    using delayed_find [OF inv t] by blast
  have hi: "delayed_heap_inv (dq_entries q)" using inv by (simp add: delayed_inv_def)
  then have ok: "dh.heap_ok (dq_entries q)" "indexed de_index (dq_entries q)"
    by (simp_all add: delayed_heap_inv_def)
  note c = dh.heap_remove_correct [OF ok(1) i(2)]
  note k = delayed_taken [OF hi c(1) dh.heap_remove_indexed [OF i(2) ok(2)] c(3)]
  show ?thesis using t i k(1-3) inv by (simp add: delayed_remove_def delayed_inv_def delayed_due_def)
qed

lemma heap_key_least:
  assumes "dh.heap_ok h" and "e \<in> set h"
  shows "de_next_run_at (h ! 0) \<le> de_next_run_at e"
proof -
  obtain j where j: "j < length h" "e = h ! j" using assms(2) by (auto simp: in_set_conv_nth)
  have "\<not> served_before (delayed_view (h ! j)) (delayed_view (h ! 0))"
    using assms(1) j(1) by (rule dh.heap_root_least)
  then show ?thesis using j(2) by (auto simp: served_before_def delayed_view_def less_delayed_key_def)
qed

text \<open>What the loop of \<open>PopDue\<close> takes out and what it leaves.\<close>

definition popped :: "delayed_entry list \<Rightarrow> instant \<Rightarrow> delayed_entry list \<Rightarrow> delayed_entry list \<Rightarrow> bool" where
  "popped h now h' out \<longleftrightarrow>
     delayed_heap_inv h' \<and>
     set (delayed_alist h) = set (delayed_alist out) \<union> set (delayed_alist h') \<and>
     fst ` set (delayed_alist out) \<inter> fst ` set (delayed_alist h') = {} \<and>
     distinct (map fst (delayed_alist out)) \<and>
     (\<forall>e \<in> set out. de_next_run_at e \<le> now) \<and> (\<forall>e \<in> set h'. now < de_next_run_at e) \<and>
     sorted (map de_next_run_at out)"

lemma popped_Cons:
  assumes p: "popped h1 now h2 out" and hi: "delayed_heap_inv h" and h1: "delayed_heap_inv h1"
    and al: "set (delayed_alist h) = insert (de_task_id e, de_next_run_at e) (set (delayed_alist h1))"
    and e: "de_task_id e \<notin> fst ` set (delayed_alist h1)"
    and due: "de_next_run_at e \<le> now" and least: "\<forall>x \<in> set h. de_next_run_at e \<le> de_next_run_at x"
  shows "popped h now h2 (e # out)"
proof -
  have sub: "set (delayed_alist out) \<subseteq> set (delayed_alist h1)" using p by (auto simp: popped_def)
  have "de_next_run_at e \<le> de_next_run_at x" if "x \<in> set out" for x
  proof -
    have "(de_task_id x, de_next_run_at x) \<in> set (delayed_alist out)"
      using that by (auto simp: delayed_alist_def)
    then have "(de_task_id x, de_next_run_at x) \<in> set (delayed_alist h)" using sub al by blast
    then obtain y where "y \<in> set h" "de_next_run_at y = de_next_run_at x" by (auto simp: delayed_alist_def)
    with least show ?thesis by metis
  qed
  moreover have "de_task_id e \<notin> fst ` set (delayed_alist out)" "de_task_id e \<notin> fst ` set (delayed_alist h2)"
    using p e by (auto simp: popped_def)
  moreover have "delayed_alist (e # out) = (de_task_id e, de_next_run_at e) # delayed_alist out"
    by (simp add: delayed_alist_def)
  ultimately show ?thesis using p al due by (auto simp: popped_def)
qed

lemma delayed_pop_loop_popped:
  "delayed_heap_inv h \<Longrightarrow> delayed_pop_loop h pres now = (h', pres', out) \<Longrightarrow>
   popped h now h' out \<and> pres' = pres - fst ` set (delayed_alist out)"
proof (induction h pres now arbitrary: h' pres' out rule: delayed_pop_loop.induct)
  case (1 h pres now)
  have ok: "dh.heap_ok h" "indexed de_index h" using "1.prems"(1) by (simp_all add: delayed_heap_inv_def)
  consider (empty) "h = []" | (later) "h \<noteq> []" "now < de_next_run_at (h ! 0)"
    | (due) "h \<noteq> []" "\<not> now < de_next_run_at (h ! 0)" by blast
  then show ?case
  proof cases
    case empty
    with "1.prems" show ?thesis
      by (auto simp: delayed_pop_loop.simps [of "[]"] popped_def delayed_alist_def)
  next
    case later
    have "\<forall>e \<in> set h. now < de_next_run_at e" using heap_key_least [OF ok(1)] later by force
    with "1.prems" later show ?thesis
      by (auto simp: delayed_pop_loop.simps [of h] popped_def delayed_alist_def)
  next
    case due
    obtain h1 e where pop: "heap_pop delayed_heap h = (h1, e)" by fastforce
    obtain h2 pres2 out2 where rest: "delayed_pop_loop h1 (pres - {de_task_id e}) now = (h2, pres2, out2)"
      by (metis prod_cases3)
    note c = dh.heap_pop_correct [OF ok(1) due(1), unfolded pop fst_conv snd_conv]
    have view: "delayed_view e = delayed_view (h ! 0)" using c(2) due(1) by simp
    have "mset (map delayed_view h) = add_mset (delayed_view e) (mset (map delayed_view h1))"
      using c(2,3) by simp
    moreover have "indexed de_index h1" using dh.heap_pop_indexed [OF due(1) ok(2)] pop by simp
    ultimately have k: "delayed_heap_inv h1"
      "set (delayed_alist h) = insert (de_task_id e, de_next_run_at e) (set (delayed_alist h1))"
      "de_task_id e \<notin> fst ` set (delayed_alist h1)"
      using delayed_taken [OF "1.prems"(1) c(1)] by blast+
    have ih: "popped h1 now h2 out2 \<and> pres2 = (pres - {de_task_id e}) - fst ` set (delayed_alist out2)"
      using "1.IH" [OF due pop [symmetric] refl k(1) rest] .
    have "popped h now h2 (e # out2)"
      using popped_Cons [OF conjunct1 [OF ih] "1.prems"(1) k] due view heap_key_least [OF ok(1)]
      by (auto simp: delayed_view_def)
    moreover have "delayed_pop_loop h pres now = (h2, pres2, e # out2)"
      using due pop rest by (simp add: delayed_pop_loop.simps [of h])
    ultimately show ?thesis using "1.prems"(2) ih by (auto simp: delayed_alist_def)
  qed
qed

lemma delayed_pop_due_popped:
  assumes "delayed_inv q"
  shows "popped (dq_entries q) now (dq_entries (fst (delayed_pop_due q now))) (snd (delayed_pop_due q now))"
    and "delayed_inv (fst (delayed_pop_due q now))"
proof -
  obtain es pres out where lp: "delayed_pop_loop (dq_entries q) (dq_present q) now = (es, pres, out)"
    by (metis prod_cases3)
  have p: "popped (dq_entries q) now es out" "pres = dq_present q - fst ` set (delayed_alist out)"
    using delayed_pop_loop_popped [OF _ lp] assms by (simp_all add: delayed_inv_def)
  have eq: "delayed_pop_due q now = (\<lparr>dq_entries = es, dq_present = pres\<rparr>, out)"
    by (simp add: delayed_pop_due_def lp)
  show "popped (dq_entries q) now (dq_entries (fst (delayed_pop_due q now))) (snd (delayed_pop_due q now))"
    using p(1) by (simp add: eq)
  have "fst ` set (delayed_alist es) = dq_present q - fst ` set (delayed_alist out)"
    using p(1) assms by (auto simp: delayed_inv_def popped_def)
  then show "delayed_inv (fst (delayed_pop_due q now))"
    using p by (simp add: eq delayed_inv_def popped_def)
qed

lemma popped_due_iff:
  assumes hi: "delayed_heap_inv h" and p: "popped h now h' out"
  shows "map_of (delayed_alist h') = (\<lambda>t. case map_of (delayed_alist h) t of None \<Rightarrow> None
      | Some u \<Rightarrow> if u \<le> now then None else Some u)"
    and "de_task_id ` set out = {t. \<exists>u. map_of (delayed_alist h) t = Some u \<and> u \<le> now}"
proof -
  have d: "distinct (map fst (delayed_alist h))" "distinct (map fst (delayed_alist h'))"
    using hi p by (simp_all add: delayed_heap_inv_def popped_def)
  have mem: "map_of (delayed_alist h) t = Some u \<longleftrightarrow> (t, u) \<in> set (delayed_alist h)"
    "map_of (delayed_alist h') t = Some u \<longleftrightarrow> (t, u) \<in> set (delayed_alist h')" for t u
    using d by simp_all
  have out: "(t, u) \<in> set (delayed_alist out) \<longleftrightarrow> (t, u) \<in> set (delayed_alist h) \<and> u \<le> now"
    and left: "(t, u) \<in> set (delayed_alist h') \<longleftrightarrow> (t, u) \<in> set (delayed_alist h) \<and> now < u" for t u
    using p by (force simp: popped_def delayed_alist_def)+
  have "map_of (delayed_alist h') t = Some u \<longleftrightarrow> map_of (delayed_alist h) t = Some u \<and> now < u" for t u
    by (simp only: mem left)
  then show "map_of (delayed_alist h') = (\<lambda>t. case map_of (delayed_alist h) t of None \<Rightarrow> None
      | Some u \<Rightarrow> if u \<le> now then None else Some u)"
    by (intro ext option_eqI) (auto split: option.splits)
  have "de_task_id ` set out = {t. \<exists>u. (t, u) \<in> set (delayed_alist out)}"
    by (auto simp: delayed_alist_def)
  then show "de_task_id ` set out = {t. \<exists>u. map_of (delayed_alist h) t = Some u \<and> u \<le> now}"
    by (simp add: out mem)
qed

lemma delayed_heap_inv_entries: "delayed_inv q \<Longrightarrow> delayed_heap_inv (dq_entries q)"
  by (simp add: delayed_inv_def)

interpretation dq: delayed_contract delayed_inv delayed_queued delayed_new delayed_remove delayed_len
  delayed_due delayed_push delayed_pop_due de_task_id de_next_run_at
proof unfold_locales
  show "delayed_inv delayed_new" "delayed_queued delayed_new = {}"
    by (simp_all add: delayed_inv_def delayed_new_def delayed_heap_inv_def delayed_alist_def indexed_def delayed_queued_def)
next
  fix q t assume inv: "delayed_inv q"
  have absent: "t \<notin> dq_present q \<Longrightarrow> delayed_remove q t = (q, False) \<and> delayed_due q t = None"
    using delayed_due_dom [OF inv] by (auto simp: delayed_remove_def delayed_queued_def)
  have r: "delayed_inv (fst (delayed_remove q t)) \<and>
      delayed_due (fst (delayed_remove q t)) = (delayed_due q)(t := None) \<and>
      snd (delayed_remove q t) = (t \<in> delayed_queued q)"
    using delayed_remove_step [OF inv, of t] absent inv
    by (cases "t \<in> dq_present q") (auto simp: delayed_queued_def fun_upd_idem)
  then show "delayed_inv (fst (delayed_remove q t))" and "snd (delayed_remove q t) = (t \<in> delayed_queued q)"
    and "delayed_due (fst (delayed_remove q t)) = (delayed_due q)(t := None)" by simp_all
  show "delayed_queued (fst (delayed_remove q t)) = delayed_queued q - {t}"
    using r by (simp add: delayed_due_dom inv)
next
  fix q e assume inv: "delayed_inv q"
  have "delayed_inv (fst (delayed_push q e)) \<and> snd (delayed_push q e) = (de_task_id e \<notin> delayed_queued q) \<and>
    delayed_due (fst (delayed_push q e)) = (delayed_due q)(de_task_id e \<mapsto>
      (case delayed_due q (de_task_id e) of None \<Rightarrow> de_next_run_at e | Some t \<Rightarrow> min t (de_next_run_at e)))"
  proof (cases "de_task_id e \<in> dq_present q")
    case True
    then show ?thesis by (rule delayed_push_present [OF inv]) (simp add: delayed_queued_def True)
  next
    case False
    then have "delayed_due q (de_task_id e) = None"
      using delayed_due_dom [OF inv] by (auto simp: delayed_queued_def)
    with delayed_push_new [OF inv False] False show ?thesis by (simp add: delayed_queued_def)
  qed
  then show "delayed_inv (fst (delayed_push q e))" and "snd (delayed_push q e) = (de_task_id e \<notin> delayed_queued q)"
    and "delayed_due (fst (delayed_push q e)) = (delayed_due q)(de_task_id e \<mapsto>
      (case delayed_due q (de_task_id e) of None \<Rightarrow> de_next_run_at e | Some t \<Rightarrow> min t (de_next_run_at e)))"
    by simp_all
next
  fix q now assume inv: "delayed_inv q"
  note p = delayed_pop_due_popped(1) [OF inv, of now]
  note iff = popped_due_iff [OF delayed_heap_inv_entries [OF inv] p]
  show "delayed_due (fst (delayed_pop_due q now)) =
      (\<lambda>t. case delayed_due q t of None \<Rightarrow> None | Some u \<Rightarrow> if u \<le> now then None else Some u)"
    using iff(1) by (simp add: delayed_due_def)
  show "de_task_id ` set (snd (delayed_pop_due q now)) = {t. \<exists>u. delayed_due q t = Some u \<and> u \<le> now}"
    using iff(2) by (simp add: delayed_due_def)
  show "distinct (map de_task_id (snd (delayed_pop_due q now)))"
    and "sorted (map de_next_run_at (snd (delayed_pop_due q now)))"
    using p by (simp_all add: popped_def delayed_alist_def comp_def)
  show "delayed_inv (fst (delayed_pop_due q now))" by (rule delayed_pop_due_popped(2) [OF inv])
next
  fix q assume inv: "delayed_inv q"
  show "delayed_queued q = dom (delayed_due q)" by (rule delayed_due_dom [OF inv])
  show "finite (delayed_queued q)" using inv by (simp add: delayed_inv_def delayed_queued_def)
  have "delayed_queued q = set (map fst (delayed_alist (dq_entries q)))"
    using inv by (simp add: delayed_inv_def delayed_queued_def)
  moreover have "distinct (map fst (delayed_alist (dq_entries q)))"
    using inv by (simp add: delayed_inv_def delayed_heap_inv_def)
  ultimately have "card (delayed_queued q) = length (delayed_alist (dq_entries q))"
    by (metis distinct_card length_map)
  then show "delayed_len q = card (delayed_queued q)" by (simp add: delayed_len_def delayed_alist_def)
qed

section \<open>Properties\<close>

definition demo_delayed :: delayed_queue where
  "demo_delayed =
     fst (delayed_push (fst (delayed_push delayed_new \<lparr>de_task_id = ''late'', de_next_run_at = 50,
       de_priority = 1, de_enqueued_at = 0, de_index = 0\<rparr>))
       \<lparr>de_task_id = ''soon'', de_next_run_at = 20, de_priority = 1, de_enqueued_at = 0, de_index = 0\<rparr>)"

lemma demo_delayed_inv: "delayed_inv demo_delayed"
  by (simp add: demo_delayed_def dq.inv_push dq.inv_new)

lemma demo_delayed_due: "delayed_due demo_delayed = [''late'' \<mapsto> 50, ''soon'' \<mapsto> 20]"
  by (simp add: demo_delayed_def dq.due_push dq.inv_push dq.inv_new)
    (simp add: delayed_due_def delayed_new_def delayed_alist_def)

text \<open>
  C26. \<open>PopDue\<close> takes out exactly the tasks whose time has come, each once and earliest
  first, and leaves every other task with its time; the loop always ends.
\<close>

theorem delayed_pop_due_exact:
  assumes "delayed_inv q" and "delayed_pop_due q now = (q', out)"
  shows "de_task_id ` set out = {t. \<exists>u. delayed_due q t = Some u \<and> u \<le> now} \<and>
    distinct (map de_task_id out) \<and> sorted (map de_next_run_at out) \<and> delayed_inv q' \<and>
    delayed_due q' = (\<lambda>t. case delayed_due q t of None \<Rightarrow> None | Some u \<Rightarrow> if u \<le> now then None else Some u)"
  using dq.popped_set [OF assms(1), of now] dq.popped_distinct [OF assms(1), of now]
    dq.popped_sorted [OF assms(1), of now] dq.inv_pop_due [OF assms(1), of now]
    dq.due_pop_due [OF assms(1), of now] assms(2) by simp

theorem delayed_pop_due_exact_witness:
  "de_task_id ` set (snd (delayed_pop_due demo_delayed 30)) = {''soon''} \<and>
   delayed_due (fst (delayed_pop_due demo_delayed 30)) ''late'' = Some 50"
proof -
  obtain q' out where p: "delayed_pop_due demo_delayed 30 = (q', out)" by fastforce
  have "{t. \<exists>u. delayed_due demo_delayed t = Some u \<and> u \<le> 30} = {''soon''}"
    by (auto simp: demo_delayed_due split: if_splits)
  with delayed_pop_due_exact [OF demo_delayed_inv p] p show ?thesis by (simp add: demo_delayed_due)
qed

text \<open>
  C27. \<open>Push\<close> of a task that is already scheduled never adds a second entry and keeps the
  earlier of the two times; a new task is added with its own time. Nothing else changes.
\<close>

theorem delayed_push_keeps_earlier:
  assumes "delayed_inv q"
  shows "delayed_inv (fst (delayed_push q e)) \<and>
    snd (delayed_push q e) = (delayed_due q (de_task_id e) = None) \<and>
    delayed_due (fst (delayed_push q e)) = (delayed_due q)(de_task_id e \<mapsto>
      (case delayed_due q (de_task_id e) of None \<Rightarrow> de_next_run_at e | Some u \<Rightarrow> min u (de_next_run_at e))) \<and>
    delayed_len (fst (delayed_push q e)) =
      (if delayed_due q (de_task_id e) = None then Suc (delayed_len q) else delayed_len q)"
proof -
  have q: "de_task_id e \<in> delayed_queued q \<longleftrightarrow> delayed_due q (de_task_id e) \<noteq> None"
    using dq.queued_dom [OF assms] by auto
  have "delayed_len (fst (delayed_push q e)) =
      (if de_task_id e \<in> delayed_queued q then delayed_len q else Suc (delayed_len q))"
    using assms by (simp add: dq.len_card dq.inv_push dq.queued_push dq.queued_finite card_insert_if)
  with q dq.inv_push [OF assms] dq.push_reports [OF assms] dq.due_push [OF assms] show ?thesis by auto
qed

theorem delayed_push_keeps_earlier_witness:
  "delayed_due (fst (delayed_push demo_delayed \<lparr>de_task_id = ''late'', de_next_run_at = 40,
     de_priority = 1, de_enqueued_at = 0, de_index = 0\<rparr>)) ''late'' = Some 40"
  using delayed_push_keeps_earlier [OF demo_delayed_inv] by (simp add: demo_delayed_due)

end
