(* ===== verification/TaskModel.thy ===== *)
theory TaskModel
  imports Prelude
begin

text \<open>
  The domain types of \<open>internal/model/task.go\<close>. A task state is a string constant in
  the code and one of six constructors here (a snapshot that carries another string is
  outside the model). A pointer to a task that the store keeps is its value in the
  store's map: \<open>Clone\<close> copies all fields, so a clone is the same value.
\<close>

datatype task_state = StatePending | StateReady | StateLeased | StateSucceeded | StateDead | StateCanceled

definition terminal :: "task_state \<Rightarrow> bool" where
  "terminal st \<longleftrightarrow> st = StateSucceeded \<or> st = StateDead \<or> st = StateCanceled"

record trigger_spec =
  kind :: string
  run_at :: instant
  cron_expr :: string

record task =
  task_id :: string
  task_name :: string
  task_handler :: string
  payload :: string
  priority :: int
  timeout :: duration
  max_retries :: int
  retries_left :: int
  state :: task_state
  version :: int
  next_run_at :: instant
  created_at :: instant
  updated_at :: instant
  last_attempt_at :: instant
  attempt_count :: int
  trigger :: trigger_spec

record execution_record =
  rec_id :: string
  rec_task_id :: string
  rec_attempt :: int
  rec_worker_id :: string
  rec_status :: string
  rec_started_at :: instant
  rec_finished_at :: instant
  rec_message :: string

record lease =
  lease_id :: string
  lease_task_id :: string
  lease_worker_id :: string
  lease_task_version :: int
  lease_deadline :: instant
  lease_created_at :: instant

record worker_node =
  node_id :: string
  node_address :: string
  last_heartbeat :: instant
  registered_at :: instant
  generation :: int

text \<open>The zero \<open>time.Time\<close>: midnight of 1 January of year 1, before the Unix epoch.\<close>

definition zero_time :: instant where
  "zero_time = - 62135596800 * 10 ^ 9"

text \<open>\<open>t.UnixNano()\<close>: the instant as a 64-bit count of nanoseconds, which wraps.\<close>

definition unix_nano :: "instant \<Rightarrow> int" where
  "unix_nano t = wrap64 t"

text \<open>A one-time task due at \<open>at\<close>, for the concrete instances of the theorems.\<close>

definition demo_task :: "string \<Rightarrow> string \<Rightarrow> int \<Rightarrow> instant \<Rightarrow> task" where
  "demo_task i n prio at =
     \<lparr>task_id = i, task_name = n, task_handler = ''echo'', payload = ''payload'', priority = prio,
      timeout = 5 * 10 ^ 9, max_retries = 1, retries_left = 1, state = StatePending, version = 0,
      next_run_at = at, created_at = 0, updated_at = 0, last_attempt_at = 0, attempt_count = 0,
      trigger = \<lparr>kind = ''once'', run_at = at, cron_expr = ''''\<rparr>\<rparr>"

end
