(* ===== verification/TaskStore.thy ===== *)
theory TaskStore
  imports TaskModel
begin

text \<open>
  \<open>internal/store/tasks.go\<close>: the in-memory task repository. Its state is the map of the
  tasks, the name index and the time index. An operation that fails returns its error and
  leaves the store as it was, so it is \<open>Inl\<close> of the error; one that succeeds returns the
  new store. \<open>now\<close> is what the operation reads from the injected clock.

  Go ranges over a map in an unspecified order. Where that order can be observed, the
  operation takes it as an argument: a list of the map's keys. \<open>sort.Slice\<close> is not stable,
  so any order of equal elements can come out of it; a stable sort of an arbitrary
  iteration order gives every such result.
\<close>

section \<open>The code\<close>

datatype store_error = ErrIDRequired | ErrNotFound | ErrDuplicateName | ErrConflict | ErrAlreadyCanceled

record task_store =
  ts_tasks :: "string \<rightharpoonup> task"
  ts_by_name :: "string \<rightharpoonup> string"
  ts_by_time :: "int \<rightharpoonup> string list"

definition store_new :: task_store where
  "store_new = \<lparr>ts_tasks = Map.empty, ts_by_name = Map.empty, ts_by_time = Map.empty\<rparr>"

definition index_time :: "(int \<rightharpoonup> string list) \<Rightarrow> task \<Rightarrow> (int \<rightharpoonup> string list)" where
  "index_time m t =
     (if state t = StatePending \<or> state t = StateReady
      then
        let key = unix_nano (next_run_at t) in
        m(key \<mapsto> (case m key of None \<Rightarrow> [] | Some ids \<Rightarrow> ids) @ [task_id t])
      else m)"

definition strip_time :: "string \<Rightarrow> (int \<rightharpoonup> string list) \<Rightarrow> (int \<rightharpoonup> string list)" where
  "strip_time i m =
     (\<lambda>key. case m key of
        None \<Rightarrow> None
      | Some ids \<Rightarrow> (let filtered = filter (\<lambda>x. x \<noteq> i) ids in if filtered = [] then None else Some filtered))"

definition reindex_time :: "(int \<rightharpoonup> string list) \<Rightarrow> task \<Rightarrow> (int \<rightharpoonup> string list)" where
  "reindex_time m t = index_time (strip_time (task_id t) m) t"

definition store_save :: "task_store \<Rightarrow> instant \<Rightarrow> task \<Rightarrow> store_error + task_store" where
  "store_save s now t =
     (if task_id t = '''' then Inl ErrIDRequired
      else if (case ts_tasks s (task_id t) of Some existing \<Rightarrow> state existing = StateCanceled | None \<Rightarrow> False)
      then Inl ErrAlreadyCanceled
      else if (case ts_by_name s (task_name t) of Some owner \<Rightarrow> owner \<noteq> task_id t | None \<Rightarrow> False)
      then Inl ErrDuplicateName
      else
        case ts_tasks s (task_id t) of
          Some prev \<Rightarrow>
            (let prev' = prev\<lparr>version := version prev + 1, task_name := task_name t,
                   task_handler := task_handler t, payload := payload t, priority := priority t,
                   timeout := timeout t, max_retries := max_retries t,
                   retries_left := retries_left t, trigger := trigger t,
                   next_run_at := next_run_at t, updated_at := now\<rparr>
             in Inr (s\<lparr>ts_tasks := (ts_tasks s)(task_id t \<mapsto> prev'),
                       ts_by_time := reindex_time (ts_by_time s) prev'\<rparr>))
        | None \<Rightarrow>
            (let cp = t\<lparr>version := 1, created_at := now, updated_at := now\<rparr>
             in Inr (s\<lparr>ts_tasks := (ts_tasks s)(task_id cp \<mapsto> cp),
                       ts_by_name := (ts_by_name s)(task_name cp \<mapsto> task_id cp),
                       ts_by_time := index_time (ts_by_time s) cp\<rparr>)))"

definition store_get :: "task_store \<Rightarrow> string \<Rightarrow> store_error + task" where
  "store_get s i = (case ts_tasks s i of None \<Rightarrow> Inl ErrNotFound | Some t \<Rightarrow> Inr t)"

text \<open>
  \<open>List\<close>: \<open>its\<close> is the iteration order over the tasks. \<open>None\<close> is the panic of slicing with
  a negative offset or with an end before the offset (after \<open>offset + limit\<close> wrapped).
\<close>

definition store_list :: "task_store \<Rightarrow> string list \<Rightarrow> int \<Rightarrow> int \<Rightarrow> task list option" where
  "store_list s its limit offset =
     (let all = sort_key created_at (List.map_filter (ts_tasks s) its);
          len = int (length all)
      in if len < offset then Some []
         else
           let e = wrap64 (offset + limit);
               e' = (if limit \<le> 0 \<or> len < e then len else e)
           in if offset < 0 \<or> e' < offset then None
              else Some (take (nat (e' - offset)) (drop (nat offset) all)))"

definition due_of :: "task_store \<Rightarrow> instant \<Rightarrow> string \<Rightarrow> task option" where
  "due_of s now i =
     (case ts_tasks s i of
        None \<Rightarrow> None
      | Some t \<Rightarrow> if state t = StatePending \<and> \<not> now < next_run_at t then Some t else None)"

text \<open>\<open>ScanDue\<close>: \<open>keys\<close> is the iteration order over the time index.\<close>

definition store_scan_due :: "task_store \<Rightarrow> int list \<Rightarrow> instant \<Rightarrow> task list" where
  "store_scan_due s keys now =
     sort_key (\<lambda>t. - priority t)
       (concat (map (\<lambda>key. if now < key then []
                           else case ts_by_time s key of
                                  None \<Rightarrow> []
                                | Some ids \<Rightarrow> List.map_filter (due_of s now) ids) keys))"

definition store_mark_ready :: "task_store \<Rightarrow> instant \<Rightarrow> string \<Rightarrow> store_error + (task_store \<times> task)" where
  "store_mark_ready s now i =
     (case ts_tasks s i of
        None \<Rightarrow> Inl ErrNotFound
      | Some t \<Rightarrow>
          if state t \<noteq> StatePending then Inl ErrConflict
          else
            let t' = t\<lparr>state := StateReady, version := version t + 1, updated_at := now\<rparr>
            in Inr (s\<lparr>ts_tasks := (ts_tasks s)(i \<mapsto> t')\<rparr>, t'))"

text \<open>\<open>Transition\<close>: \<open>Inr None\<close> is the result \<open>(nil, false, nil)\<close> of a failed guard.\<close>

definition store_transition ::
  "task_store \<Rightarrow> instant \<Rightarrow> string \<Rightarrow> task_state \<Rightarrow> task_state \<Rightarrow> int \<Rightarrow> store_error + (task_store \<times> task) option" where
  "store_transition s now i from to expected =
     (case ts_tasks s i of
        None \<Rightarrow> Inl ErrNotFound
      | Some t \<Rightarrow>
          if state t \<noteq> from then Inr None
          else if 0 \<le> expected \<and> version t \<noteq> expected then Inr None
          else
            let t' = t\<lparr>state := to, version := version t + 1, updated_at := now\<rparr>
            in Inr (Some (s\<lparr>ts_tasks := (ts_tasks s)(i \<mapsto> t')\<rparr>, t')))"

definition store_set_state :: "task_store \<Rightarrow> instant \<Rightarrow> string \<Rightarrow> task_state \<Rightarrow> store_error + (task_store \<times> task)" where
  "store_set_state s now i to =
     (case ts_tasks s i of
        None \<Rightarrow> Inl ErrNotFound
      | Some t \<Rightarrow>
          let t' = t\<lparr>state := to, version := version t + 1, updated_at := now\<rparr>
          in Inr (s\<lparr>ts_tasks := (ts_tasks s)(i \<mapsto> t')\<rparr>, t'))"

definition store_set_next_run :: "task_store \<Rightarrow> instant \<Rightarrow> string \<Rightarrow> instant \<Rightarrow> store_error + task_store" where
  "store_set_next_run s now i next =
     (case ts_tasks s i of
        None \<Rightarrow> Inl ErrNotFound
      | Some t \<Rightarrow>
          let t' = t\<lparr>next_run_at := next, updated_at := now\<rparr>
          in Inr (s\<lparr>ts_tasks := (ts_tasks s)(i \<mapsto> t'),
                    ts_by_time := reindex_time (ts_by_time s) t'\<rparr>))"

text \<open>\<open>Retry\<close> reads the clock twice, \<open>now1\<close> for the last attempt and \<open>now2\<close> for the update.\<close>

definition store_retry ::
  "task_store \<Rightarrow> instant \<Rightarrow> instant \<Rightarrow> string \<Rightarrow> instant \<Rightarrow> int \<Rightarrow> store_error + (task_store \<times> task)" where
  "store_retry s now1 now2 i next expected =
     (case ts_tasks s i of
        None \<Rightarrow> Inl ErrNotFound
      | Some t \<Rightarrow>
          if version t \<noteq> expected then Inl ErrConflict
          else if retries_left t \<le> 0 then Inl ErrConflict
          else
            let t' = t\<lparr>retries_left := retries_left t - 1, state := StateReady, next_run_at := next,
                   last_attempt_at := now1, version := version t + 1, updated_at := now2\<rparr>
            in Inr (s\<lparr>ts_tasks := (ts_tasks s)(i \<mapsto> t'),
                      ts_by_time := reindex_time (ts_by_time s) t'\<rparr>, t'))"

definition store_delete :: "task_store \<Rightarrow> string \<Rightarrow> store_error + task_store" where
  "store_delete s i =
     (case ts_tasks s i of
        None \<Rightarrow> Inl ErrNotFound
      | Some t \<Rightarrow>
          Inr \<lparr>ts_tasks = (ts_tasks s)(i := None),
               ts_by_name = (ts_by_name s)(task_name t := None),
               ts_by_time = strip_time i (ts_by_time s)\<rparr>)"

definition store_reset :: "task_store \<Rightarrow> task_store" where
  "store_reset s = s\<lparr>ts_tasks := Map.empty, ts_by_name := Map.empty, ts_by_time := Map.empty\<rparr>"

section \<open>The time index\<close>

text \<open>
  Every id listed under a key belongs to a task whose next run time has that key, at most
  once (\<open>times_listed\<close>), and every pending task is listed (\<open>pending_listed\<close>). (A ready task may
  be missing: \<open>Save\<close> drops the entry of a leased task, and a lease that expires makes the task
  ready again.)
\<close>

definition times_listed :: "(string \<rightharpoonup> task) \<Rightarrow> (int \<rightharpoonup> string list) \<Rightarrow> bool" where
  "times_listed tasks m \<longleftrightarrow>
     (\<forall>key ids. m key = Some ids \<longrightarrow> ids \<noteq> [] \<and> distinct ids \<and>
        (\<forall>i \<in> set ids. \<exists>t. tasks i = Some t \<and> unix_nano (next_run_at t) = key))"

definition pending_listed :: "(string \<rightharpoonup> task) \<Rightarrow> (int \<rightharpoonup> string list) \<Rightarrow> bool" where
  "pending_listed tasks m \<longleftrightarrow>
     (\<forall>i t. tasks i = Some t \<longrightarrow> state t = StatePending \<longrightarrow>
        (\<exists>ids. m (unix_nano (next_run_at t)) = Some ids \<and> i \<in> set ids))"

lemma times_listedD:
  assumes "times_listed tasks m" and "m key = Some ids"
  shows "ids \<noteq> []" "distinct ids" "i \<in> set ids \<Longrightarrow> \<exists>t. tasks i = Some t \<and> unix_nano (next_run_at t) = key"
  using assms unfolding times_listed_def by blast+

lemma pending_listedD:
  "pending_listed tasks m \<Longrightarrow> tasks i = Some t \<Longrightarrow> state t = StatePending \<Longrightarrow>
   \<exists>ids. m (unix_nano (next_run_at t)) = Some ids \<and> i \<in> set ids"
  unfolding pending_listed_def by blast

lemma strip_time_Some:
  "strip_time i m key = Some ids \<longleftrightarrow>
   (\<exists>ids0. m key = Some ids0 \<and> ids = filter (\<lambda>x. x \<noteq> i) ids0 \<and> ids \<noteq> [])"
  by (auto simp: strip_time_def Let_def split: option.splits if_splits)

text \<open>The index without one task: it lists the others and only them.\<close>

lemma times_listed_strip:
  assumes "times_listed tasks m"
  shows "times_listed (tasks(i := None)) (strip_time i m)"
  unfolding times_listed_def
proof (intro allI impI conjI ballI)
  fix key ids assume "strip_time i m key = Some ids"
  then obtain ids0 where o: "m key = Some ids0" "ids = filter (\<lambda>x. x \<noteq> i) ids0" "ids \<noteq> []"
    by (auto simp: strip_time_Some)
  show "ids \<noteq> []" "distinct ids" using times_listedD(2) [OF assms o(1)] o(2,3) by simp_all
  fix j assume "j \<in> set ids"
  with times_listedD(3) [OF assms o(1), of j] o(2)
  show "\<exists>t. (tasks(i := None)) j = Some t \<and> unix_nano (next_run_at t) = key" by simp
qed

lemma pending_listed_strip:
  assumes "pending_listed tasks m"
  shows "pending_listed (tasks(i := None)) (strip_time i m)"
  unfolding pending_listed_def
proof (intro allI impI)
  fix j t assume j: "(tasks(i := None)) j = Some t" and p: "state t = StatePending"
  then have "j \<noteq> i" "tasks j = Some t" by (auto split: if_splits)
  with pending_listedD [OF assms _ p] obtain ids
    where "m (unix_nano (next_run_at t)) = Some ids" "j \<in> set ids" by blast
  with \<open>j \<noteq> i\<close> show "\<exists>ids. strip_time i m (unix_nano (next_run_at t)) = Some ids \<and> j \<in> set ids"
    by (auto simp: strip_time_Some filter_empty_conv)
qed

text \<open>The index with one task more.\<close>

lemma index_time_Some:
  "index_time m t key = Some ids \<longleftrightarrow>
   (if (state t = StatePending \<or> state t = StateReady) \<and> key = unix_nano (next_run_at t)
    then ids = (case m key of None \<Rightarrow> [] | Some ids0 \<Rightarrow> ids0) @ [task_id t]
    else m key = Some ids)"
  by (auto simp: index_time_def Let_def)

lemma times_listed_index:
  assumes ok: "times_listed tasks m" and new: "tasks (task_id t) = None"
  shows "times_listed (tasks(task_id t \<mapsto> t)) (index_time m t)"
  unfolding times_listed_def
proof (intro allI impI)
  fix key ids assume "index_time m t key = Some ids"
  then consider "m key = Some ids"
    | "key = unix_nano (next_run_at t)" "m key = None" "ids = [task_id t]"
    | ids0 where "key = unix_nano (next_run_at t)" "m key = Some ids0" "ids = ids0 @ [task_id t]"
    by (auto simp: index_time_Some split: if_splits option.splits)
  then show "ids \<noteq> [] \<and> distinct ids \<and>
      (\<forall>i \<in> set ids. \<exists>u. (tasks(task_id t \<mapsto> t)) i = Some u \<and> unix_nano (next_run_at u) = key)"
    using times_listedD [OF ok, of key] new by cases fastforce+
qed

lemma pending_listed_index:
  assumes "pending_listed tasks m"
  shows "pending_listed (tasks(task_id t \<mapsto> t)) (index_time m t)"
  unfolding pending_listed_def
proof (intro allI impI)
  fix j u assume u: "(tasks(task_id t \<mapsto> t)) j = Some u" "state u = StatePending"
  show "\<exists>ids. index_time m t (unix_nano (next_run_at u)) = Some ids \<and> j \<in> set ids"
  proof (cases "j = task_id t")
    case True
    with u show ?thesis by (auto simp: index_time_Some)
  next
    case False
    with u pending_listedD [OF assms, of j u] show ?thesis by (auto simp: index_time_def Let_def)
  qed
qed

lemma times_listed_reindex:
  assumes "times_listed tasks m"
  shows "times_listed (tasks(task_id t \<mapsto> t)) (reindex_time m t)"
  using times_listed_index [OF times_listed_strip [OF assms, of "task_id t"], of t]
  by (simp add: reindex_time_def)

lemma pending_listed_reindex:
  assumes "pending_listed tasks m"
  shows "pending_listed (tasks(task_id t \<mapsto> t)) (reindex_time m t)"
  using pending_listed_index [OF pending_listed_strip [OF assms, of "task_id t"], of t]
  by (simp add: reindex_time_def)

text \<open>A change of one task that leaves its next run time, and does not make it pending.\<close>

lemma times_listed_update:
  assumes "times_listed tasks m" and "tasks i = Some t" and "next_run_at t' = next_run_at t"
  shows "times_listed (tasks(i \<mapsto> t')) m"
  unfolding times_listed_def
proof (intro allI impI conjI ballI)
  fix key ids assume m: "m key = Some ids"
  show "ids \<noteq> []" "distinct ids" by (rule times_listedD [OF assms(1) m])+
  fix j assume "j \<in> set ids"
  from times_listedD(3) [OF assms(1) m this] assms(2,3)
  show "\<exists>u. (tasks(i \<mapsto> t')) j = Some u \<and> unix_nano (next_run_at u) = key" by auto
qed

lemma pending_listed_update:
  assumes "pending_listed tasks m" and "tasks i = Some t" and "next_run_at t' = next_run_at t"
    and "state t' = StatePending \<Longrightarrow> state t = StatePending"
  shows "pending_listed (tasks(i \<mapsto> t')) m"
  unfolding pending_listed_def
proof (intro allI impI)
  fix j u assume "(tasks(i \<mapsto> t')) j = Some u" "state u = StatePending"
  then show "\<exists>ids. m (unix_nano (next_run_at u)) = Some ids \<and> j \<in> set ids"
    using pending_listedD [OF assms(1), of j] assms(2-4) by (cases "j = i") auto
qed

section \<open>The store's invariant\<close>

text \<open>
  Three parts. What every run of operations keeps (\<open>store_sound\<close>): ids and keys agree and the
  time index lists only what it should. What an overwrite with another name breaks
  (\<open>names_exact\<close>): the name index is exactly the names of the stored tasks. What making a task
  pending by a change of its state breaks: \<open>pending_listed\<close>.
\<close>

definition store_sound :: "task_store \<Rightarrow> bool" where
  "store_sound s \<longleftrightarrow>
     (\<forall>i t. ts_tasks s i = Some t \<longrightarrow> task_id t = i \<and> i \<noteq> '''') \<and> times_listed (ts_tasks s) (ts_by_time s)"

definition names_exact :: "task_store \<Rightarrow> bool" where
  "names_exact s \<longleftrightarrow>
     (\<forall>i t. ts_tasks s i = Some t \<longrightarrow> ts_by_name s (task_name t) = Some i) \<and>
     (\<forall>n i. ts_by_name s n = Some i \<longrightarrow> (\<exists>t. ts_tasks s i = Some t \<and> task_name t = n))"

definition store_inv :: "task_store \<Rightarrow> bool" where
  "store_inv s \<longleftrightarrow> store_sound s \<and> names_exact s \<and> pending_listed (ts_tasks s) (ts_by_time s)"

lemma store_soundD:
  assumes "store_sound s"
  shows "ts_tasks s i = Some t \<Longrightarrow> task_id t = i" and "ts_tasks s i = Some t \<Longrightarrow> i \<noteq> ''''"
    and "times_listed (ts_tasks s) (ts_by_time s)"
  using assms unfolding store_sound_def by blast+

lemma names_exactD:
  assumes "names_exact s"
  shows "ts_tasks s i = Some t \<Longrightarrow> ts_by_name s (task_name t) = Some i"
    and "ts_by_name s n = Some i \<Longrightarrow> \<exists>t. ts_tasks s i = Some t \<and> task_name t = n"
  using assms unfolding names_exact_def by blast+

lemma store_invD:
  assumes "store_inv s"
  shows "ts_tasks s i = Some t \<Longrightarrow> task_id t = i" and "ts_tasks s i = Some t \<Longrightarrow> i \<noteq> ''''"
    and "ts_tasks s i = Some t \<Longrightarrow> ts_by_name s (task_name t) = Some i"
    and "ts_by_name s n = Some i \<Longrightarrow> \<exists>t. ts_tasks s i = Some t \<and> task_name t = n"
    and "times_listed (ts_tasks s) (ts_by_time s)" and "pending_listed (ts_tasks s) (ts_by_time s)"
  using assms store_soundD names_exactD unfolding store_inv_def by blast+

lemma store_empty: "ts_tasks s = Map.empty \<Longrightarrow> ts_by_name s = Map.empty \<Longrightarrow> ts_by_time s = Map.empty \<Longrightarrow> store_inv s"
  by (simp add: store_inv_def store_sound_def names_exact_def times_listed_def pending_listed_def)

lemma store_inv_new: "store_inv store_new"
  by (rule store_empty) (simp_all add: store_new_def)

lemma store_inv_reset: "store_inv (store_reset s)"
  by (rule store_empty) (simp_all add: store_reset_def)

text \<open>
  The changes that the operations make, and what each part of the invariant asks of them: a
  task changed in place, a task changed and indexed anew, a task put in, a task taken out.
\<close>

lemma store_sound_put:
  "store_sound s \<Longrightarrow> ts_tasks s i = Some t \<Longrightarrow> task_id t' = task_id t \<Longrightarrow> next_run_at t' = next_run_at t \<Longrightarrow>
   store_sound (s\<lparr>ts_tasks := (ts_tasks s)(i \<mapsto> t')\<rparr>)"
  using times_listed_update [of "ts_tasks s" "ts_by_time s" i t t'] by (auto simp: store_sound_def)

lemma store_sound_reindexed:
  assumes "store_sound s" and "ts_tasks s i = Some t" and "task_id t' = task_id t"
  shows "store_sound (s\<lparr>ts_tasks := (ts_tasks s)(i \<mapsto> t'), ts_by_time := reindex_time (ts_by_time s) t'\<rparr>)"
  using assms times_listed_reindex [of "ts_tasks s" "ts_by_time s" t'] by (auto simp: store_sound_def)

lemma store_sound_insert:
  assumes "store_sound s" and "ts_tasks s (task_id t) = None" and "task_id t \<noteq> ''''"
  shows "store_sound (s\<lparr>ts_tasks := (ts_tasks s)(task_id t \<mapsto> t), ts_by_name := n, ts_by_time := index_time (ts_by_time s) t\<rparr>)"
  using assms times_listed_index [of "ts_tasks s" "ts_by_time s" t] by (auto simp: store_sound_def)

lemma store_sound_remove:
  "store_sound s \<Longrightarrow> store_sound \<lparr>ts_tasks = (ts_tasks s)(i := None), ts_by_name = n, ts_by_time = strip_time i (ts_by_time s)\<rparr>"
  using times_listed_strip [of "ts_tasks s" "ts_by_time s" i] by (auto simp: store_sound_def)

lemma names_exact_put:
  assumes "names_exact s" and "ts_tasks s i = Some t" and "task_name t' = task_name t"
  shows "names_exact (s\<lparr>ts_tasks := (ts_tasks s)(i \<mapsto> t'), ts_by_time := m\<rparr>)"
    and "names_exact (s\<lparr>ts_tasks := (ts_tasks s)(i \<mapsto> t')\<rparr>)"
  using assms names_exactD [OF assms(1)] unfolding names_exact_def by (auto split: if_splits) (metis option.inject)+

lemma names_exact_insert:
  assumes ok: "names_exact s" and new: "ts_tasks s (task_id t) = None"
    and owner: "\<And>owner. ts_by_name s (task_name t) = Some owner \<Longrightarrow> owner = task_id t"
  shows "names_exact (s\<lparr>ts_tasks := (ts_tasks s)(task_id t \<mapsto> t), ts_by_name := (ts_by_name s)(task_name t \<mapsto> task_id t),
    ts_by_time := m\<rparr>)"
proof -
  have free: "ts_by_name s (task_name t) = None"
    using owner names_exactD(2) [OF ok, of "task_name t"] new by (cases "ts_by_name s (task_name t)") fastforce+
  have names: "task_name u \<noteq> task_name t" if "ts_tasks s j = Some u" for j u
    using names_exactD(1) [OF ok that] free by auto
  have unbound: "ts_by_name s n \<noteq> Some (task_id t)" for n
    using names_exactD(2) [OF ok, of n "task_id t"] new by fastforce
  show ?thesis
    using names_exactD [OF ok] names unbound unfolding names_exact_def by (auto split: if_splits)
qed

lemma names_exact_remove:
  assumes ok: "names_exact s" and t: "ts_tasks s i = Some t"
  shows "names_exact \<lparr>ts_tasks = (ts_tasks s)(i := None), ts_by_name = (ts_by_name s)(task_name t := None), ts_by_time = m\<rparr>"
proof -
  have n: "task_name u \<noteq> task_name t" if "ts_tasks s j = Some u" "j \<noteq> i" for j u
    using names_exactD(1) [OF ok that(1)] names_exactD(1) [OF ok t] that(2) by auto
  have b: "\<exists>u. ts_tasks s j = Some u \<and> task_name u = m \<and> j \<noteq> i"
    if "ts_by_name s m = Some j" "m \<noteq> task_name t" for j m
    using names_exactD(2) [OF ok that(1)] t that(2) by auto
  have "\<exists>u. ((ts_tasks s)(i := None)) j = Some u \<and> task_name u = m"
    if "((ts_by_name s)(task_name t := None)) m = Some j" for j m
    using b [of m j] that by (auto split: if_splits)
  then show ?thesis using names_exactD(1) [OF ok] n unfolding names_exact_def by (simp add: fun_upd_def)
qed

lemma store_inv_put:
  assumes "store_inv s" and "ts_tasks s i = Some t"
    and "task_id t' = task_id t" "task_name t' = task_name t" "next_run_at t' = next_run_at t"
    and "state t' = StatePending \<Longrightarrow> state t = StatePending"
  shows "store_inv (s\<lparr>ts_tasks := (ts_tasks s)(i \<mapsto> t')\<rparr>)"
  using assms store_sound_put names_exact_put(2) pending_listed_update unfolding store_inv_def by simp

lemma store_inv_reindexed:
  assumes inv: "store_inv s" and t: "ts_tasks s i = Some t"
    and same: "task_id t' = task_id t" "task_name t' = task_name t"
  shows "store_inv (s\<lparr>ts_tasks := (ts_tasks s)(i \<mapsto> t'), ts_by_time := reindex_time (ts_by_time s) t'\<rparr>)"
  using store_sound_reindexed names_exact_put(1) pending_listed_reindex [of "ts_tasks s" "ts_by_time s" t'] store_invD(1) [OF inv t] assms
  unfolding store_inv_def by simp

section \<open>What the operations do\<close>

text \<open>The operations' results, solved for the task they found; the other components use these.\<close>

named_theorems store_results \<open>the store's operations solved for their results\<close>

lemma store_get_iff [store_results]:
  "store_get s i = Inr t \<longleftrightarrow> ts_tasks s i = Some t"
  "store_get s i = Inl e \<longleftrightarrow> ts_tasks s i = None \<and> e = ErrNotFound"
  by (auto simp: store_get_def split: option.splits)

lemma store_mark_ready_Inr [store_results]:
  "store_mark_ready s now i = Inr (s', t') \<longleftrightarrow>
   (\<exists>t. ts_tasks s i = Some t \<and> state t = StatePending \<and>
      t' = t\<lparr>state := StateReady, version := version t + 1, updated_at := now\<rparr> \<and>
      s' = s\<lparr>ts_tasks := (ts_tasks s)(i \<mapsto> t')\<rparr>)"
  by (auto simp: store_mark_ready_def Let_def split: option.splits if_splits)

lemma store_transition_Some [store_results]:
  "store_transition s now i from to e = Inr (Some (s', t')) \<longleftrightarrow>
   (\<exists>t. ts_tasks s i = Some t \<and> state t = from \<and> (e < 0 \<or> version t = e) \<and>
      t' = t\<lparr>state := to, version := version t + 1, updated_at := now\<rparr> \<and>
      s' = s\<lparr>ts_tasks := (ts_tasks s)(i \<mapsto> t')\<rparr>)"
  by (auto simp: store_transition_def Let_def split: option.splits if_splits)

lemma store_transition_None [store_results]:
  "store_transition s now i from to e = Inr None \<longleftrightarrow>
   (\<exists>t. ts_tasks s i = Some t \<and> (state t \<noteq> from \<or> 0 \<le> e \<and> version t \<noteq> e))"
  by (auto simp: store_transition_def Let_def split: option.splits if_splits)

lemma store_transition_Inl [store_results]:
  "store_transition s now i from to e = Inl err \<longleftrightarrow> ts_tasks s i = None \<and> err = ErrNotFound"
  by (auto simp: store_transition_def Let_def split: option.splits if_splits)

lemma store_set_next_run_Inr [store_results]:
  "store_set_next_run s now i next = Inr s' \<longleftrightarrow>
   (\<exists>t t'. ts_tasks s i = Some t \<and> t' = t\<lparr>next_run_at := next, updated_at := now\<rparr> \<and>
      s' = s\<lparr>ts_tasks := (ts_tasks s)(i \<mapsto> t'), ts_by_time := reindex_time (ts_by_time s) t'\<rparr>)"
  by (auto simp: store_set_next_run_def Let_def split: option.splits)

lemma store_retry_Inr [store_results]:
  "store_retry s now1 now2 i next e = Inr (s', t') \<longleftrightarrow>
   (\<exists>t. ts_tasks s i = Some t \<and> version t = e \<and> 0 < retries_left t \<and>
      t' = t\<lparr>retries_left := retries_left t - 1, state := StateReady, next_run_at := next,
             last_attempt_at := now1, version := version t + 1, updated_at := now2\<rparr> \<and>
      s' = s\<lparr>ts_tasks := (ts_tasks s)(i \<mapsto> t'), ts_by_time := reindex_time (ts_by_time s) t'\<rparr>)"
  by (auto simp: store_retry_def Let_def split: option.splits if_splits)

lemma store_delete_Inr [store_results]:
  "store_delete s i = Inr s' \<longleftrightarrow>
   (\<exists>t. ts_tasks s i = Some t \<and>
      s' = \<lparr>ts_tasks = (ts_tasks s)(i := None), ts_by_name = (ts_by_name s)(task_name t := None),
            ts_by_time = strip_time i (ts_by_time s)\<rparr>)"
  by (auto simp: store_delete_def split: option.splits)

text \<open>\<open>Save\<close> as an insertion and as an overwrite.\<close>

definition saved_over :: "task \<Rightarrow> task \<Rightarrow> instant \<Rightarrow> task" where
  "saved_over prev t now =
     prev\<lparr>version := version prev + 1, task_name := task_name t, task_handler := task_handler t,
          payload := payload t, priority := priority t, timeout := timeout t,
          max_retries := max_retries t, retries_left := retries_left t, trigger := trigger t,
          next_run_at := next_run_at t, updated_at := now\<rparr>"

lemma store_save_new:
  "ts_tasks s (task_id t) = None \<Longrightarrow> store_save s now t = Inr s' \<longleftrightarrow>
   task_id t \<noteq> '''' \<and> (\<forall>owner. ts_by_name s (task_name t) = Some owner \<longrightarrow> owner = task_id t) \<and>
   s' = (let cp = t\<lparr>version := 1, created_at := now, updated_at := now\<rparr>
         in s\<lparr>ts_tasks := (ts_tasks s)(task_id t \<mapsto> cp),
              ts_by_name := (ts_by_name s)(task_name t \<mapsto> task_id t),
              ts_by_time := index_time (ts_by_time s) cp\<rparr>)"
  by (auto simp: store_save_def Let_def split: option.splits)

lemma store_save_over:
  "ts_tasks s (task_id t) = Some prev \<Longrightarrow> store_save s now t = Inr s' \<longleftrightarrow>
   task_id t \<noteq> '''' \<and> state prev \<noteq> StateCanceled \<and>
   (\<forall>owner. ts_by_name s (task_name t) = Some owner \<longrightarrow> owner = task_id t) \<and>
   s' = s\<lparr>ts_tasks := (ts_tasks s)(task_id t \<mapsto> saved_over prev t now),
          ts_by_time := reindex_time (ts_by_time s) (saved_over prev t now)\<rparr>"
  by (auto simp: store_save_def saved_over_def Let_def split: option.splits)

section \<open>The operations keep the invariant\<close>

lemma store_mark_ready_inv: "store_inv s \<Longrightarrow> store_mark_ready s now i = Inr (s', t) \<Longrightarrow> store_inv s'"
  by (auto simp: store_results intro!: store_inv_put)

lemma store_transition_inv:
  "store_inv s \<Longrightarrow> store_transition s now i from to e = Inr (Some (s', t)) \<Longrightarrow>
   (to = StatePending \<Longrightarrow> from = StatePending) \<Longrightarrow> store_inv s'"
  by (auto simp: store_results intro!: store_inv_put)

lemma store_set_next_run_inv: "store_inv s \<Longrightarrow> store_set_next_run s now i next = Inr s' \<Longrightarrow> store_inv s'"
  by (auto simp: store_results intro!: store_inv_reindexed)

lemma store_retry_inv: "store_inv s \<Longrightarrow> store_retry s now1 now2 i next e = Inr (s', t) \<Longrightarrow> store_inv s'"
  by (auto simp: store_results intro!: store_inv_reindexed)

lemma store_delete_inv: "store_inv s \<Longrightarrow> store_delete s i = Inr s' \<Longrightarrow> store_inv s'"
  by (auto simp: store_results store_inv_def names_exact_remove store_sound_remove pending_listed_strip)

text \<open>A \<open>Save\<close> keeps every part of the invariant but the names, and those too unless it renames.\<close>

definition renames :: "task_store \<Rightarrow> task \<Rightarrow> bool" where
  "renames s t \<longleftrightarrow> (case ts_tasks s (task_id t) of None \<Rightarrow> False | Some prev \<Rightarrow> task_name prev \<noteq> task_name t)"

lemma store_save_sound:
  assumes "store_sound s" and save: "store_save s now t = Inr s'"
  shows "store_sound s'"
proof (cases "ts_tasks s (task_id t)")
  case (Some prev)
  with save show ?thesis by (auto simp: store_save_over saved_over_def intro!: store_sound_reindexed assms)
next
  case None
  let ?cp = "t\<lparr>version := 1, created_at := now, updated_at := now\<rparr>"
  from None save store_sound_insert [OF assms(1), of ?cp] show ?thesis by (simp add: store_save_new Let_def)
qed

lemma store_save_pending:
  assumes "store_sound s" and ok: "pending_listed (ts_tasks s) (ts_by_time s)" and save: "store_save s now t = Inr s'"
  shows "pending_listed (ts_tasks s') (ts_by_time s')"
proof (cases "ts_tasks s (task_id t)")
  case (Some prev)
  then have "task_id prev = task_id t" using store_soundD(1) [OF assms(1)] by blast
  with Some save pending_listed_reindex [OF ok, of "saved_over prev t now"] show ?thesis
    by (simp add: store_save_over saved_over_def)
next
  case None
  let ?cp = "t\<lparr>version := 1, created_at := now, updated_at := now\<rparr>"
  from None save pending_listed_index [OF ok, of ?cp] show ?thesis by (simp add: store_save_new Let_def)
qed

lemma store_save_names:
  assumes ok: "names_exact s" and save: "store_save s now t = Inr s'" and keeps: "\<not> renames s t"
  shows "names_exact s'"
proof (cases "ts_tasks s (task_id t)")
  case (Some prev)
  with save keeps names_exact_put(1) [OF ok Some, of "saved_over prev t now"] show ?thesis
    by (simp add: store_save_over saved_over_def renames_def)
next
  case None
  let ?cp = "t\<lparr>version := 1, created_at := now, updated_at := now\<rparr>"
  from None save names_exact_insert [OF ok, of ?cp] show ?thesis by (simp add: store_save_new Let_def)
qed

lemma store_save_inv:
  assumes inv: "store_inv s" and save: "store_save s now t = Inr s'"
    and keeps: "\<And>prev. ts_tasks s (task_id t) = Some prev \<Longrightarrow> task_name prev = task_name t"
  shows "store_inv s'"
proof -
  have "\<not> renames s t" using keeps by (simp add: renames_def split: option.splits)
  then show ?thesis using inv store_save_sound store_save_pending store_save_names save unfolding store_inv_def by blast
qed

section \<open>Scanning and listing\<close>

lemma due_of_Some:
  "due_of s now i = Some t \<longleftrightarrow> ts_tasks s i = Some t \<and> state t = StatePending \<and> next_run_at t \<le> now"
  by (auto simp: due_of_def split: option.splits)

definition due_under :: "task_store \<Rightarrow> instant \<Rightarrow> int \<Rightarrow> task list" where
  "due_under s now key =
     (if now < key then [] else
        case ts_by_time s key of None \<Rightarrow> [] | Some ids \<Rightarrow> List.map_filter (due_of s now) ids)"

lemma due_under_iff:
  "t \<in> set (due_under s now key) \<longleftrightarrow>
   key \<le> now \<and> (\<exists>ids i. ts_by_time s key = Some ids \<and> i \<in> set ids \<and> due_of s now i = Some t)"
  by (cases "ts_by_time s key") (auto simp: due_under_def map_filter_Some_iff)

lemma due_under_key:
  assumes "store_inv s" and "t \<in> set (due_under s now key)"
  shows "unix_nano (next_run_at t) = key" and "ts_tasks s (task_id t) = Some t"
proof -
  obtain ids i where i: "ts_by_time s key = Some ids" "i \<in> set ids" "due_of s now i = Some t"
    using assms(2) by (auto simp: due_under_iff)
  then have t: "ts_tasks s i = Some t" by (simp add: due_of_Some)
  show "unix_nano (next_run_at t) = key"
    using times_listedD(3) [OF store_invD(5) [OF assms(1)] i(1,2)] t by simp
  show "ts_tasks s (task_id t) = Some t" using store_invD(1) [OF assms(1) t] t by simp
qed

lemma due_under_distinct:
  assumes "store_inv s"
  shows "distinct (map task_id (due_under s now key))"
proof -
  have "distinct ids" if "ts_by_time s key = Some ids" for ids
    by (rule times_listedD(2) [OF store_invD(5) [OF assms] that])
  moreover have "task_id t = i" if "due_of s now i = Some t" for i t
    using that store_invD(1) [OF assms] by (simp add: due_of_Some)
  ultimately show ?thesis
    by (auto simp: due_under_def split: option.splits intro!: distinct_map_filter)
qed

lemma scan_due_unsorted:
  assumes inv: "store_inv s" and keys: "set keys = dom (ts_by_time s)" "distinct keys"
  shows "distinct (map task_id (concat (map (due_under s now) keys)))"
    and "t \<in> set (concat (map (due_under s now) keys)) \<longleftrightarrow>
      unix_nano (next_run_at t) \<le> now \<and> ts_tasks s (task_id t) = Some t \<and>
      state t = StatePending \<and> next_run_at t \<le> now"
proof -
  show "distinct (map task_id (concat (map (due_under s now) keys)))"
  proof (rule distinct_map_concat [OF keys(2) due_under_distinct [OF inv]])
    show "unix_nano (next_run_at x) = k" if "x \<in> set (due_under s now k)" for k x
      using due_under_key(1) [OF inv that] .
    fix k x k' y assume "x \<in> set (due_under s now k)" "y \<in> set (due_under s now k')" "task_id x = task_id y"
    with due_under_key(2) [OF inv] show "x = y" by (metis option.inject)
  qed
  show "t \<in> set (concat (map (due_under s now) keys)) \<longleftrightarrow>
      unix_nano (next_run_at t) \<le> now \<and> ts_tasks s (task_id t) = Some t \<and>
      state t = StatePending \<and> next_run_at t \<le> now" (is "?l \<longleftrightarrow> ?r")
  proof
    assume ?l
    then obtain k where k: "t \<in> set (due_under s now k)" by auto
    with due_under_key [OF inv k] show ?r by (auto simp: due_under_iff due_of_Some)
  next
    assume r: ?r
    then obtain ids where "ts_by_time s (unix_nano (next_run_at t)) = Some ids" "task_id t \<in> set ids"
      using pending_listedD [OF store_invD(6) [OF inv], of "task_id t" t] by auto
    with r have "t \<in> set (due_under s now (unix_nano (next_run_at t)))"
      by (auto simp: due_under_iff due_of_Some)
    moreover have "unix_nano (next_run_at t) \<in> set keys"
      using \<open>ts_by_time s (unix_nano (next_run_at t)) = Some ids\<close> keys(1) by blast
    ultimately show ?l by auto
  qed
qed

lemma store_scan_due_alt:
  "store_scan_due s keys now = sort_key (\<lambda>t. - priority t) (concat (map (due_under s now) keys))"
  by (simp add: store_scan_due_def due_under_def [abs_def])

section \<open>Runs of store operations\<close>

text \<open>
  One step of the store: any of its operations that changes it, with any arguments.
\<close>

inductive store_step :: "task_store \<Rightarrow> task_store \<Rightarrow> bool" where
  step_save: "store_save s now t = Inr s' \<Longrightarrow> store_step s s'"
| step_mark_ready: "store_mark_ready s now i = Inr (s', t) \<Longrightarrow> store_step s s'"
| step_transition: "store_transition s now i from to e = Inr (Some (s', t)) \<Longrightarrow> store_step s s'"
| step_set_state: "store_set_state s now i to = Inr (s', t) \<Longrightarrow> store_step s s'"
| step_set_next_run: "store_set_next_run s now i next = Inr s' \<Longrightarrow> store_step s s'"
| step_retry: "store_retry s now1 now2 i next e = Inr (s', t) \<Longrightarrow> store_step s s'"
| step_delete: "store_delete s i = Inr s' \<Longrightarrow> store_step s s'"
| step_reset: "store_step s (store_reset s)"

text \<open>
  Runs from the new store. A run remembers whether a task has been renamed, or made pending by
  a change of its state, since the last \<open>Reset\<close>: a step does so when it gives a stored task
  another name, or finds it in another state and leaves it pending.
\<close>

definition step_renames :: "task_store \<Rightarrow> task_store \<Rightarrow> bool" where
  "step_renames s s' \<longleftrightarrow>
     (\<exists>i t t'. ts_tasks s i = Some t \<and> ts_tasks s' i = Some t' \<and> task_name t \<noteq> task_name t')"

definition step_repends :: "task_store \<Rightarrow> task_store \<Rightarrow> bool" where
  "step_repends s s' \<longleftrightarrow>
     (\<exists>i t t'. ts_tasks s i = Some t \<and> ts_tasks s' i = Some t' \<and> state t \<noteq> StatePending \<and> state t' = StatePending)"

inductive store_run :: "bool \<Rightarrow> bool \<Rightarrow> task_store \<Rightarrow> bool" where
  run_new: "store_run False False store_new"
| run_step: "store_run renamed repended s \<Longrightarrow> store_step s s' \<Longrightarrow>
     store_run (renamed \<or> step_renames s s') (repended \<or> step_repends s s') s'"
| run_reset: "store_run renamed repended s \<Longrightarrow> store_run False False (store_reset s)"

lemma store_set_state_Inr [store_results]:
  "store_set_state s now i to = Inr (s', t') \<longleftrightarrow>
   (\<exists>t. ts_tasks s i = Some t \<and> t' = t\<lparr>state := to, version := version t + 1, updated_at := now\<rparr> \<and>
      s' = s\<lparr>ts_tasks := (ts_tasks s)(i \<mapsto> t')\<rparr>)"
  by (auto simp: store_set_state_def Let_def split: option.splits)

lemma store_step_sound: "store_step s s' \<Longrightarrow> store_sound s \<Longrightarrow> store_sound s'"
proof (induction rule: store_step.induct)
  case step_save
  then show ?case by (blast intro: store_save_sound)
next
  case (step_reset s)
  show ?case using store_inv_reset by (simp add: store_inv_def)
qed (auto simp: store_results intro!: store_sound_put store_sound_reindexed store_sound_remove)

lemma store_step_names: "store_step s s' \<Longrightarrow> names_exact s \<Longrightarrow> \<not> step_renames s s' \<Longrightarrow> names_exact s'"
proof (induction rule: store_step.induct)
  case (step_save s now t s')
  have "\<not> renames s t"
  proof
    assume "renames s t"
    then obtain prev where "ts_tasks s (task_id t) = Some prev" "task_name prev \<noteq> task_name t"
      by (auto simp: renames_def split: option.splits)
    moreover from this(1) have "\<exists>u. ts_tasks s' (task_id t) = Some u \<and> task_name u = task_name t"
      using step_save(1) by (auto simp: store_save_over saved_over_def)
    ultimately show False using step_save(3) unfolding step_renames_def by metis
  qed
  with step_save show ?case by (blast intro: store_save_names)
next
  case (step_reset s)
  show ?case using store_inv_reset by (simp add: store_inv_def)
qed (auto simp: store_results intro!: names_exact_put names_exact_remove)

lemma pending_listed_put:
  assumes ok: "pending_listed (ts_tasks s) (ts_by_time s)" and t: "ts_tasks s i = Some t" "next_run_at t' = next_run_at t"
    and stays: "\<not> step_repends s (s\<lparr>ts_tasks := (ts_tasks s)(i \<mapsto> t')\<rparr>)"
  shows "pending_listed ((ts_tasks s)(i \<mapsto> t')) (ts_by_time s)"
proof (rule pending_listed_update [OF ok t])
  assume p: "state t' = StatePending"
  show "state t = StatePending"
  proof (rule ccontr)
    assume "state t \<noteq> StatePending"
    with p t(1) have "step_repends s (s\<lparr>ts_tasks := (ts_tasks s)(i \<mapsto> t')\<rparr>)"
      unfolding step_repends_def by (intro exI [of _ i] exI [of _ t] exI [of _ t']) simp
    with stays show False ..
  qed
qed

lemma store_step_pending:
  "store_step s s' \<Longrightarrow> store_sound s \<Longrightarrow> pending_listed (ts_tasks s) (ts_by_time s) \<Longrightarrow> \<not> step_repends s s' \<Longrightarrow>
   pending_listed (ts_tasks s') (ts_by_time s')"
proof (induction rule: store_step.induct)
  case step_save
  then show ?case by (blast intro: store_save_pending)
next
  case (step_transition s now i st0 st1 e s' t)
  then obtain u where u: "ts_tasks s i = Some u" "next_run_at t = next_run_at u"
    and s': "s' = s\<lparr>ts_tasks := (ts_tasks s)(i \<mapsto> t)\<rparr>" by (auto simp: store_results)
  from pending_listed_put [OF step_transition(3) u] step_transition(4) s' show ?case by (simp add: fun_upd_def)
next
  case (step_set_state s now i st1 s' t)
  then obtain u where u: "ts_tasks s i = Some u" "next_run_at t = next_run_at u"
    and s': "s' = s\<lparr>ts_tasks := (ts_tasks s)(i \<mapsto> t)\<rparr>" by (auto simp: store_results)
  from pending_listed_put [OF step_set_state(3) u] step_set_state(4) s' show ?case by (simp add: fun_upd_def)
next
  case (step_set_next_run s now i nxt s')
  then obtain t where t: "ts_tasks s i = Some t" "task_id t = i"
    and s': "s' = s\<lparr>ts_tasks := (ts_tasks s)(i \<mapsto> t\<lparr>next_run_at := nxt, updated_at := now\<rparr>),
      ts_by_time := reindex_time (ts_by_time s) (t\<lparr>next_run_at := nxt, updated_at := now\<rparr>)\<rparr>"
    using store_soundD(1) by (auto simp: store_results)
  with pending_listed_reindex [OF step_set_next_run(3), of "t\<lparr>next_run_at := nxt, updated_at := now\<rparr>"] show ?case by (simp add: fun_upd_def)
next
  case (step_retry s now1 now2 i nxt e s' t')
  then have "ts_tasks s' = (ts_tasks s)(task_id t' \<mapsto> t')" "ts_by_time s' = reindex_time (ts_by_time s) t'"
    using store_soundD(1) by (auto simp: store_results)
  with pending_listed_reindex [OF step_retry(3), of t'] show ?case by (simp add: fun_upd_def)
next
  case (step_reset s)
  show ?case using store_inv_reset by (simp add: store_inv_def)
qed (auto simp: store_results intro!: pending_listed_update pending_listed_strip)

text \<open>Steps that delete no task: along them the version of a task never falls.\<close>

definition store_live_step :: "task_store \<Rightarrow> task_store \<Rightarrow> bool" where
  "store_live_step s s' \<longleftrightarrow> store_step s s' \<and> dom (ts_tasks s) \<subseteq> dom (ts_tasks s')"

lemma store_step_version:
  assumes "store_step s s'" and t: "ts_tasks s i = Some t" and t': "ts_tasks s' i = Some t'"
  shows "version t \<le> version t'"
  using assms(1)
proof cases
  case (step_save now u)
  show ?thesis
  proof (cases "ts_tasks s (task_id u)")
    case None
    then show ?thesis using step_save(1) t t' by (auto simp: store_save_new Let_def split: if_splits)
  next
    case (Some prev)
    then show ?thesis using step_save(1) t t' by (auto simp: store_save_over saved_over_def split: if_splits)
  qed
next
  case step_retry
  then show ?thesis using t t' by (auto simp: store_results split: if_splits)
qed (insert t t', auto simp: store_results store_reset_def split: if_splits)

lemma store_live_steps_version:
  assumes "store_live_step\<^sup>*\<^sup>* s s'"
  shows "ts_tasks s i = Some t \<Longrightarrow> \<exists>t'. ts_tasks s' i = Some t' \<and> version t \<le> version t'"
  using assms
proof (induction rule: rtranclp_induct)
  case (step y z)
  then obtain u where u: "ts_tasks y i = Some u" "version t \<le> version u" by blast
  with step.hyps(2) obtain v where "ts_tasks z i = Some v" by (auto simp: store_live_step_def)
  with store_step_version [OF _ u(1), of z] step.hyps(2) u(2) show ?case
    by (fastforce simp: store_live_step_def)
qed auto

text \<open>A store with two pending tasks, for the concrete instances.\<close>

definition demo_store :: task_store where
  "demo_store =
     (let a = (demo_task ''a'' ''first'' 1 10)\<lparr>version := 1\<rparr>; b = (demo_task ''b'' ''second'' 5 20)\<lparr>version := 1\<rparr>
      in \<lparr>ts_tasks = [''a'' \<mapsto> a, ''b'' \<mapsto> b], ts_by_name = [''first'' \<mapsto> ''a'', ''second'' \<mapsto> ''b''],
          ts_by_time = [10 \<mapsto> [''a''], 20 \<mapsto> [''b'']]\<rparr>)"

lemma wrap64_numerals [simp]: "wrap64 10 = 10" "wrap64 20 = 20"
  by (simp_all add: in_int64_def)

lemma demo_store_saves:
  "store_save store_new 0 (demo_task ''a'' ''first'' 1 10) = Inr
     \<lparr>ts_tasks = [''a'' \<mapsto> (demo_task ''a'' ''first'' 1 10)\<lparr>version := 1\<rparr>],
      ts_by_name = [''first'' \<mapsto> ''a''], ts_by_time = [10 \<mapsto> [''a'']]\<rparr>"
  "store_save \<lparr>ts_tasks = [''a'' \<mapsto> (demo_task ''a'' ''first'' 1 10)\<lparr>version := 1\<rparr>],
      ts_by_name = [''first'' \<mapsto> ''a''], ts_by_time = [10 \<mapsto> [''a'']]\<rparr> 0 (demo_task ''b'' ''second'' 5 20) = Inr demo_store"
  by (simp_all add: store_save_def store_new_def demo_task_def demo_store_def index_time_def unix_nano_def Let_def)

lemma demo_store_run: "store_run False False demo_store"
proof -
  let ?one = "\<lparr>ts_tasks = [''a'' \<mapsto> (demo_task ''a'' ''first'' 1 10)\<lparr>version := 1\<rparr>],
      ts_by_name = [''first'' \<mapsto> ''a''], ts_by_time = [10 \<mapsto> [''a'']]\<rparr>"
  have "\<not> step_renames store_new ?one" "\<not> step_repends store_new ?one"
    "\<not> step_renames ?one demo_store" "\<not> step_repends ?one demo_store"
    by (auto simp: step_renames_def step_repends_def store_new_def demo_store_def Let_def split: if_splits)
  with run_step [OF run_step [OF run_new step_save [OF demo_store_saves(1)]] step_save [OF demo_store_saves(2)]]
  show ?thesis by simp
qed

lemma demo_store_inv: "store_inv demo_store"
proof -
  note saved = store_save_inv [OF store_inv_new demo_store_saves(1)]
  have "store_inv \<lparr>ts_tasks = [''a'' \<mapsto> (demo_task ''a'' ''first'' 1 10)\<lparr>version := 1\<rparr>],
      ts_by_name = [''first'' \<mapsto> ''a''], ts_by_time = [10 \<mapsto> [''a'']]\<rparr>"
    by (rule saved) (simp add: store_new_def)
  then show ?thesis by (rule store_save_inv [OF _ demo_store_saves(2)]) (simp add: demo_task_def)
qed

section \<open>Properties\<close>

text \<open>
  C28. Along every run of store operations, whatever the arguments, ids and keys agree and the
  time index lists each id once, under the next run time of its task. As long as no \<open>Save\<close> has
  renamed a stored task since the last \<open>Reset\<close>, the name index is exactly the names of the
  stored tasks (so no two share a name), and as long as no operation has turned a task back to
  pending, the time index lists every pending task. (Of the program's calls only those of
  \<open>Import\<close> can rename, for a snapshot that lists an id twice, and none turns a task back to pending.)
\<close>

theorem store_runs_keep_invariant:
  "store_run renamed repended s \<Longrightarrow>
   store_sound s \<and> (\<not> renamed \<longrightarrow> names_exact s) \<and> (\<not> repended \<longrightarrow> pending_listed (ts_tasks s) (ts_by_time s))"
proof (induction rule: store_run.induct)
  case run_new
  show ?case using store_inv_new by (simp add: store_inv_def)
next
  case (run_step renamed repended s s')
  then show ?case using store_step_sound store_step_names store_step_pending by blast
next
  case (run_reset renamed repended s)
  show ?case using store_inv_reset by (simp add: store_inv_def)
qed

theorem store_runs_keep_invariant_witness:
  "names_exact demo_store \<and> (\<exists>s. store_save demo_store 3 (demo_task ''a'' ''renamed'' 1 10) = Inr s \<and>
     ts_by_name s ''renamed'' = None \<and> store_sound s \<and> pending_listed (ts_tasks s) (ts_by_time s))"
proof -
  obtain s where s: "store_save demo_store 3 (demo_task ''a'' ''renamed'' 1 10) = Inr s" and n: "ts_by_name s ''renamed'' = None"
    by (simp add: store_save_def demo_store_def demo_task_def Let_def)
  have "\<not> step_repends demo_store s"
    using s by (auto simp: step_repends_def store_save_def demo_store_def demo_task_def Let_def split: if_splits)
  then have "store_run (step_renames demo_store s) False s"
    using run_step [OF demo_store_run step_save [OF s]] by simp
  from store_runs_keep_invariant [OF this] store_runs_keep_invariant [OF demo_store_run] s n show ?thesis by blast
qed

text \<open>
  \<open>Save\<close> refuses a task for exactly three reasons, checked in this order: it has no id,
  its id belongs to a canceled task, its name belongs to another stored task.
\<close>

theorem store_save_refuses:
  assumes "store_inv s"
  shows "store_save s now t = Inl e \<longleftrightarrow>
    (if task_id t = '''' then e = ErrIDRequired
     else if \<exists>u. ts_tasks s (task_id t) = Some u \<and> state u = StateCanceled then e = ErrAlreadyCanceled
     else (\<exists>j u. ts_tasks s j = Some u \<and> j \<noteq> task_id t \<and> task_name u = task_name t) \<and> e = ErrDuplicateName)"
proof -
  have "(\<exists>j u. ts_tasks s j = Some u \<and> j \<noteq> task_id t \<and> task_name u = task_name t) \<longleftrightarrow>
      (\<exists>owner. ts_by_name s (task_name t) = Some owner \<and> owner \<noteq> task_id t)"
    using store_invD(3,4) [OF assms] by metis
  then show ?thesis by (auto simp: store_save_def Let_def split: option.splits)
qed

theorem store_save_refuses_witness:
  "store_save demo_store 0 (demo_task ''c'' ''first'' 0 0) = Inl ErrDuplicateName"
  unfolding store_save_refuses [OF demo_store_inv]
  by (auto simp: demo_store_def demo_task_def intro!: exI [of _ "''a''"])

text \<open>
  A version guard is passed at most once: after a transition that was guarded by version
  \<open>e\<close> succeeded, whatever the store does next (as long as the task is not deleted), no
  transition and no retry of that task guarded by \<open>e\<close> succeeds again.
\<close>

theorem store_version_guard_once:
  assumes "store_transition s now i from to e = Inr (Some (s1, t1))" and "0 \<le> e"
    and "store_live_step\<^sup>*\<^sup>* s1 s2"
  shows "store_transition s2 now' i from' to' e = Inr None \<and>
    store_retry s2 now1 now2 i next e = Inl ErrConflict"
proof -
  have "ts_tasks s1 i = Some t1" "version t1 = e + 1"
    using assms(1,2) by (auto simp: store_results)
  with store_live_steps_version [OF assms(3)] obtain t2
    where t2: "ts_tasks s2 i = Some t2" "e < version t2" by fastforce
  then show ?thesis using assms(2) by (auto simp: store_transition_def store_retry_def)
qed

theorem store_version_guard_once_witness:
  "\<exists>s1 t1. store_transition demo_store 7 ''a'' StatePending StateReady 1 = Inr (Some (s1, t1)) \<and>
     store_transition s1 8 ''a'' StateReady StateLeased 1 = Inr None"
proof -
  obtain s1 t1 where st: "store_transition demo_store 7 ''a'' StatePending StateReady 1 = Inr (Some (s1, t1))"
    by (simp add: store_transition_def demo_store_def demo_task_def Let_def)
  have "store_transition s1 8 ''a'' StateReady StateLeased 1 = Inr None"
    using store_version_guard_once [OF st] by simp
  with st show ?thesis by blast
qed

text \<open>
  C29. On a store that meets its invariant, \<open>ScanDue\<close> returns exactly the pending tasks whose next
  run time has come, each once, in descending priority, whatever order the index is walked in
  (for next run times that the 64-bit nanosecond key represents).
\<close>

theorem store_scan_due_exact:
  assumes inv: "store_inv s" and keys: "set keys = dom (ts_by_time s)" "distinct keys"
    and range: "\<forall>i t. ts_tasks s i = Some t \<longrightarrow> in_int64 (next_run_at t)"
  shows "set (store_scan_due s keys now) =
      {t. \<exists>i. ts_tasks s i = Some t \<and> state t = StatePending \<and> next_run_at t \<le> now} \<and>
    distinct (map task_id (store_scan_due s keys now)) \<and>
    sorted_wrt (\<lambda>a b. priority b \<le> priority a) (store_scan_due s keys now)"
proof -
  let ?L = "concat (map (due_under s now) keys)"
  have key: "unix_nano (next_run_at t) = next_run_at t" if "ts_tasks s i = Some t" for i t
    using range that by (simp add: unix_nano_def)
  have "set ?L = {t. \<exists>i. ts_tasks s i = Some t \<and> state t = StatePending \<and> next_run_at t \<le> now}"
  proof (intro set_eqI)
    fix t
    show "t \<in> set ?L \<longleftrightarrow> t \<in> {t. \<exists>i. ts_tasks s i = Some t \<and> state t = StatePending \<and> next_run_at t \<le> now}"
      unfolding scan_due_unsorted(2) [OF inv keys] using key store_invD(1) [OF inv] by fastforce
  qed
  moreover have "mset (map task_id (sort_key (\<lambda>t. - priority t) ?L)) = mset (map task_id ?L)" by simp
  then have "distinct (map task_id (sort_key (\<lambda>t. - priority t) ?L))"
    using scan_due_unsorted(1) [OF inv keys] by (metis mset_eq_imp_distinct_iff)
  moreover have "sorted_wrt (\<lambda>a b. priority b \<le> priority a) (sort_key (\<lambda>t. - priority t) ?L)"
    using sorted_sort_key [of "\<lambda>t. - priority t" ?L] by (simp add: sorted_map)
  ultimately show ?thesis by (simp add: store_scan_due_alt)
qed

theorem store_scan_due_exact_witness:
  "set (store_scan_due demo_store [20, 10] 20) = {t. \<exists>i. ts_tasks demo_store i = Some t \<and> state t = StatePending \<and> next_run_at t \<le> 20} \<and>
   map task_id (store_scan_due demo_store [10, 20] 20) = [''b'', ''a'']"
proof -
  have keys: "set [20, 10] = dom (ts_by_time demo_store)" "distinct [20, 10 :: int]"
    by (auto simp: demo_store_def)
  have range: "\<forall>i t. ts_tasks demo_store i = Some t \<longrightarrow> in_int64 (next_run_at t)"
    by (auto simp: demo_store_def demo_task_def in_int64_def split: if_splits)
  show ?thesis
    using store_scan_due_exact [OF demo_store_inv keys range, of 20]
    by (simp add: store_scan_due_def demo_store_def due_of_def demo_task_def List.map_filter_def)
qed

text \<open>
  \<open>List\<close> pages through the tasks in creation order: with a limit and an offset that do
  not overflow it returns that slice of one fixed list, which holds every task once, sorted
  by creation time; when creation times differ, that list does not depend on the order the
  map is walked in.
\<close>

theorem store_list_pages:
  assumes its: "set its = dom (ts_tasks s)" "distinct its" "set its' = dom (ts_tasks s)" "distinct its'"
    and page: "0 \<le> offset" "0 < limit" "in_int64 (offset + limit)"
    and diff: "inj_on created_at (ran (ts_tasks s))" and inv: "store_inv s"
  shows "\<exists>all. set all = ran (ts_tasks s) \<and> distinct (map task_id all) \<and> sorted (map created_at all) \<and>
    store_list s its limit offset = Some (take (nat limit) (drop (nat offset) all)) \<and>
    store_list s its' limit offset = store_list s its limit offset"
proof -
  let ?m = "\<lambda>xs. List.map_filter (ts_tasks s) xs"
  let ?all = "sort_key created_at (?m its)"
  have set_m: "set (?m xs) = ran (ts_tasks s)" if "set xs = dom (ts_tasks s)" for xs
    using that by (force simp: map_filter_Some_iff ran_def)
  have dist_m: "distinct (map task_id (?m xs))" if "distinct xs" for xs
    using store_invD(1) [OF inv] that by (intro distinct_map_filter) auto
  have "mset (?m its') = mset (?m its)"
    using set_m its dist_m by (metis distinct_map set_eq_iff_mset_eq_distinct)
  then have same: "sort_key created_at (?m its') = ?all"
    using sort_key_inj_key_eq [of "?m its'" "?all" created_at] diff set_m [OF its(3)] by simp
  have sl: "store_list s its limit offset = Some (take (nat limit) (drop (nat offset) ?all))"
    using page by (auto simp: store_list_def Let_def nat_add_distrib)
  have "mset (map task_id ?all) = mset (map task_id (?m its))" by simp
  then have "distinct (map task_id ?all)" using dist_m [OF its(2)] by (metis mset_eq_imp_distinct_iff)
  moreover have "store_list s its' limit offset = store_list s its limit offset"
    unfolding store_list_def same by simp
  ultimately show ?thesis using sl set_m [OF its(1)] by (intro exI [of _ ?all]) simp
qed

theorem store_list_pages_witness:
  "\<exists>all. set all = ran (ts_tasks (demo_store\<lparr>ts_tasks := [''a'' \<mapsto> (demo_task ''a'' ''first'' 1 10)\<lparr>created_at := 3\<rparr>]\<rparr>)) \<and>
     distinct (map task_id all)"
proof -
  let ?t = "(demo_task ''a'' ''first'' 1 10)\<lparr>created_at := 3\<rparr>"
  let ?s = "demo_store\<lparr>ts_tasks := [''a'' \<mapsto> ?t], ts_by_name := [''first'' \<mapsto> ''a''], ts_by_time := [10 \<mapsto> [''a'']]\<rparr>"
  have dom: "set [''a''] = dom (ts_tasks ?s)" by auto
  have inv: "store_inv ?s"
    by (auto simp: store_inv_def store_sound_def names_exact_def times_listed_def pending_listed_def demo_task_def unix_nano_def)
  have page: "in_int64 (0 + 5)" by (simp add: in_int64_def)
  show ?thesis
    using store_list_pages [OF dom _ dom _ _ _ page _ inv] by auto
qed

text \<open>
  An overwrite that changes the name leaves the name index behind: the old name stays
  bound to the task and the new one is not bound, so another task can be saved under it.
\<close>

theorem store_save_rename_leaves_index:
  assumes inv: "store_inv s" and prev: "ts_tasks s (task_id t) = Some prev"
    and rename: "task_name prev \<noteq> task_name t" and save: "store_save s now t = Inr s'"
  shows "ts_by_name s' (task_name prev) = Some (task_id t) \<and> ts_by_name s' (task_name t) = None \<and>
    (\<forall>u. task_id u \<noteq> '''' \<and> ts_tasks s' (task_id u) = None \<and> task_name u = task_name t \<longrightarrow>
      (\<exists>s''. store_save s' now u = Inr s''))"
proof -
  have s': "ts_by_name s' = ts_by_name s" and own: "\<forall>owner. ts_by_name s (task_name t) = Some owner \<longrightarrow> owner = task_id t"
    using save prev by (auto simp: store_save_over)
  have "ts_by_name s (task_name t) = None"
  proof (cases "ts_by_name s (task_name t)")
    case (Some owner)
    with store_invD(4) [OF inv Some] own prev rename show ?thesis by auto
  qed
  with s' store_invD(3) [OF inv prev] show ?thesis by (auto simp: store_save_new)
qed

theorem store_save_rename_leaves_index_witness:
  "\<exists>s'. store_save demo_store 3 (demo_task ''a'' ''renamed'' 1 10) = Inr s' \<and> ts_by_name s' ''renamed'' = None"
proof -
  let ?t = "demo_task ''a'' ''renamed'' 1 10"
  have prev: "ts_tasks demo_store (task_id ?t) = Some ((demo_task ''a'' ''first'' 1 10)\<lparr>version := 1\<rparr>)"
    by (simp add: demo_store_def demo_task_def)
  obtain s' where save: "store_save demo_store 3 ?t = Inr s'"
    by (simp add: store_save_def demo_store_def demo_task_def Let_def)
  from store_save_rename_leaves_index [OF demo_store_inv prev _ save] have "ts_by_name s' ''renamed'' = None"
    by (simp add: demo_task_def)
  with save show ?thesis by blast
qed

end
