(* ===== verification/WorkerContract.thy ===== *)
theory WorkerContract
  imports TaskModel
begin

text \<open>
  The interface \<open>WorkerPicker\<close> of \<open>internal/lease/manager.go\<close>: what the lease manager
  relies on when it asks for a worker. \<open>live r now n\<close> says that the provider in state \<open>r\<close>
  holds the worker \<open>n\<close> alive at \<open>now\<close>.
\<close>

datatype worker_error = ErrNoWorker | ErrWorkerIDRequired | ErrWorkerNotRegistered

locale worker_picker =
  fixes live :: "'r \<Rightarrow> instant \<Rightarrow> worker_node \<Rightarrow> bool"
    and pick :: "'r \<Rightarrow> instant \<Rightarrow> worker_error + worker_node"
  assumes pick_live: "pick r now = Inr n \<Longrightarrow> live r now n"
    and pick_none: "pick r now = Inl e \<Longrightarrow> e = ErrNoWorker \<and> \<not> live r now n"
begin

lemma pick_some_live: "live r now n \<Longrightarrow> \<exists>n'. pick r now = Inr n' \<and> live r now n'"
proof (cases "pick r now")
  case (Inl e)
  then show "live r now n \<Longrightarrow> ?thesis" using pick_none by blast
next
  case (Inr n')
  then show ?thesis using pick_live by blast
qed

lemma pick_fails_iff: "pick r now = Inl ErrNoWorker \<longleftrightarrow> (\<forall>n. \<not> live r now n)"
proof (cases "pick r now")
  case (Inl e)
  with pick_none [OF Inl] show ?thesis by auto
next
  case (Inr n)
  with pick_live [OF Inr] show ?thesis by auto
qed

end

end
