(* ===== verification/Registry.thy ===== *)
theory Registry
  imports WorkerContract
begin

text \<open>
  \<open>internal/worker/registry.go\<close>: the roster of workers, a map from ids to nodes and the
  order of first registration. \<open>now\<close> is what \<open>Register\<close> reads from the injected clock. Where
  the code ranges over the map, the iteration order is the argument \<open>its\<close>.
\<close>

section \<open>The code\<close>

record registry =
  rg_nodes :: "string \<rightharpoonup> worker_node"
  rg_order :: "string list"
  rg_window :: duration

definition registry_new :: "duration \<Rightarrow> registry" where
  "registry_new window = \<lparr>rg_nodes = Map.empty, rg_order = [], rg_window = window\<rparr>"

text \<open>\<open>Register\<close>: the node is \<open>None\<close> for a nil pointer.\<close>

definition registry_register :: "registry \<Rightarrow> instant \<Rightarrow> worker_node option \<Rightarrow> worker_error + registry" where
  "registry_register r now node =
     (case node of
        None \<Rightarrow> Inl ErrWorkerIDRequired
      | Some n \<Rightarrow>
          if node_id n = '''' then Inl ErrWorkerIDRequired
          else
            case rg_nodes r (node_id n) of
              Some existing \<Rightarrow>
                Inr (r\<lparr>rg_nodes := (rg_nodes r)(node_id n \<mapsto>
                       existing\<lparr>generation := generation existing + 1, node_address := node_address n,
                                last_heartbeat := now\<rparr>)\<rparr>)
            | None \<Rightarrow>
                (let cp = n\<lparr>registered_at := now, last_heartbeat := now, generation := 1\<rparr>
                 in Inr (r\<lparr>rg_nodes := (rg_nodes r)(node_id n \<mapsto> cp), rg_order := rg_order r @ [node_id n]\<rparr>)))"

definition registry_heartbeat :: "registry \<Rightarrow> string \<Rightarrow> instant \<Rightarrow> worker_error + registry" where
  "registry_heartbeat r i now =
     (case rg_nodes r i of
        None \<Rightarrow> Inl ErrWorkerNotRegistered
      | Some n \<Rightarrow> Inr (r\<lparr>rg_nodes := (rg_nodes r)(i \<mapsto> n\<lparr>last_heartbeat := now\<rparr>)\<rparr>))"

definition pick_node :: "registry \<Rightarrow> instant \<Rightarrow> string \<Rightarrow> worker_node option" where
  "pick_node r cutoff i =
     (case rg_nodes r i of
        None \<Rightarrow> None
      | Some n \<Rightarrow> if last_heartbeat n < cutoff then None else Some n)"

definition registry_pick :: "registry \<Rightarrow> instant \<Rightarrow> worker_error + worker_node" where
  "registry_pick r now =
     (let cutoff = now - rg_window r in
      case first_some (pick_node r cutoff) (rg_order r) of
        Some n \<Rightarrow> Inr n
      | None \<Rightarrow> Inl ErrNoWorker)"

definition registry_offline_nodes :: "registry \<Rightarrow> string list \<Rightarrow> instant \<Rightarrow> string list" where
  "registry_offline_nodes r its now =
     (let cutoff = now - rg_window r in
      filter (\<lambda>i. case rg_nodes r i of None \<Rightarrow> False | Some n \<Rightarrow> last_heartbeat n < cutoff) its)"

definition registry_list :: "registry \<Rightarrow> string list \<Rightarrow> worker_node list" where
  "registry_list r its = List.map_filter (rg_nodes r) its"

section \<open>The roster's invariant\<close>

definition registry_inv :: "registry \<Rightarrow> bool" where
  "registry_inv r \<longleftrightarrow> set (rg_order r) = dom (rg_nodes r) \<and> distinct (rg_order r) \<and>
     rg_nodes r '''' = None \<and>
     (\<forall>i n. rg_nodes r i = Some n \<longrightarrow> node_id n = i \<and> 1 \<le> generation n)"

lemma registry_invD:
  assumes "registry_inv r"
  shows "set (rg_order r) = dom (rg_nodes r)" and "distinct (rg_order r)"
    and "rg_nodes r i = Some n \<Longrightarrow> node_id n = i" and "rg_nodes r i = Some n \<Longrightarrow> i \<noteq> ''''"
    and "rg_nodes r i = Some n \<Longrightarrow> 1 \<le> generation n"
  using assms unfolding registry_inv_def by auto

lemma registry_inv_new: "registry_inv (registry_new w)"
  by (simp add: registry_inv_def registry_new_def)

lemma registry_register_inv:
  assumes inv: "registry_inv r" and reg: "registry_register r now node = Inr r'"
  shows "registry_inv r'"
proof -
  obtain n where n: "node = Some n" "node_id n \<noteq> ''''"
    using reg by (auto simp: registry_register_def split: option.splits if_splits)
  show ?thesis
  proof (cases "rg_nodes r (node_id n)")
    case None
    then have "node_id n \<notin> set (rg_order r)" using registry_invD(1) [OF inv] by blast
    with reg n None inv show ?thesis by (auto simp: registry_register_def registry_inv_def Let_def split: if_splits)
  next
    case (Some m)
    have "0 \<le> generation m" using registry_invD(5) [OF inv Some] by simp
    with Some reg n inv show ?thesis by (auto simp: registry_register_def registry_inv_def split: if_splits)
  qed
qed

lemma registry_heartbeat_inv:
  assumes "registry_inv r" and "registry_heartbeat r i now = Inr r'"
  shows "registry_inv r'"
  using assms by (cases "rg_nodes r i") (auto simp: registry_heartbeat_def registry_inv_def split: if_splits)

section \<open>The provider of workers\<close>

text \<open>A worker is live when it is on the roster and its last heartbeat is inside the window.\<close>

definition worker_live :: "registry \<Rightarrow> instant \<Rightarrow> worker_node \<Rightarrow> bool" where
  "worker_live r now n \<longleftrightarrow>
     (\<exists>i \<in> set (rg_order r). rg_nodes r i = Some n) \<and> now - rg_window r \<le> last_heartbeat n"

lemma pick_node_Some:
  "pick_node r cutoff i = Some n \<longleftrightarrow> rg_nodes r i = Some n \<and> cutoff \<le> last_heartbeat n"
  by (auto simp: pick_node_def split: option.splits)

lemma pick_node_None:
  "pick_node r cutoff i = None \<longleftrightarrow> (\<forall>n. rg_nodes r i = Some n \<longrightarrow> last_heartbeat n < cutoff)"
  by (cases "rg_nodes r i") (auto simp: pick_node_def)

interpretation rp: worker_picker worker_live registry_pick
proof unfold_locales
  fix r now n assume "registry_pick r now = Inr n"
  then have "first_some (pick_node r (now - rg_window r)) (rg_order r) = Some n"
    by (simp add: registry_pick_def split: option.splits)
  from first_some_set [OF this] show "worker_live r now n"
    by (auto simp: worker_live_def pick_node_Some)
next
  fix r now e n assume p: "registry_pick r now = Inl e"
  then have "first_some (pick_node r (now - rg_window r)) (rg_order r) = None"
    by (simp add: registry_pick_def split: option.splits)
  then have "\<forall>i \<in> set (rg_order r). \<forall>n. rg_nodes r i = Some n \<longrightarrow> last_heartbeat n < now - rg_window r"
    by (simp add: pick_node_None)
  with p show "e = ErrNoWorker \<and> \<not> worker_live r now n"
    by (auto simp: worker_live_def registry_pick_def split: option.splits)
qed

section \<open>Properties\<close>

definition demo_registry :: registry where
  "demo_registry =
     \<lparr>rg_nodes = [''w1'' \<mapsto> \<lparr>node_id = ''w1'', node_address = ''a'', last_heartbeat = 3, registered_at = 0, generation = 1\<rparr>,
                  ''w2'' \<mapsto> \<lparr>node_id = ''w2'', node_address = ''b'', last_heartbeat = 20, registered_at = 1, generation = 1\<rparr>],
      rg_order = [''w1'', ''w2''], rg_window = 10\<rparr>"

lemma demo_registry_inv: "registry_inv demo_registry"
  by (auto simp: registry_inv_def demo_registry_def)

text \<open>
  C39. \<open>Pick\<close> does not go round: it returns the earliest registered worker that is live, so
  every worker registered before the result is offline, and it fails exactly when every
  registered worker is offline.
\<close>

theorem registry_pick_first_live:
  assumes inv: "registry_inv r"
  shows "(registry_pick r now = Inr n \<longleftrightarrow>
      (\<exists>k < length (rg_order r). rg_nodes r (rg_order r ! k) = Some n \<and> now - rg_window r \<le> last_heartbeat n \<and>
        (\<forall>j < k. rg_order r ! j \<in> set (registry_offline_nodes r (rg_order r) now)))) \<and>
    (registry_pick r now = Inl ErrNoWorker \<longleftrightarrow> registry_offline_nodes r (rg_order r) now = rg_order r)"
proof -
  let ?f = "pick_node r (now - rg_window r)" and ?off = "\<lambda>i. i \<in> set (registry_offline_nodes r (rg_order r) now)"
  have off: "?off i \<longleftrightarrow> ?f i = None" if "i \<in> set (rg_order r)" for i
    using that registry_invD(1) [OF inv]
    by (cases "rg_nodes r i") (auto simp: registry_offline_nodes_def pick_node_None)
  have none: "registry_pick r now = Inl ErrNoWorker \<longleftrightarrow> (\<forall>i \<in> set (rg_order r). ?off i)"
  proof -
    have "registry_pick r now = Inl ErrNoWorker \<longleftrightarrow> first_some ?f (rg_order r) = None"
      by (cases "first_some ?f (rg_order r)") (simp_all add: registry_pick_def del: first_some_None_iff)
    with off show ?thesis by simp
  qed
  have "registry_pick r now = Inr n \<longleftrightarrow> first_some ?f (rg_order r) = Some n"
    by (cases "first_some ?f (rg_order r)") (simp_all add: registry_pick_def del: first_some_None_iff)
  also have "\<dots> \<longleftrightarrow> (\<exists>k < length (rg_order r). ?f (rg_order r ! k) = Some n \<and> (\<forall>j < k. ?f (rg_order r ! j) = None))"
    by (rule first_some_nth)
  also have "\<dots> \<longleftrightarrow> (\<exists>k < length (rg_order r). ?f (rg_order r ! k) = Some n \<and> (\<forall>j < k. ?off (rg_order r ! j)))"
  proof (intro ex_cong1 conj_cong refl iff_allI)
    fix k j assume "k < length (rg_order r)"
    then show "(j < k \<longrightarrow> ?f (rg_order r ! j) = None) \<longleftrightarrow> (j < k \<longrightarrow> ?off (rg_order r ! j))"
      using off [of "rg_order r ! j"] by auto
  qed
  finally show ?thesis
    using none by (auto simp: pick_node_Some registry_offline_nodes_def filter_id_conv)
qed

theorem registry_pick_first_live_witness:
  "registry_pick demo_registry 25 \<noteq> Inl ErrNoWorker \<and> registry_offline_nodes demo_registry [''w1'', ''w2''] 25 = [''w1'']"
  using registry_pick_first_live [OF demo_registry_inv, of 25]
  by (simp add: registry_offline_nodes_def demo_registry_def)

text \<open>
  Registering again refreshes a worker and keeps its place: after any number of
  registrations of known workers the roster's order and every registration time are as
  they were, and a worker's generation has grown by the number of its registrations.
\<close>

fun registry_registers :: "registry \<Rightarrow> (instant \<times> worker_node) list \<Rightarrow> worker_error + registry" where
  "registry_registers r [] = Inr r"
| "registry_registers r ((now, n) # ns) =
     (case registry_register r now (Some n) of Inl e \<Rightarrow> Inl e | Inr r' \<Rightarrow> registry_registers r' ns)"

theorem registry_reregister:
  assumes "registry_inv r" and "\<forall>(now, n) \<in> set ns. node_id n \<in> dom (rg_nodes r)"
  shows "\<exists>r'. registry_registers r ns = Inr r' \<and> rg_order r' = rg_order r \<and>
    (\<forall>i m. rg_nodes r i = Some m \<longrightarrow> (\<exists>m'. rg_nodes r' i = Some m' \<and> registered_at m' = registered_at m \<and>
      generation m' = generation m + int (length (filter (\<lambda>(now, n). node_id n = i) ns))))"
  using assms
proof (induction r ns rule: registry_registers.induct)
  case (2 r now n ns)
  then obtain m where m: "rg_nodes r (node_id n) = Some m" by auto
  let ?r = "r\<lparr>rg_nodes := (rg_nodes r)(node_id n \<mapsto>
      m\<lparr>generation := generation m + 1, node_address := node_address n, last_heartbeat := now\<rparr>)\<rparr>"
  have reg: "registry_register r now (Some n) = Inr ?r"
    using m registry_invD(4) [OF 2(2) m] by (simp add: registry_register_def)
  have "\<forall>(now, n) \<in> set ns. node_id n \<in> dom (rg_nodes ?r)" using 2(3) by auto
  from 2(1) [OF reg registry_register_inv [OF 2(2) reg] this] obtain r'
    where r': "registry_registers ?r ns = Inr r'" "rg_order r' = rg_order ?r"
      and ih: "\<And>i m. rg_nodes ?r i = Some m \<Longrightarrow> \<exists>m'. rg_nodes r' i = Some m' \<and> registered_at m' = registered_at m \<and>
        generation m' = generation m + int (length (filter (\<lambda>(now, n). node_id n = i) ns))" by blast
  have "\<exists>m'. rg_nodes r' i = Some m' \<and> registered_at m' = registered_at k \<and>
      generation m' = generation k + int (length (filter (\<lambda>(now, n). node_id n = i) ((now, n) # ns)))"
    if "rg_nodes r i = Some k" for i k
    using that ih [of i] m by (cases "i = node_id n") auto
  with reg r' show ?case by auto
qed simp

theorem registry_reregister_witness:
  "\<exists>r'. registry_registers demo_registry [(30, the (rg_nodes demo_registry ''w1''))] = Inr r' \<and>
     rg_order r' = [''w1'', ''w2'']"
  using registry_reregister [OF demo_registry_inv, of "[(30, the (rg_nodes demo_registry ''w1''))]"]
  by (auto simp: demo_registry_def)

end
