(* ===== verification/RecordStore.thy ===== *)
theory RecordStore
  imports TaskModel
begin

text \<open>
  \<open>internal/store/records.go\<close>: the execution history, a list of records per task. Where the
  code ranges over the map, the iteration order is the argument \<open>its\<close>. The identifier that
  \<open>Append\<close> makes for a record without one ends in a time stamp of the wall clock, the
  argument \<open>stamp\<close>.
\<close>

section \<open>The code\<close>

type_synonym record_store = "string \<rightharpoonup> execution_record list"

definition records_new :: record_store where
  "records_new = Map.empty"

definition records_of :: "record_store \<Rightarrow> string \<Rightarrow> execution_record list" where
  "records_of r t = (case r t of None \<Rightarrow> [] | Some l \<Rightarrow> l)"

definition records_append :: "record_store \<Rightarrow> string \<Rightarrow> execution_record \<Rightarrow> record_store" where
  "records_append r stamp rec =
     (let cp = (if rec_id rec = '''' then rec\<lparr>rec_id := rec_task_id rec @ ''-'' @ stamp\<rparr> else rec)
      in r(rec_task_id cp \<mapsto> records_of r (rec_task_id cp) @ [cp]))"

definition records_list :: "record_store \<Rightarrow> string \<Rightarrow> execution_record list" where
  "records_list r t = sort_key rec_finished_at (records_of r t)"

text \<open>\<open>PurgeBefore\<close>: one turn of its loop over the tasks, and the loop.\<close>

definition purge_task :: "instant \<Rightarrow> record_store \<times> nat \<Rightarrow> string \<Rightarrow> record_store \<times> nat" where
  "purge_task cutoff = (\<lambda>(r, removed) t.
     let list = records_of r t;
         kept = filter (\<lambda>rec. \<not> rec_finished_at rec < cutoff) list
     in (if kept = [] then r(t := None) else r(t \<mapsto> kept), removed + (length list - length kept)))"

definition records_purge_before :: "record_store \<Rightarrow> string list \<Rightarrow> instant \<Rightarrow> record_store \<times> nat" where
  "records_purge_before r its cutoff = foldl (purge_task cutoff) (r, 0) its"

definition records_count :: "record_store \<Rightarrow> string list \<Rightarrow> nat" where
  "records_count r its = foldl (\<lambda>total t. total + length (records_of r t)) 0 its"

section \<open>Counting\<close>

lemma records_count_sum: "records_count r its = (\<Sum>t\<leftarrow>its. length (records_of r t))"
proof -
  have "foldl (\<lambda>total t. total + length (records_of r t)) n its = n + (\<Sum>t\<leftarrow>its. length (records_of r t))" for n
    by (induction its arbitrary: n) simp_all
  then show ?thesis by (simp add: records_count_def)
qed

text \<open>The count does not depend on the order, nor on keys that hold nothing.\<close>

definition records_total :: "record_store \<Rightarrow> nat" where
  "records_total r = (\<Sum>t \<in> dom r. length (records_of r t))"

lemma records_count_total:
  "distinct its \<Longrightarrow> set its = dom r \<Longrightarrow> records_count r its = records_total r"
  by (simp add: records_count_sum records_total_def flip: sum.distinct_set_conv_list)

lemma records_of_append:
  "records_of (records_append r stamp rec) t =
   (if t = rec_task_id rec
    then records_of r t @ [if rec_id rec = '''' then rec\<lparr>rec_id := rec_task_id rec @ ''-'' @ stamp\<rparr> else rec]
    else records_of r t)"
  by (simp add: records_append_def records_of_def Let_def)

lemma records_total_append:
  assumes "finite (dom r)"
  shows "records_total (records_append r stamp rec) = Suc (records_total r)"
proof -
  let ?i = "rec_task_id rec" and ?r = "records_append r stamp rec"
  have d: "dom ?r = insert ?i (dom r)" by (auto simp: records_append_def Let_def)
  have "(\<Sum>t \<in> dom r - {?i}. length (records_of ?r t)) = (\<Sum>t \<in> dom r - {?i}. length (records_of r t))"
    by (intro sum.cong) (auto simp: records_of_append)
  moreover have "(\<Sum>t \<in> dom r. length (records_of r t)) = length (records_of r ?i) + (\<Sum>t \<in> dom r - {?i}. length (records_of r t))"
    using assms by (cases "?i \<in> dom r") (auto simp: sum.remove records_of_def split: option.splits)
  ultimately show ?thesis
    unfolding records_total_def d using assms by (simp add: sum.insert_remove records_of_append)
qed

lemma purge_fold:
  assumes "distinct its"
  shows "foldl (purge_task cutoff) (r, n) its =
    ((\<lambda>t. if t \<in> set its
          then (let kept = filter (\<lambda>rec. \<not> rec_finished_at rec < cutoff) (records_of r t)
                in if kept = [] then None else Some kept)
          else r t),
     n + (\<Sum>t\<leftarrow>its. length (filter (\<lambda>rec. rec_finished_at rec < cutoff) (records_of r t))))"
  using assms
proof (induction its arbitrary: r n)
  case (Cons t its)
  let ?k = "filter (\<lambda>rec. \<not> rec_finished_at rec < cutoff) (records_of r t)"
  define r' where "r' = (if ?k = [] then r(t := None) else r(t \<mapsto> ?k))"
  have len: "length (records_of r t) - length ?k = length (filter (\<lambda>rec. rec_finished_at rec < cutoff) (records_of r t))"
    using sum_length_filter_compl [of "\<lambda>rec. rec_finished_at rec < cutoff" "records_of r t"] by linarith
  have same: "records_of r' u = records_of r u" if "u \<in> set its" for u
    using that Cons.prems by (auto simp: r'_def records_of_def)
  have here: "r' t = (if ?k = [] then None else Some ?k)" "\<And>u. u \<noteq> t \<Longrightarrow> r' u = r u"
    by (simp_all add: r'_def)
  have sums: "(\<Sum>u\<leftarrow>its. length (filter (\<lambda>rec. rec_finished_at rec < cutoff) (records_of r' u))) =
      (\<Sum>u\<leftarrow>its. length (filter (\<lambda>rec. rec_finished_at rec < cutoff) (records_of r u)))"
    by (intro arg_cong [of _ _ sum_list] map_cong refl) (simp add: same)
  have "foldl (purge_task cutoff) (r, n) (t # its) =
      foldl (purge_task cutoff) (r', n + (length (records_of r t) - length ?k)) its"
    by (simp add: purge_task_def Let_def r'_def)
  also have "\<dots> = ((\<lambda>u. if u \<in> set its
        then (let kept = filter (\<lambda>rec. \<not> rec_finished_at rec < cutoff) (records_of r' u) in if kept = [] then None else Some kept)
        else r' u), n + (length (records_of r t) - length ?k) +
        (\<Sum>u\<leftarrow>its. length (filter (\<lambda>rec. rec_finished_at rec < cutoff) (records_of r' u))))"
    using Cons by simp
  also have "\<dots> = ((\<lambda>u. if u \<in> set (t # its)
        then (let kept = filter (\<lambda>rec. \<not> rec_finished_at rec < cutoff) (records_of r u) in if kept = [] then None else Some kept)
        else r u), n + (\<Sum>u\<leftarrow>t # its. length (filter (\<lambda>rec. rec_finished_at rec < cutoff) (records_of r u))))"
    using Cons.prems same here by (auto simp: sums len fun_eq_iff Let_def)
  finally show ?case .
qed simp

section \<open>Properties\<close>

text \<open>
  \<open>PurgeBefore\<close> removes exactly the records that finished before the cutoff and keeps
  the others in their order, whatever order the map is walked in; the number it returns
  is the number of records that are gone; and purging again removes nothing.
\<close>

theorem records_purge_exact:
  assumes its: "distinct its" "set its = dom r"
    and p: "records_purge_before r its cutoff = (r', n)"
  shows "(\<forall>t. records_of r' t = filter (\<lambda>rec. cutoff \<le> rec_finished_at rec) (records_of r t)) \<and>
    n + records_total r' = records_total r \<and> [] \<notin> ran r' \<and>
    (\<forall>its'. distinct its' \<and> set its' = dom r' \<longrightarrow> records_purge_before r' its' cutoff = (r', 0))"
proof -
  let ?old = "\<lambda>rec. rec_finished_at rec < cutoff" and ?kept = "\<lambda>t. filter (\<lambda>rec. cutoff \<le> rec_finished_at rec) (records_of r t)"
  have not_old: "(\<lambda>rec. \<not> ?old rec) = (\<lambda>rec. cutoff \<le> rec_finished_at rec)" by (auto simp: fun_eq_iff)
  note f = purge_fold [OF its(1), of cutoff r 0, unfolded not_old]
  have r': "r' t = (if ?kept t = [] then None else Some (?kept t))" for t
    using p f its(2) by (cases "r t") (auto simp: records_purge_before_def records_of_def domIff Let_def)
  have n: "n = (\<Sum>t \<in> dom r. length (filter ?old (records_of r t)))"
    using p f its by (simp add: records_purge_before_def flip: sum.distinct_set_conv_list)
  have keep: "records_of r' t = ?kept t" for t by (simp add: records_of_def r')
  have "n + (\<Sum>t \<in> dom r. length (?kept t)) = records_total r"
    unfolding n records_total_def sum.distrib [symmetric]
    using sum_length_filter_compl [of ?old] by (intro sum.cong) (simp_all add: not_old)
  moreover have "finite (dom r)" using its(2) by (metis List.finite_set)
  then have "(\<Sum>t \<in> dom r. length (?kept t)) = records_total r'"
    unfolding records_total_def keep
    by (intro sum.mono_neutral_right) (auto simp: r' records_of_def domIff split: if_splits option.splits)
  moreover have "records_purge_before r' its' cutoff = (r', 0)" if "distinct its'" "set its' = dom r'" for its'
  proof -
    have "filter ?old (records_of r' t) = []" for t by (auto simp: keep filter_empty_conv)
    moreover have "filter (\<lambda>rec. cutoff \<le> rec_finished_at rec) (records_of r' t) = records_of r' t" for t
      by (simp add: keep)
    ultimately show ?thesis
      using that purge_fold [OF that(1), of cutoff r' 0, unfolded not_old]
      by (auto simp: records_purge_before_def fun_eq_iff Let_def r' keep)
  qed
  ultimately show ?thesis using keep by (auto simp: r' ran_def)
qed

definition demo_record :: "string \<Rightarrow> instant \<Rightarrow> execution_record" where
  "demo_record i at = \<lparr>rec_id = i, rec_task_id = ''a'', rec_attempt = 0, rec_worker_id = ''w1'',
     rec_status = ''success'', rec_started_at = at, rec_finished_at = at, rec_message = ''''\<rparr>"

theorem records_purge_exact_witness:
  "\<exists>r' n. records_purge_before [''a'' \<mapsto> [demo_record ''x'' 5, demo_record ''y'' 9]] [''a''] 7 = (r', n) \<and>
     records_of r' ''a'' = [demo_record ''y'' 9]"
proof -
  let ?r = "[''a'' \<mapsto> [demo_record ''x'' 5, demo_record ''y'' 9]]"
  obtain r' n where p: "records_purge_before ?r [''a''] 7 = (r', n)" by fastforce
  have "set [''a''] = dom ?r" by auto
  from records_purge_exact [OF _ this p] show ?thesis
    using p by (auto simp: records_of_def demo_record_def)
qed

text \<open>
  \<open>List\<close> returns the records that were appended for the task, no others, each as
  often as it was appended and in the order of their finish times; an empty identifier has
  been replaced.
\<close>

theorem records_list_appended:
  shows "mset (records_list (foldl (\<lambda>r (stamp, rec). records_append r stamp rec) records_new recs) t) =
      mset (map (\<lambda>(stamp, rec). if rec_id rec = '''' then rec\<lparr>rec_id := t @ ''-'' @ stamp\<rparr> else rec)
        (filter (\<lambda>(stamp, rec). rec_task_id rec = t) recs)) \<and>
    sorted (map rec_finished_at (records_list (foldl (\<lambda>r (stamp, rec). records_append r stamp rec) records_new recs) t))"
proof -
  have "records_of (foldl (\<lambda>r (stamp, rec). records_append r stamp rec) r recs) t = records_of r t @
      map (\<lambda>(stamp, rec). if rec_id rec = '''' then rec\<lparr>rec_id := t @ ''-'' @ stamp\<rparr> else rec)
        (filter (\<lambda>(stamp, rec). rec_task_id rec = t) recs)" for r
    by (induction recs arbitrary: r) (auto simp: records_of_append)
  moreover have "records_of records_new t = []" by (simp add: records_of_def records_new_def)
  ultimately show ?thesis by (simp add: records_list_def)
qed

end
