(* ===== verification/AuditLog.thy ===== *)
theory AuditLog
  imports Prelude
begin

text \<open>\<open>internal/audit/audit.go\<close>: a bounded log of operations.\<close>

section \<open>The code\<close>

record audit_entry =
  ae_at :: instant
  ae_operator :: string
  ae_action :: string
  ae_target_id :: string
  ae_detail :: string
  ae_request_id :: string

record audit_log =
  al_entries :: "audit_entry list"
  al_limit :: int

definition audit_new :: "int \<Rightarrow> audit_log" where
  "audit_new limit = \<lparr>al_entries = [], al_limit = (if limit \<le> 0 then 5000 else limit)\<rparr>"

definition audit_record :: "audit_log \<Rightarrow> audit_entry \<Rightarrow> audit_log" where
  "audit_record l e =
     (let es = al_entries l @ [e] in
      if al_limit l < int (length es)
      then l\<lparr>al_entries := drop (nat (int (length es) - al_limit l)) es\<rparr>
      else l\<lparr>al_entries := es\<rparr>)"

definition audit_list :: "audit_log \<Rightarrow> instant \<Rightarrow> audit_entry list" where
  "audit_list l since = filter (\<lambda>e. \<not> ae_at e < since) (al_entries l)"

section \<open>Properties\<close>

definition demo_entry :: "instant \<Rightarrow> audit_entry" where
  "demo_entry at = \<lparr>ae_at = at, ae_operator = ''op'', ae_action = ''register'', ae_target_id = ''a'',
     ae_detail = '''', ae_request_id = ''''\<rparr>"

lemma audit_record_last:
  assumes "al_limit l = int n" and "al_entries l = drop (length es - n) es" and "0 < n"
  shows "al_limit (audit_record l e) = int n \<and> al_entries (audit_record l e) = drop (length (es @ [e]) - n) (es @ [e])"
proof (cases "length es < n")
  case True
  then show ?thesis using assms by (simp add: audit_record_def Let_def)
next
  case False
  then have "nat (int (length (drop (length es - n) es @ [e])) - int n) = 1" by simp
  moreover have "drop 1 (drop (length es - n) es @ [e]) = drop (length (es @ [e]) - n) (es @ [e])"
    using False assms(3) by (simp add: Suc_diff_le)
  ultimately show ?thesis using assms False by (simp add: audit_record_def Let_def)
qed

text \<open>
  C40. The log holds the last \<open>limit\<close> entries that were recorded (5000 when the limit is not
  positive), oldest first, however many were recorded; so \<open>List\<close> returns those of them
  that are not older than the given instant, one recorded at that instant included.
\<close>

theorem audit_keeps_last:
  shows "al_entries (foldl audit_record (audit_new limit) es) =
      drop (length es - nat (if limit \<le> 0 then 5000 else limit)) es \<and>
    audit_list (foldl audit_record (audit_new limit) es) since =
      filter (\<lambda>e. since \<le> ae_at e) (drop (length es - nat (if limit \<le> 0 then 5000 else limit)) es)"
proof -
  define n where "n = nat (if limit \<le> 0 then 5000 else limit)"
  have n: "0 < n" "al_limit (audit_new limit) = int n" by (auto simp: n_def audit_new_def)
  have "al_limit (foldl audit_record (audit_new limit) es) = int n \<and>
      al_entries (foldl audit_record (audit_new limit) es) = drop (length es - n) es"
  proof (induction es rule: rev_induct)
    case (snoc e es)
    with audit_record_last [OF _ _ n(1)] show ?case by (simp del: length_append)
  qed (use n in \<open>simp add: audit_new_def\<close>)
  then show ?thesis by (simp add: audit_list_def n_def not_less)
qed

end
