(* ===== verification/GoStrings.thy ===== *)
theory GoStrings
  imports Prelude
begin

text \<open>
  The operations of Go's \<open>strings\<close> and \<open>strconv\<close> packages that the program uses. A Go
  string is a sequence of bytes, which is what the characters of HOL's \<open>string\<close> are. White
  space is Unicode's, in its UTF-8 encoding: none of the lead bytes below occurs inside
  another encoded character, so comparing bytes at each position finds exactly the white
  space that decoding the string finds.
\<close>

section \<open>White space\<close>

text \<open>\<open>space_width s\<close>: the length of the white-space character that \<open>s\<close> begins with, or 0.\<close>

definition ascii_space :: "char \<Rightarrow> bool" where
  "ascii_space c \<longleftrightarrow> c = CHR 0x09 \<or> c = CHR 0x0A \<or> c = CHR 0x0B \<or> c = CHR 0x0C \<or> c = CHR 0x0D \<or> c = CHR '' ''"

definition wide_spaces :: "string list" where
  "wide_spaces =
     [[CHR 0xC2, CHR 0x85], [CHR 0xC2, CHR 0xA0], [CHR 0xE1, CHR 0x9A, CHR 0x80],
      [CHR 0xE2, CHR 0x80, CHR 0x80], [CHR 0xE2, CHR 0x80, CHR 0x81], [CHR 0xE2, CHR 0x80, CHR 0x82],
      [CHR 0xE2, CHR 0x80, CHR 0x83], [CHR 0xE2, CHR 0x80, CHR 0x84], [CHR 0xE2, CHR 0x80, CHR 0x85],
      [CHR 0xE2, CHR 0x80, CHR 0x86], [CHR 0xE2, CHR 0x80, CHR 0x87], [CHR 0xE2, CHR 0x80, CHR 0x88],
      [CHR 0xE2, CHR 0x80, CHR 0x89], [CHR 0xE2, CHR 0x80, CHR 0x8A], [CHR 0xE2, CHR 0x80, CHR 0xA8],
      [CHR 0xE2, CHR 0x80, CHR 0xA9], [CHR 0xE2, CHR 0x80, CHR 0xAF], [CHR 0xE2, CHR 0x81, CHR 0x9F],
      [CHR 0xE3, CHR 0x80, CHR 0x80]]"

definition space_width :: "string \<Rightarrow> nat" where
  "space_width s =
     (case s of
        [] \<Rightarrow> 0
      | c # _ \<Rightarrow>
          if ascii_space c then 1
          else case find (\<lambda>w. take (length w) s = w) wide_spaces of Some w \<Rightarrow> length w | None \<Rightarrow> 0)"

lemma space_width_le: "space_width s \<le> length s"
proof (cases s)
  case (Cons c cs)
  show ?thesis
  proof (cases "find (\<lambda>w. take (length w) s = w) wide_spaces")
    case (Some w)
    then have "take (length w) s = w" by (auto simp: find_Some_iff)
    then have "length w \<le> length s" by (metis length_take min.cobounded1)
    with Some Cons show ?thesis by (simp add: space_width_def)
  qed (simp add: space_width_def Cons)
qed (simp add: space_width_def)

text \<open>\<open>strings.TrimSpace\<close>: white space is cut from the left, then from the right.\<close>

function trim_left :: "string \<Rightarrow> string" where
  "trim_left s = (if space_width s = 0 then s else trim_left (drop (space_width s) s))"
  by pat_completeness auto
termination
proof (relation "measure length")
  fix s assume "space_width s \<noteq> 0"
  then show "(drop (space_width s) s, s) \<in> measure length"
    using space_width_le [of s] by (cases s) (auto simp: space_width_def)
qed simp

definition last_space_width :: "string \<Rightarrow> nat" where
  "last_space_width s =
     (if s \<noteq> [] \<and> ascii_space (last s) then 1
      else case find (\<lambda>w. length w \<le> length s \<and> drop (length s - length w) s = w) wide_spaces of
             Some w \<Rightarrow> length w | None \<Rightarrow> 0)"

lemma wide_spaces_nonempty: "w \<in> set wide_spaces \<Longrightarrow> 0 < length w"
  by (auto simp: wide_spaces_def)

function trim_right :: "string \<Rightarrow> string" where
  "trim_right s =
     (if last_space_width s = 0 then s else trim_right (take (length s - last_space_width s) s))"
  by pat_completeness auto
termination
proof (relation "measure length")
  fix s assume n: "last_space_width s \<noteq> 0"
  then have "s \<noteq> []"
    using wide_spaces_nonempty
    by (auto simp: last_space_width_def find_Some_iff split: option.splits if_splits)
  with n show "(take (length s - last_space_width s) s, s) \<in> measure length" by simp
qed simp

definition trim_space :: "string \<Rightarrow> string" where
  "trim_space s = trim_right (trim_left s)"

text \<open>\<open>strings.Fields\<close>: the maximal runs without white space; \<open>cur\<close> is the run being read.\<close>

function fields_from :: "string \<Rightarrow> string \<Rightarrow> string list" where
  "fields_from cur s =
     (case s of
        [] \<Rightarrow> if cur = [] then [] else [cur]
      | c # cs \<Rightarrow>
          if space_width s = 0 then fields_from (cur @ [c]) cs
          else (if cur = [] then [] else [cur]) @ fields_from [] (drop (space_width s) s))"
  by pat_completeness auto
termination by (relation "measure (\<lambda>(cur, s). length s)") auto

definition go_fields :: "string \<Rightarrow> string list" where
  "go_fields s = fields_from [] s"

declare trim_left.simps [simp del] trim_right.simps [simp del] fields_from.simps [simp del]

section \<open>Splitting and prefixes\<close>

text \<open>\<open>strings.Split\<close> by a separator of one byte.\<close>

fun go_split :: "char \<Rightarrow> string \<Rightarrow> string list" where
  "go_split sep [] = [[]]"
| "go_split sep (c # cs) =
     (if c = sep then [] # go_split sep cs
      else case go_split sep cs of [] \<Rightarrow> [[c]] | w # ws \<Rightarrow> (c # w) # ws)"

text \<open>\<open>strings.Index\<close> of a byte.\<close>

definition go_index :: "char \<Rightarrow> string \<Rightarrow> nat option" where
  "go_index sep s = find_index (\<lambda>c. c = sep) s"

definition trim_prefix :: "string \<Rightarrow> string \<Rightarrow> string" where
  "trim_prefix s p = (if take (length p) s = p then drop (length p) s else s)"

lemma go_split_nonempty [simp]: "go_split sep s \<noteq> []"
  by (induction s) (auto split: list.splits)

text \<open>What splitting and searching by a byte find.\<close>

lemma go_split_no: "sep \<notin> set s \<Longrightarrow> go_split sep s = [s]"
  by (induction s) auto

lemma go_split_append: "sep \<notin> set p \<Longrightarrow> go_split sep (p @ sep # q) = p # go_split sep q"
  by (induction p) auto

lemma split_once: "sep \<notin> set p \<Longrightarrow> sep \<notin> set x \<Longrightarrow> p @ sep # q = x @ sep # y \<longleftrightarrow> p = x \<and> q = y"
proof (induction p arbitrary: x)
  case (Cons a p)
  from Cons.IH [of "tl x"] Cons.prems show ?case by (cases x) auto
qed (auto simp: Cons_eq_append_conv)

lemma go_split_one: "go_split sep s = [x] \<longleftrightarrow> x = s \<and> sep \<notin> set s"
proof (cases "sep \<in> set s")
  case True
  then obtain p q where "s = p @ sep # q" "sep \<notin> set p" using split_list_first by fast
  then show ?thesis by (simp add: go_split_append)
qed (auto simp: go_split_no)

lemma go_split_two: "go_split sep s = [x, y] \<longleftrightarrow> s = x @ sep # y \<and> sep \<notin> set x \<and> sep \<notin> set y"
proof (cases "sep \<in> set s")
  case True
  then obtain p q where s: "s = p @ sep # q" "sep \<notin> set p" using split_list_first by fast
  with split_once [of sep p x q y] show ?thesis by (auto simp: go_split_append go_split_one)
qed (auto simp: go_split_no)

lemma go_index_Some:
  "go_index sep s = Some k \<longleftrightarrow> k < length s \<and> s = take k s @ sep # drop (k + 1) s \<and> sep \<notin> set (take k s)"
proof (induction s arbitrary: k)
  case (Cons c s)
  show ?case
  proof (cases k)
    case 0
    then show ?thesis by (auto simp: go_index_def)
  next
    case (Suc j)
    then show ?thesis using Cons.IH [of j] by (auto simp: go_index_def)
  qed
qed (simp add: go_index_def)

lemma go_split_cases:
  obtains (one) "go_split sep s = [s]" "sep \<notin> set s"
  | (two) a b where "go_split sep s = [a, b]"
  | (more) a b c ws where "go_split sep s = a # b # c # ws"
proof -
  obtain a ws where a: "go_split sep s = a # ws" using go_split_nonempty by (metis neq_Nil_conv)
  show ?thesis
  proof (cases ws)
    case Nil
    with a go_split_one [of sep s a] one show ?thesis by simp
  next
    case (Cons b vs)
    with a two more show ?thesis by (cases vs) simp_all
  qed
qed

section \<open>Numbers\<close>

definition digit_char :: "nat \<Rightarrow> char" where
  "digit_char d = (if d < 10 then char_of (48 + d) else char_of (87 + d))"

text \<open>\<open>strconv.FormatUint\<close> in base \<open>b\<close> (10 or 16).\<close>

function digits :: "nat \<Rightarrow> nat \<Rightarrow> string" where
  "digits b n = (if n < b \<or> b < 2 then [digit_char n] else digits b (n div b) @ [digit_char (n mod b)])"
  by pat_completeness auto
termination by (relation "measure snd") (auto intro: div_less_dividend)

declare digits.simps [simp del]

definition format_int :: "int \<Rightarrow> string" where
  "format_int x = (if x < 0 then CHR ''-'' # digits 10 (nat (- x)) else digits 10 (nat x))"

definition is_digit :: "char \<Rightarrow> bool" where
  "is_digit c \<longleftrightarrow> 48 \<le> (of_char c :: nat) \<and> (of_char c :: nat) \<le> 57"

definition digit_value :: "char \<Rightarrow> int" where
  "digit_value c = int (of_char c) - 48"

definition decimal :: "string \<Rightarrow> int" where
  "decimal ds = foldl (\<lambda>acc c. acc * 10 + digit_value c) 0 ds"

text \<open>
  \<open>strconv.Atoi\<close>: an optional sign and at least one decimal digit, in the range of a 64-bit
  \<open>int\<close>. \<open>None\<close> is an error.
\<close>

definition atoi :: "string \<Rightarrow> int option" where
  "atoi s =
     (let neg = (s \<noteq> [] \<and> hd s = CHR ''-'');
          ds = (if s \<noteq> [] \<and> (hd s = CHR ''-'' \<or> hd s = CHR ''+'') then tl s else s);
          v = (if neg then - decimal ds else decimal ds)
      in if ds = [] \<or> \<not> list_all is_digit ds then None
         else if in_int64 v then Some v else None)"

lemma of_char_digit: "d < 10 \<Longrightarrow> digit_value (digit_char d) = int d"
  by (simp add: digit_value_def digit_char_def)

lemma digit_char_is_digit: "d < 10 \<Longrightarrow> is_digit (digit_char d)"
  by (simp add: digit_char_def is_digit_def)

lemma decimal_snoc: "decimal (ds @ [c]) = decimal ds * 10 + digit_value c"
  by (simp add: decimal_def)

lemma decimal_digits: "decimal (digits 10 n) = int n"
proof (induction "10 :: nat" n rule: digits.induct)
  case (1 n)
  show ?case
  proof (cases "n < 10")
    case True
    then show ?thesis by (simp add: digits.simps [of 10 n] decimal_def of_char_digit)
  next
    case False
    have "decimal (digits 10 n) = int (n div 10) * 10 + int (n mod 10)"
      using 1 False by (simp add: digits.simps [of 10 n] decimal_snoc of_char_digit del: of_nat_div of_nat_mod)
    also have "\<dots> = int n" by presburger
    finally show ?thesis .
  qed
qed

lemma digits_are_digits: "list_all is_digit (digits 10 n) \<and> digits 10 n \<noteq> []"
proof (induction "10 :: nat" n rule: digits.induct)
  case (1 n)
  then show ?case by (cases "n < 10") (simp_all add: digits.simps [of 10 n] digit_char_is_digit)
qed

lemma digits_ten_inject: "digits 10 m = digits 10 n \<longleftrightarrow> m = n"
  by (metis decimal_digits of_nat_eq_iff)

lemma digit_not_dash: "is_digit c \<Longrightarrow> c \<noteq> CHR ''-'' \<and> c \<noteq> CHR ''+''"
  by (auto simp: is_digit_def)

lemma digits_no_dash: "CHR ''-'' \<notin> set (digits 10 n)"
  using digits_are_digits [of n] digit_not_dash by (auto simp: list_all_iff)

text \<open>Printing and reading a 64-bit integer.\<close>

lemma atoi_format_int: "in_int64 x \<Longrightarrow> atoi (format_int x) = Some x"
proof -
  assume x: "in_int64 x"
  have d: "list_all is_digit (digits 10 n)" "digits 10 n \<noteq> []" for n
    using digits_are_digits by blast+
  then have hd: "hd (digits 10 n) \<noteq> CHR ''-''" "hd (digits 10 n) \<noteq> CHR ''+''" for n
    using digit_not_dash by (metis hd_in_set list_all_iff)+
  show ?thesis using x d hd by (simp add: atoi_def format_int_def decimal_digits Let_def)
qed

end
