(* ===== verification/GoTime.thy ===== *)
theory GoTime
  imports Prelude
begin

text \<open>
  The part of Go's \<open>time\<close> package that the program uses: the proleptic Gregorian calendar,
  \<open>Date\<close> with its normalisation, \<open>Truncate\<close> and \<open>AddDate\<close>. Days are counted from the Unix
  epoch. A location is a function from Unix seconds to the zone's offset in seconds. The
  lemmas show that \<open>Date\<close> and the calendar fields of an instant are inverse.
\<close>

section \<open>Days and dates\<close>

definition second_ns :: duration where "second_ns = 10 ^ 9"
definition minute_ns :: duration where "minute_ns = 60 * 10 ^ 9"
definition hour_ns :: duration where "hour_ns = 3600 * 10 ^ 9"
definition day_ns :: duration where "day_ns = 86400 * 10 ^ 9"

definition leap :: "int \<Rightarrow> bool" where
  "leap y \<longleftrightarrow> y mod 4 = 0 \<and> (y mod 100 \<noteq> 0 \<or> y mod 400 = 0)"

text \<open>The day on which a year begins; the day of the year on which a month (from 0) begins.\<close>

definition year_start :: "int \<Rightarrow> int" where
  "year_start y = 365 * (y - 1) + (y - 1) div 4 - (y - 1) div 100 + (y - 1) div 400 - 719162"

definition days_before :: "int list" where
  "days_before = [0, 31, 59, 90, 120, 151, 181, 212, 243, 273, 304, 334, 365]"

definition month_start :: "bool \<Rightarrow> nat \<Rightarrow> int" where
  "month_start lp k = days_before ! k + (if lp \<and> 2 \<le> k then 1 else 0)"

text \<open>\<open>Date\<close>: a month outside 1 to 12 carries into the year, a day outside the month into the days.\<close>

definition date_days :: "int \<Rightarrow> int \<Rightarrow> int \<Rightarrow> int" where
  "date_days y m d =
     (let y' = y + (m - 1) div 12; k = nat ((m - 1) mod 12)
      in year_start y' + month_start (leap y') k + (d - 1))"

definition date_utc :: "int \<Rightarrow> int \<Rightarrow> int \<Rightarrow> instant" where
  "date_utc y m d = date_days y m d * day_ns"

definition year_of_day :: "int \<Rightarrow> int" where
  "year_of_day n =
     (let n0 = n + 719162; c = n0 div 146097; r = n0 mod 146097;
          h = min (r div 36524) 3; r2 = r - 36524 * h;
          q = r2 div 1461; r3 = r2 mod 1461;
          k = min (r3 div 365) 3
      in 400 * c + 100 * h + 4 * q + k + 1)"

definition month_of_yday :: "bool \<Rightarrow> int \<Rightarrow> nat" where
  "month_of_yday lp yd = length (filter (\<lambda>k. month_start lp k \<le> yd) [1..<12])"

definition civil :: "int \<Rightarrow> int \<times> int \<times> int" where
  "civil n =
     (let y = year_of_day n; yd = n - year_start y; k = month_of_yday (leap y) yd
      in (y, int k + 1, yd - month_start (leap y) k + 1))"

text \<open>1 January 1970 was a Thursday; Sunday is 0.\<close>

definition weekday :: "int \<Rightarrow> int" where
  "weekday n = (n + 4) mod 7"

definition day_of :: "instant \<Rightarrow> int" where
  "day_of t = t div day_ns"

definition truncate_minute :: "instant \<Rightarrow> instant" where
  "truncate_minute t = t - t mod minute_ns"

section \<open>Locations\<close>

type_synonym location = "int \<Rightarrow> int"

definition utc :: location where "utc s = 0"

definition local_ns :: "location \<Rightarrow> instant \<Rightarrow> instant" where
  "local_ns loc t = t + loc (t div second_ns) * second_ns"

definition year_in :: "location \<Rightarrow> instant \<Rightarrow> int" where
  "year_in loc t = year_of_day (day_of (local_ns loc t))"

text \<open>
  \<open>Date\<close> in a location: the offset is looked up at the local seconds read as UTC, and, when
  it is not zero, once more at the instant that it gives.
\<close>

definition from_local :: "location \<Rightarrow> instant \<Rightarrow> instant" where
  "from_local loc t =
     (let off = loc (t div second_ns) in
      if off = 0 then t else t - loc (t div second_ns - off) * second_ns)"

definition add_years :: "location \<Rightarrow> instant \<Rightarrow> int \<Rightarrow> instant" where
  "add_years loc t years =
     (let l = local_ns loc t; (y, m, d) = civil (day_of l)
      in from_local loc (date_utc (y + years) m d + l mod day_ns))"

section \<open>Years\<close>

lemma div_between: "b * q \<le> a \<Longrightarrow> a < b * q + b \<Longrightarrow> a div b = (q :: int) \<and> a mod b = a - b * q"
  using int_div_pos_eq [of a b q "a - b * q"] int_mod_pos_eq [of a b q "a - b * q"] by simp

lemma div_pred: "0 < (b :: int) \<Longrightarrow> y div b = (y - 1) div b + (if y mod b = 0 then 1 else 0)"
proof -
  assume b: "0 < b"
  have y: "y = b * (y div b) + y mod b" "0 \<le> y mod b" "y mod b < b" using b by simp_all
  show ?thesis
  proof (cases "y mod b = 0")
    case True
    have "b * (y div b - 1) \<le> y - 1 \<and> y - 1 < b * (y div b - 1) + b"
      using y b True by (simp add: right_diff_distrib)
    with div_between [of b "y div b - 1" "y - 1"] True show ?thesis by simp
  next
    case False
    have "b * (y div b) \<le> y - 1 \<and> y - 1 < b * (y div b) + b" using y b False by linarith
    with div_between [of b "y div b" "y - 1"] False show ?thesis by simp
  qed
qed

lemma mod_dvd_down: "y mod (a * b :: int) = 0 \<Longrightarrow> y mod a = 0"
  by (metis dvd_imp_mod_0 dvd_mult_left mod_0_imp_dvd)

lemma year_length: "year_start (y + 1) = year_start y + (if leap y then 366 else 365)"
proof -
  define A B C where "A = (y - 1) div 4" and "B = (y - 1) div 100" and "C = (y - 1) div 400"
  define i j k :: int where "i = (if y mod 4 = 0 then 1 else 0)"
    and "j = (if y mod 100 = 0 then 1 else 0)" and "k = (if y mod 400 = 0 then 1 else 0)"
  have "y div 4 = A + i" "y div 100 = B + j" "y div 400 = C + k"
    unfolding A_def B_def C_def i_def j_def k_def by ((rule div_pred, simp)+)
  then have "year_start (y + 1) = 365 * y + (A + i) - (B + j) + (C + k) - 719162"
    by (simp only: year_start_def add_diff_cancel_right')
  moreover have "year_start y = 365 * (y - 1) + A - B + C - 719162"
    by (simp only: year_start_def A_def B_def C_def)
  moreover have "i - j + k = (if leap y then 1 else 0)"
  proof -
    have down: "y mod 100 = 0 \<Longrightarrow> y mod 4 = 0" "y mod 400 = 0 \<Longrightarrow> y mod 100 = 0"
      by (rule mod_dvd_down [of y 4 25], simp) (rule mod_dvd_down [of y 100 4], simp)
    define p q r where "p = (y mod 4 = 0)" and "q = (y mod 100 = 0)" and "r = (y mod 400 = 0)"
    have "q \<Longrightarrow> p" "r \<Longrightarrow> q" unfolding p_def q_def r_def by (fact down)+
    then show ?thesis
      unfolding i_def j_def k_def leap_def p_def [symmetric] q_def [symmetric] r_def [symmetric] by auto
  qed
  ultimately show ?thesis by (cases "leap y") simp_all
qed

lemma year_start_less: "y < z \<Longrightarrow> year_start y < year_start z"
proof (induction z rule: int_gr_induct)
  case base
  then show ?case by (simp add: year_length)
next
  case (step z)
  then show ?case using year_length [of z] by (simp split: if_splits)
qed

lemma year_start_mono: "y \<le> z \<Longrightarrow> year_start y \<le> year_start z"
  using year_start_less [of y z] by (cases "y = z") auto

lemma year_start_parts:
  assumes "0 \<le> h" "h \<le> 3" "0 \<le> q" "q \<le> 24" "0 \<le> k" "k \<le> 3"
  shows "year_start (400 * c + 100 * h + 4 * q + k + 1) = 146097 * c + 36524 * h + 1461 * q + 365 * k - 719162"
proof -
  define a where "a = 400 * c + 100 * h + 4 * q + k"
  have "a div 4 = 100 * c + 25 * h + q" using assms div_between [of 4 "100 * c + 25 * h + q" a] by (simp add: a_def)
  moreover have "a div 100 = 4 * c + h" using assms div_between [of 100 "4 * c + h" a] by (simp add: a_def)
  moreover have "a div 400 = c" using assms div_between [of 400 c a] by (simp add: a_def)
  ultimately have "year_start (a + 1) = 365 * a + (100 * c + 25 * h + q) - (4 * c + h) + c - 719162"
    by (simp only: year_start_def add_diff_cancel_right')
  then show ?thesis by (simp add: a_def)
qed

lemma leap_parts:
  assumes "q < 24 \<or> h = 3" "0 \<le> q" "q \<le> 24" "0 \<le> h" "h \<le> 3"
  shows "leap (400 * c + 100 * h + 4 * q + 3 + 1)"
proof -
  define a where "a = 400 * c + 100 * h + 4 * q + 4"
  have m4: "a mod 4 = 0" using div_between [of 4 "100 * c + 25 * h + q + 1" a] by (simp add: a_def)
  have "leap a"
  proof (cases "q < 24")
    case True
    then have "a mod 100 = a - 100 * (4 * c + h)" using assms div_between [of 100 "4 * c + h" a] by (simp add: a_def)
    then have "a mod 100 \<noteq> 0" using assms by (simp add: a_def)
    with m4 show ?thesis by (simp add: leap_def)
  next
    case False
    then have "a mod 400 = 0" using assms div_between [of 400 "c + 1" a] by (simp add: a_def)
    with m4 show ?thesis by (simp add: leap_def)
  qed
  moreover have "400 * c + 100 * h + 4 * q + 3 + 1 = a" by (simp add: a_def)
  ultimately show ?thesis by (simp only:)
qed

lemma year_of_day_bounds: "year_start (year_of_day n) \<le> n \<and> n < year_start (year_of_day n + 1)"
proof -
  define n0 where "n0 = n + 719162"
  define c where "c = n0 div 146097"
  define r where "r = n0 mod 146097"
  define h where "h = min (r div 36524) 3"
  define r2 where "r2 = r - 36524 * h"
  define q where "q = r2 div 1461"
  define r3 where "r3 = r2 mod 1461"
  define k where "k = min (r3 div 365) 3"
  have r: "0 \<le> r" "r < 146097" "n0 = 146097 * c + r" by (simp_all add: r_def c_def)
  have h: "0 \<le> h" "h \<le> 3" "0 \<le> r2" "r2 \<le> 36524" "h < 3 \<Longrightarrow> r2 < 36524"
    using r unfolding h_def r2_def by (auto simp: min_def split: if_splits)
  have q: "0 \<le> q" "q \<le> 24" "r2 = 1461 * q + r3" "0 \<le> r3" "r3 < 1461"
    using h unfolding q_def r3_def by auto
  have k: "0 \<le> k" "k \<le> 3" "0 \<le> r3 - 365 * k" "k < 3 \<Longrightarrow> r3 - 365 * k < 365" "r3 - 365 * k \<le> 365"
    using q unfolding k_def by (auto simp: min_def split: if_splits)
  have y: "year_of_day n = 400 * c + 100 * h + 4 * q + k + 1"
    by (simp add: year_of_day_def Let_def n0_def c_def r_def h_def r2_def q_def r3_def k_def)
  have s: "year_start (year_of_day n) = n - (r3 - 365 * k)"
    using year_start_parts [OF h(1,2) q(1,2) k(1,2)] r(3) q(3) unfolding y r2_def n0_def by simp
  have "leap (year_of_day n)" if "r3 - 365 * k = 365"
  proof -
    have "k = 3" using that k by (cases "k < 3") auto
    moreover from this that have "r3 = 1460" by simp
    then have "q < 24 \<or> h = 3" using q(2,3) h(2,5) by (cases "q < 24"; cases "h < 3") auto
    ultimately show ?thesis using leap_parts [of q h c] q h unfolding y by simp
  qed
  with s k show ?thesis by (cases "r3 - 365 * k = 365") (simp_all add: year_length)
qed

lemma year_of_day_unique: "year_start y \<le> n \<Longrightarrow> n < year_start (y + 1) \<Longrightarrow> year_of_day n = y"
  using year_of_day_bounds [of n] year_start_mono [of "y + 1" "year_of_day n"]
    year_start_mono [of "year_of_day n + 1" y] by linarith

lemma year_of_day_mono: "m \<le> n \<Longrightarrow> year_of_day m \<le> year_of_day n"
  using year_of_day_bounds [of m] year_of_day_bounds [of n]
    year_start_mono [of "year_of_day n + 1" "year_of_day m"] by linarith

section \<open>Months\<close>

definition days_in :: "int \<Rightarrow> int \<Rightarrow> int" where
  "days_in y m = month_start (leap y) (nat m) - month_start (leap y) (nat (m - 1))"

lemma month_start_mono: "j \<le> k \<Longrightarrow> k \<le> 12 \<Longrightarrow> month_start lp j \<le> month_start lp k"
proof -
  assume jk: "j \<le> k" "k \<le> 12"
  have "sorted days_before" by (simp add: days_before_def)
  from sorted_nth_mono [OF this jk(1)] jk have "days_before ! j \<le> days_before ! k" by (simp add: days_before_def)
  with jk show ?thesis by (simp add: month_start_def)
qed

lemma month_of_yday_eq:
  assumes k: "k < 12" and lo: "month_start lp k \<le> yd" and hi: "yd < month_start lp (Suc k)"
  shows "month_of_yday lp yd = k"
proof -
  have "month_start lp j \<le> yd \<longleftrightarrow> j \<le> k" if "j < 12" for j
    using month_start_mono [of j k lp] month_start_mono [of "Suc k" j lp] that k lo hi
    by (cases "j \<le> k") auto
  then have "filter (\<lambda>j. month_start lp j \<le> yd) [1..<12] = filter (\<lambda>j. j \<le> k) [1..<12]"
    by (intro filter_cong) simp_all
  moreover have "[1..<12] = [1..<Suc k] @ [Suc k..<12]"
    using k upt_add_eq_append [of 1 "Suc k" "11 - k"] by simp
  then have "filter (\<lambda>j. j \<le> k) [1..<12] = [1..<Suc k]" by (simp add: filter_empty_conv del: upt_Suc)
  ultimately show ?thesis by (simp add: month_of_yday_def del: upt_Suc)
qed

lemma month_cases: "1 \<le> (m :: int) \<Longrightarrow> m \<le> 12 \<Longrightarrow> m \<in> {1, 2, 3, 4, 5, 6, 7, 8, 9, 10, 11, 12}"
  by simp presburger

lemma days_in_table:
  "1 \<le> m \<Longrightarrow> m \<le> 12 \<Longrightarrow>
   days_in y m = (if m = 2 then (if leap y then 29 else 28) else if m \<in> {4, 6, 9, 11} then 30 else 31)"
  by (drule (1) month_cases) (auto simp: days_in_def month_start_def days_before_def)

lemma month_of_yday_start:
  "1 \<le> m \<Longrightarrow> m \<le> 12 \<Longrightarrow> 1 \<le> d \<Longrightarrow> d \<le> days_in y m \<Longrightarrow>
   month_of_yday (leap y) (month_start (leap y) (nat (m - 1)) + (d - 1)) = nat (m - 1)"
proof -
  assume m: "1 \<le> m" "m \<le> 12" and d: "1 \<le> d" "d \<le> days_in y m"
  have "nat (m - 1) < 12" "Suc (nat (m - 1)) = nat m" using m by linarith+
  with d show ?thesis by (intro month_of_yday_eq) (simp_all add: days_in_def)
qed

lemma yday_in_year:
  "1 \<le> m \<Longrightarrow> m \<le> 12 \<Longrightarrow> 1 \<le> d \<Longrightarrow> d \<le> days_in y m \<Longrightarrow>
   0 \<le> month_start (leap y) (nat (m - 1)) + (d - 1) \<and>
   month_start (leap y) (nat (m - 1)) + (d - 1) < (if leap y then 366 else 365)"
  by (drule (1) month_cases) (auto simp: days_in_def month_start_def days_before_def)

lemma date_days_eq:
  "1 \<le> m \<Longrightarrow> m \<le> 12 \<Longrightarrow> date_days y m d = year_start y + month_start (leap y) (nat (m - 1)) + (d - 1)"
  by (simp add: date_days_def Let_def div_pos_pos_trivial mod_pos_pos_trivial)

text \<open>The fields of a date are read back from its day.\<close>

lemma civil_date_days:
  assumes "1 \<le> m" "m \<le> 12" "1 \<le> d" "d \<le> days_in y m"
  shows "civil (date_days y m d) = (y, m, d)"
proof -
  note yd = yday_in_year [OF assms] and eq = date_days_eq [OF assms(1,2), of y d]
  have "year_of_day (date_days y m d) = y"
    using yd year_length [of y] by (intro year_of_day_unique) (auto simp: eq)
  then show ?thesis
    using month_of_yday_start [OF assms] assms by (simp add: civil_def Let_def eq add.assoc)
qed

lemma month_of_yday_bounds:
  assumes "0 \<le> yd" and "yd < (if lp then 366 else 365)"
  shows "month_of_yday lp yd < 12 \<and> month_start lp (month_of_yday lp yd) \<le> yd \<and>
    yd < month_start lp (Suc (month_of_yday lp yd))"
proof -
  have "\<not> yd < month_start lp 0" "yd < month_start lp 12" using assms by (auto simp: month_start_def days_before_def)
  from ex_least_nat_less [of "\<lambda>k. yd < month_start lp k" 12, OF this(2,1)] obtain k
    where k: "k < 12" "month_start lp k \<le> yd" "yd < month_start lp (Suc k)" by auto
  then show ?thesis using month_of_yday_eq [OF k] by simp
qed

text \<open>Every day has a date.\<close>

lemma date_days_civil:
  assumes "civil n = (y, m, d)"
  shows "date_days y m d = n \<and> 1 \<le> m \<and> m \<le> 12 \<and> 1 \<le> d \<and> d \<le> days_in y m"
proof -
  let ?k = "month_of_yday (leap (year_of_day n)) (n - year_start (year_of_day n))"
  have f: "y = year_of_day n" "m = int ?k + 1"
    "d = n - year_start y - month_start (leap y) ?k + 1"
    using assms by (auto simp: civil_def Let_def)
  have "0 \<le> n - year_start y" "n - year_start y < (if leap y then 366 else 365)"
    using year_of_day_bounds [of n] year_length [of y] f(1) by auto
  from month_of_yday_bounds [OF this] f show ?thesis
    using date_days_eq [of m y d] by (auto simp: days_in_def nat_add_distrib)
qed

text \<open>Later dates are later days.\<close>

lemma date_days_less_month:
  assumes "1 \<le> m" "m < m'" "m' \<le> 12" "d \<le> days_in y m" "1 \<le> d'"
  shows "date_days y m d < date_days y m' d'"
proof -
  have "month_start (leap y) (nat m) \<le> month_start (leap y) (nat (m' - 1))"
    using assms by (intro month_start_mono) auto
  with assms show ?thesis by (simp add: date_days_eq days_in_def)
qed

lemma date_days_less_year:
  assumes "1 \<le> m" "m \<le> 12" "1 \<le> d" "d \<le> days_in y m" "y < y'" "1 \<le> m'" "m' \<le> 12" "1 \<le> d'" "d' \<le> days_in y' m'"
  shows "date_days y m d < date_days y' m' d'"
proof -
  have "date_days y m d < year_start (y + 1)"
    using yday_in_year [OF assms(1-4)] by (simp add: date_days_eq assms year_length)
  also have "\<dots> \<le> year_start y'" using assms by (intro year_start_mono) simp
  also have "\<dots> \<le> date_days y' m' d'" using yday_in_year [OF assms(6-9)] by (simp add: date_days_eq assms)
  finally show ?thesis .
qed

text \<open>\<open>Date(y, m + 1, 0)\<close> is the last day of month \<open>m\<close>.\<close>

lemma date_days_day_zero:
  assumes "1 \<le> m" "m \<le> 12"
  shows "date_days y (m + 1) 0 = date_days y m (days_in y m)"
proof (cases "m = 12")
  case True
  then show ?thesis
    by (simp add: date_days_def days_in_def month_start_def days_before_def year_length Let_def)
next
  case False
  with assms show ?thesis by (simp add: date_days_eq days_in_def)
qed

lemma days_in_pos: "1 \<le> m \<Longrightarrow> m \<le> 12 \<Longrightarrow> 1 \<le> days_in y m"
  by (simp add: days_in_table)

end
