(* ===== verification/Validation.thy ===== *)
theory Validation
  imports TaskModel GoStrings GoTime
begin

text \<open>
  \<open>internal/validation/validate.go\<close>: the checks on a task before it is registered. The task
  is \<open>None\<close> for a nil pointer; \<open>None\<close> as a result is the nil error. Lengths are in bytes.
\<close>

datatype validation_error = ErrInvalid

definition validate_task :: "task option \<Rightarrow> instant \<Rightarrow> validation_error option" where
  "validate_task task now =
     (case task of
        None \<Rightarrow> Some ErrInvalid
      | Some t \<Rightarrow>
          let name = trim_space (task_name t) in
          if name = '''' \<or> 128 < length name then Some ErrInvalid
          else if trim_space (task_handler t) = '''' then Some ErrInvalid
          else if priority t < 0 \<or> 100 < priority t then Some ErrInvalid
          else if timeout t \<le> 0 \<or> day_ns < timeout t then Some ErrInvalid
          else if max_retries t < 0 \<or> 20 < max_retries t then Some ErrInvalid
          else if kind (trigger t) = ''once'' then
            (if run_at (trigger t) < now then Some ErrInvalid else None)
          else if kind (trigger t) = ''cron'' then
            (if trim_space (cron_expr (trigger t)) = '''' then Some ErrInvalid else None)
          else Some ErrInvalid)"

lemma validate_task_ok:
  "validate_task (Some t) now = None \<longleftrightarrow>
   trim_space (task_name t) \<noteq> '''' \<and> length (trim_space (task_name t)) \<le> 128 \<and>
   trim_space (task_handler t) \<noteq> '''' \<and> 0 \<le> priority t \<and> priority t \<le> 100 \<and>
   0 < timeout t \<and> timeout t \<le> day_ns \<and> 0 \<le> max_retries t \<and> max_retries t \<le> 20 \<and>
   (kind (trigger t) = ''once'' \<and> now \<le> run_at (trigger t) \<or>
    kind (trigger t) = ''cron'' \<and> trim_space (cron_expr (trigger t)) \<noteq> '''')"
  by (auto simp: validate_task_def Let_def)

end
