(* ===== verification/XXHash.thy ===== *)
theory XXHash
  imports Prelude "HOL-Library.Word"
begin

unbundle bit_operations_syntax

text \<open>
  The vendored \<open>github.com/cespare/xxhash/v2\<close>: the one-shot \<open>Sum64\<close> of the portable build
  (\<open>xxhash_other.go\<close>; the assembly of the other builds is not in the repository) and the
  streaming \<open>Digest\<close> (\<open>xxhash.go\<close>). A byte is an \<open>8 word\<close>, a \<open>uint64\<close> a \<open>64 word\<close>. The
  theorems relate the two: a digest that was written in any chunks has the hash of the
  concatenation, and survives its binary encoding.
\<close>

section \<open>The code\<close>

type_synonym byte = "8 word"
type_synonym uint64 = "64 word"

definition prime1 :: uint64 where "prime1 = 11400714785074694791"
definition prime2 :: uint64 where "prime2 = 14029467366897019727"
definition prime3 :: uint64 where "prime3 = 1609587929392839161"
definition prime4 :: uint64 where "prime4 = 9650029242287828579"
definition prime5 :: uint64 where "prime5 = 2870177450012600261"

text \<open>The little-endian readers: \<open>u64\<close> reads eight bytes, \<open>u32\<close> four (widened by its caller).\<close>

fun le_read :: "byte list \<Rightarrow> uint64" where
  "le_read [] = 0"
| "le_read (x # xs) = ucast x OR push_bit 8 (le_read xs)"

definition u64 :: "byte list \<Rightarrow> uint64" where "u64 b = le_read (take 8 b)"
definition u32 :: "byte list \<Rightarrow> uint64" where "u32 b = le_read (take 4 b)"

definition xxh_round :: "uint64 \<Rightarrow> uint64 \<Rightarrow> uint64" where
  "xxh_round acc input = word_rotl 31 (acc + input * prime2) * prime1"

definition merge_round :: "uint64 \<Rightarrow> uint64 \<Rightarrow> uint64" where
  "merge_round acc val = (acc XOR xxh_round 0 val) * prime1 + prime4"

text \<open>The four accumulators \<open>v1\<close> to \<open>v4\<close>.\<close>

datatype lanes = Lanes (lane1: uint64) (lane2: uint64) (lane3: uint64) (lane4: uint64)

definition round_block :: "lanes \<Rightarrow> byte list \<Rightarrow> lanes" where
  "round_block v b =
     Lanes (xxh_round (lane1 v) (u64 b)) (xxh_round (lane2 v) (u64 (drop 8 b)))
       (xxh_round (lane3 v) (u64 (drop 16 b))) (xxh_round (lane4 v) (u64 (drop 24 b)))"

text \<open>The loop over the full blocks of 32 bytes, with the bytes that are left.\<close>

function block_loop :: "lanes \<Rightarrow> byte list \<Rightarrow> lanes \<times> byte list" where
  "block_loop v b = (if 32 \<le> length b then block_loop (round_block v b) (drop 32 b) else (v, b))"
  by pat_completeness auto
termination by (relation "measure (\<lambda>(v, b). length b)") auto

definition merge_lanes :: "lanes \<Rightarrow> uint64" where
  "merge_lanes v =
     (let h = word_rotl 1 (lane1 v) + word_rotl 7 (lane2 v) + word_rotl 12 (lane3 v) + word_rotl 18 (lane4 v)
      in merge_round (merge_round (merge_round (merge_round h (lane1 v)) (lane2 v)) (lane3 v)) (lane4 v))"

text \<open>The rest of less than 32 bytes: words, at most one half word, bytes; then the avalanche.\<close>

function tail_words :: "uint64 \<Rightarrow> byte list \<Rightarrow> uint64 \<times> byte list" where
  "tail_words h b =
     (if 8 \<le> length b
      then tail_words (word_rotl 27 (h XOR xxh_round 0 (u64 b)) * prime1 + prime4) (drop 8 b)
      else (h, b))"
  by pat_completeness auto
termination by (relation "measure (\<lambda>(h, b). length b)") auto

definition tail_half :: "uint64 \<times> byte list \<Rightarrow> uint64 \<times> byte list" where
  "tail_half = (\<lambda>(h, b).
     if 4 \<le> length b then (word_rotl 23 (h XOR u32 b * prime1) * prime2 + prime3, drop 4 b) else (h, b))"

fun tail_bytes :: "uint64 \<Rightarrow> byte list \<Rightarrow> uint64" where
  "tail_bytes h [] = h"
| "tail_bytes h (x # b) = tail_bytes (word_rotl 11 (h XOR ucast x * prime5) * prime1) b"

definition avalanche :: "uint64 \<Rightarrow> uint64" where
  "avalanche h0 =
     (let h1 = (h0 XOR drop_bit 33 h0) * prime2;
          h2 = (h1 XOR drop_bit 29 h1) * prime3
      in h2 XOR drop_bit 32 h2)"

definition xxh_finish :: "uint64 \<Rightarrow> byte list \<Rightarrow> uint64" where
  "xxh_finish h b = (let (h', b') = tail_half (tail_words h b) in avalanche (tail_bytes h' b'))"

definition xxh_sum64 :: "byte list \<Rightarrow> uint64" where
  "xxh_sum64 b =
     (if 32 \<le> length b
      then
        let (v, b') = block_loop (Lanes (prime1 + prime2) prime2 0 (- prime1)) b
        in xxh_finish (merge_lanes v + of_nat (length b)) b'
      else xxh_finish (prime5 + of_nat (length b)) b)"

text \<open>A Go string is its bytes.\<close>

definition bytes_of :: "string \<Rightarrow> byte list" where
  "bytes_of s = map of_char s"

definition xxh_sum64_string :: "string \<Rightarrow> uint64" where
  "xxh_sum64_string s = xxh_sum64 (bytes_of s)"

subsection \<open>The streaming digest\<close>

record digest =
  dg_lanes :: lanes
  dg_total :: uint64
  dg_mem :: "byte list"
  dg_n :: nat

definition digest_reset_with_seed :: "digest \<Rightarrow> uint64 \<Rightarrow> digest" where
  "digest_reset_with_seed d seed =
     d\<lparr>dg_lanes := Lanes (seed + prime1 + prime2) (seed + prime2) seed (seed - prime1),
       dg_total := 0, dg_n := 0\<rparr>"

definition digest_reset :: "digest \<Rightarrow> digest" where
  "digest_reset d = digest_reset_with_seed d 0"

definition digest_zero :: digest where
  "digest_zero = \<lparr>dg_lanes = Lanes 0 0 0 0, dg_total = 0, dg_mem = replicate 32 0, dg_n = 0\<rparr>"

definition digest_new_with_seed :: "uint64 \<Rightarrow> digest" where
  "digest_new_with_seed seed = digest_reset_with_seed digest_zero seed"

definition digest_new :: digest where
  "digest_new = digest_new_with_seed 0"

text \<open>\<open>copy(dst[at:], src)\<close>: as many bytes as fit; and how many that are.\<close>

definition copy_at :: "byte list \<Rightarrow> nat \<Rightarrow> byte list \<Rightarrow> byte list" where
  "copy_at dst at src =
     (let c = min (length src) (length dst - at) in take at dst @ take c src @ drop (at + c) dst)"

definition copied :: "byte list \<Rightarrow> nat \<Rightarrow> byte list \<Rightarrow> nat" where
  "copied dst at src = min (length src) (length dst - at)"

definition write_blocks :: "digest \<Rightarrow> byte list \<Rightarrow> digest \<times> nat" where
  "write_blocks d b =
     (let (v, b') = block_loop (dg_lanes d) b in (d\<lparr>dg_lanes := v\<rparr>, length b - length b'))"

text \<open>The three parts of \<open>Write\<close>: finish a partial block, take the full blocks, store the rest.\<close>

definition digest_fill :: "digest \<Rightarrow> byte list \<Rightarrow> digest \<times> byte list" where
  "digest_fill d b =
     (if 0 < dg_n d
      then
        let off = dg_n d mod 32; c = copied (dg_mem d) off b; m = copy_at (dg_mem d) off b
        in (d\<lparr>dg_mem := m, dg_lanes := round_block (dg_lanes d) m, dg_n := 0\<rparr>, drop c b)
      else (d, b))"

definition digest_blocks :: "digest \<Rightarrow> byte list \<Rightarrow> digest \<times> byte list" where
  "digest_blocks d b =
     (if 32 \<le> length b then let (d', nw) = write_blocks d b in (d', drop nw b) else (d, b))"

definition digest_write :: "digest \<Rightarrow> byte list \<Rightarrow> digest" where
  "digest_write d0 b =
     (let n = length b; d = d0\<lparr>dg_total := dg_total d0 + of_nat n\<rparr> in
      if dg_n d + n < 32
      then d\<lparr>dg_mem := copy_at (dg_mem d) (dg_n d mod 32) b, dg_n := dg_n d + n\<rparr>
      else
        let (d1, b1) = digest_fill d b; (d2, b2) = digest_blocks d1 b1
        in d2\<lparr>dg_mem := copy_at (dg_mem d2) 0 b2, dg_n := length b2\<rparr>)"

definition digest_write_string :: "digest \<Rightarrow> string \<Rightarrow> digest" where
  "digest_write_string d s = digest_write d (bytes_of s)"

definition digest_sum64 :: "digest \<Rightarrow> uint64" where
  "digest_sum64 d =
     xxh_finish
       ((if 32 \<le> dg_total d then merge_lanes (dg_lanes d) else lane3 (dg_lanes d) + prime5) + dg_total d)
       (take (dg_n d mod 32) (dg_mem d))"

definition digest_sum :: "digest \<Rightarrow> byte list \<Rightarrow> byte list" where
  "digest_sum d b =
     (let s = digest_sum64 d
      in b @ [ucast (drop_bit 56 s), ucast (drop_bit 48 s), ucast (drop_bit 40 s), ucast (drop_bit 32 s),
              ucast (drop_bit 24 s), ucast (drop_bit 16 s), ucast (drop_bit 8 s), ucast s])"

subsection \<open>The binary encoding of a digest\<close>

datatype digest_error = BadIdentifier | BadSize

definition magic :: "byte list" where
  "magic = bytes_of ''xxh'' @ [6]"

definition marshaled_size :: nat where
  "marshaled_size = length magic + 8 * 5 + 32"

definition append_uint64 :: "byte list \<Rightarrow> uint64 \<Rightarrow> byte list" where
  "append_uint64 b x = b @ map (\<lambda>i. ucast (drop_bit (8 * i) x)) [0..<8]"

definition consume_uint64 :: "byte list \<Rightarrow> byte list \<times> uint64" where
  "consume_uint64 b = (drop 8 b, u64 b)"

text \<open>The encoding ends with the used bytes of the buffer, padded with the zeros of a new slice.\<close>

definition digest_marshal :: "digest \<Rightarrow> byte list" where
  "digest_marshal d =
     (let b = append_uint64 magic (lane1 (dg_lanes d)); b = append_uint64 b (lane2 (dg_lanes d));
          b = append_uint64 b (lane3 (dg_lanes d)); b = append_uint64 b (lane4 (dg_lanes d));
          b = append_uint64 b (dg_total d); b = b @ take (dg_n d) (dg_mem d)
      in b @ replicate (length (dg_mem d) - dg_n d) 0)"

definition digest_unmarshal :: "digest \<Rightarrow> byte list \<Rightarrow> digest_error + digest" where
  "digest_unmarshal d b0 =
     (if length b0 < length magic \<or> take (length magic) b0 \<noteq> magic then Inl BadIdentifier
      else if length b0 \<noteq> marshaled_size then Inl BadSize
      else
        let b = drop (length magic) b0;
            (b, v1) = consume_uint64 b; (b, v2) = consume_uint64 b; (b, v3) = consume_uint64 b;
            (b, v4) = consume_uint64 b; (b, total) = consume_uint64 b
        in Inr (d\<lparr>dg_lanes := Lanes v1 v2 v3 v4, dg_total := total, dg_mem := copy_at (dg_mem d) 0 b,
                  dg_n := unat (total mod 32)\<rparr>))"

section \<open>The block loop\<close>

declare block_loop.simps [simp del] tail_words.simps [simp del]

lemma block_loop_short [simp]: "length b < 32 \<Longrightarrow> block_loop v b = (v, b)"
  by (simp add: block_loop.simps)

lemma block_loop_step: "32 \<le> length b \<Longrightarrow> block_loop v b = block_loop (round_block v b) (drop 32 b)"
  by (simp add: block_loop.simps [of v b])

lemma block_loop_rest: "length (snd (block_loop v b)) = length b mod 32"
proof (induction v b rule: block_loop.induct)
  case (1 v b)
  show ?case
  proof (cases "32 \<le> length b")
    case True
    with 1 show ?thesis by (simp add: block_loop_step le_mod_geq)
  qed simp
qed

text \<open>Only the first 32 bytes enter a round.\<close>

lemma round_block_append: "length b = 32 \<Longrightarrow> round_block v (b @ c) = round_block v b"
  by (simp add: round_block_def u64_def)

lemma block_loop_append:
  "block_loop v (b @ c) = block_loop (fst (block_loop v b)) (snd (block_loop v b) @ c)"
proof (induction v b rule: block_loop.induct)
  case (1 v b)
  show ?case
  proof (cases "32 \<le> length b")
    case True
    have "round_block v (b @ c) = round_block v b"
      using True round_block_append [of "take 32 b" v "drop 32 b @ c"]
        round_block_append [of "take 32 b" v "drop 32 b"] by (simp flip: append_assoc)
    with 1 True show ?thesis by (simp add: block_loop_step)
  qed simp
qed

lemma block_loop_snoc_block:
  "length r + length c = 32 \<Longrightarrow> block_loop v (r @ c @ b) = block_loop (round_block v (r @ c)) b"
  using block_loop_append [of v "r @ c" b] by (simp add: block_loop_step)

section \<open>The digest's invariant\<close>

definition lanes_init :: "uint64 \<Rightarrow> lanes" where
  "lanes_init seed = Lanes (seed + prime1 + prime2) (seed + prime2) seed (seed - prime1)"

text \<open>\<open>digest_of seed bs d\<close>: the digest \<open>d\<close> was created with the seed and written with \<open>bs\<close>.\<close>

definition digest_of :: "uint64 \<Rightarrow> byte list \<Rightarrow> digest \<Rightarrow> bool" where
  "digest_of seed bs d \<longleftrightarrow>
     block_loop (lanes_init seed) bs = (dg_lanes d, take (dg_n d) (dg_mem d)) \<and>
     dg_n d = length bs mod 32 \<and> length (dg_mem d) = 32 \<and> dg_total d = of_nat (length bs)"

lemma digest_of_new: "digest_of seed [] (digest_new_with_seed seed)"
  by (simp add: digest_of_def digest_new_with_seed_def digest_reset_with_seed_def digest_zero_def lanes_init_def)

lemma digest_of_reset: "length (dg_mem d) = 32 \<Longrightarrow> digest_of seed [] (digest_reset_with_seed d seed)"
  by (simp add: digest_of_def digest_reset_with_seed_def lanes_init_def)

lemma copy_at_fits:
  "at + length src \<le> length dst \<Longrightarrow> copy_at dst at src = take at dst @ src @ drop (at + length src) dst"
  by (auto simp: copy_at_def Let_def min_def)

lemma length_copy_at [simp]: "at \<le> length dst \<Longrightarrow> length (copy_at dst at src) = length dst"
  by (auto simp: copy_at_def Let_def min_def)

text \<open>Storing what is left after the full blocks, the last step of a write.\<close>

lemma digest_of_store:
  assumes "block_loop (lanes_init seed) bs = (dg_lanes d, r)" and "length (dg_mem d) = 32"
    and "dg_total d = of_nat (length bs)"
  shows "digest_of seed bs (d\<lparr>dg_mem := copy_at (dg_mem d) 0 r, dg_n := length r\<rparr>)"
proof -
  have r: "length r = length bs mod 32" using block_loop_rest [of "lanes_init seed" bs] assms(1) by simp
  then have "length r \<le> 32" by simp
  with assms r show ?thesis by (simp add: digest_of_def copy_at_fits)
qed

lemma block_loop_suffix: "drop (length b - length (snd (block_loop v b))) b = snd (block_loop v b)"
proof (induction v b rule: block_loop.induct)
  case (1 v b)
  show ?case
  proof (cases "32 \<le> length b")
    case True
    let ?r = "snd (block_loop (round_block v b) (drop 32 b))"
    have "length ?r \<le> length b - 32" using block_loop_rest [of "round_block v b" "drop 32 b"] by simp
    then have "length b - length ?r = length (drop 32 b) - length ?r + 32" using True by simp
    moreover have "drop (length (drop 32 b) - length ?r) (drop 32 b) = ?r" by (rule 1 [OF True])
    ultimately have "drop (length b - length ?r) b = ?r" by (simp only: drop_drop)
    with True show ?thesis by (simp only: block_loop_step)
  qed simp
qed

lemma digest_blocks_loop:
  "digest_blocks d b =
   (d\<lparr>dg_lanes := fst (block_loop (dg_lanes d) b)\<rparr>, snd (block_loop (dg_lanes d) b))"
  using block_loop_suffix [of b "dg_lanes d"]
  by (simp add: digest_blocks_def write_blocks_def split_beta)

text \<open>Filling the buffer is one step of the loop over the buffered and the new bytes.\<close>

lemma digest_fill_loop:
  assumes "dg_n d < 32" and "length (dg_mem d) = 32" and "32 \<le> dg_n d + length b"
  shows "block_loop (dg_lanes d) (take (dg_n d) (dg_mem d) @ b) =
      block_loop (dg_lanes (fst (digest_fill d b))) (snd (digest_fill d b)) \<and>
    length (dg_mem (fst (digest_fill d b))) = 32 \<and> dg_total (fst (digest_fill d b)) = dg_total d"
proof (cases "0 < dg_n d")
  case True
  let ?r = "take (dg_n d) (dg_mem d)"
  have c: "copied (dg_mem d) (dg_n d) b = 32 - dg_n d" using assms by (simp add: copied_def)
  have full: "copy_at (dg_mem d) (dg_n d) b = ?r @ take (32 - dg_n d) b"
    using assms by (simp add: copy_at_def Let_def min_def)
  have "length ?r + length (take (32 - dg_n d) b) = 32" using assms by simp
  from block_loop_snoc_block [OF this, of "dg_lanes d" "drop (32 - dg_n d) b"] True c full assms
  show ?thesis by (simp add: digest_fill_def Let_def)
qed (use assms in \<open>simp add: digest_fill_def\<close>)

lemma digest_write_of:
  assumes d: "digest_of seed bs d"
  shows "digest_of seed (bs @ b) (digest_write d b)"
proof -
  let ?r = "take (dg_n d) (dg_mem d)" and ?d = "d\<lparr>dg_total := dg_total d + of_nat (length b)\<rparr>"
  have n: "dg_n d < 32" "dg_n d mod 32 = dg_n d" "length ?r = dg_n d"
    and m: "length (dg_mem d) = 32" and tot: "dg_total d + of_nat (length b) = of_nat (length (bs @ b))"
    using d by (auto simp: digest_of_def)
  have loop: "block_loop (lanes_init seed) (bs @ b) = block_loop (dg_lanes d) (?r @ b)"
    using block_loop_append [of _ bs b] d by (simp add: digest_of_def)
  show ?thesis
  proof (cases "dg_n d + length b < 32")
    case True
    have "dg_n d + length b = length (bs @ b) mod 32"
      using True d by (simp add: digest_of_def) (metis mod_add_left_eq mod_less)
    with True loop n m tot show ?thesis
      by (simp add: digest_write_def digest_of_def copy_at_fits Let_def)
  next
    case False
    obtain d1 b1 where f: "digest_fill ?d b = (d1, b1)" by fastforce
    have fill: "block_loop (dg_lanes d) (?r @ b) = block_loop (dg_lanes d1) b1"
      "length (dg_mem d1) = 32" "dg_total d1 = of_nat (length (bs @ b))"
      using digest_fill_loop [of ?d b] n m tot False f by simp_all
    obtain v r where vr: "block_loop (dg_lanes d1) b1 = (v, r)" by fastforce
    let ?d2 = "d1\<lparr>dg_lanes := v\<rparr>"
    have "digest_write d b = ?d2\<lparr>dg_mem := copy_at (dg_mem ?d2) 0 r, dg_n := length r\<rparr>"
      using False f vr by (simp add: digest_write_def Let_def digest_blocks_loop)
    moreover have "digest_of seed (bs @ b) (?d2\<lparr>dg_mem := copy_at (dg_mem ?d2) 0 r, dg_n := length r\<rparr>)"
      using loop fill vr by (intro digest_of_store) simp_all
    ultimately show ?thesis by simp
  qed
qed

lemma total_full: "length bs < 2 ^ 63 \<Longrightarrow> (32 :: uint64) \<le> of_nat (length bs) \<longleftrightarrow> 32 \<le> length bs"
  by (simp add: word_le_nat_alt unat_of_nat)

lemma digest_sum64_of:
  assumes d: "digest_of 0 bs d" and len: "length bs < 2 ^ 63"
  shows "digest_sum64 d = xxh_sum64 bs"
proof -
  have init: "lanes_init 0 = Lanes (prime1 + prime2) prime2 0 (- prime1)" by (simp add: lanes_init_def)
  have n: "dg_n d mod 32 = dg_n d" and tot: "dg_total d = of_nat (length bs)"
    and loop: "block_loop (lanes_init 0) bs = (dg_lanes d, take (dg_n d) (dg_mem d))"
    using d by (simp_all add: digest_of_def)
  show ?thesis
  proof (cases "32 \<le> length bs")
    case True
    with loop n tot init total_full [OF len] show ?thesis by (simp add: digest_sum64_def xxh_sum64_def)
  next
    case False
    then have "dg_lanes d = lanes_init 0" "take (dg_n d) (dg_mem d) = bs" using loop by simp_all
    with False n tot total_full [OF len] show ?thesis
      by (simp add: digest_sum64_def xxh_sum64_def init add.commute)
  qed
qed

section \<open>The binary encoding\<close>

lemma le_read_bytes:
  "le_read (map (\<lambda>i. ucast (drop_bit (8 * i) x)) [k..<k + m]) = take_bit (8 * m) (drop_bit (8 * k) x)"
proof (induction m arbitrary: k)
  case (Suc m)
  have "[k..<k + Suc m] = k # [Suc k..<Suc k + m]" by (simp add: upt_conv_Cons)
  then have "le_read (map (\<lambda>i. ucast (drop_bit (8 * i) x)) [k..<k + Suc m]) =
      ucast (ucast (drop_bit (8 * k) x) :: byte) OR push_bit 8 (take_bit (8 * m) (drop_bit (8 * Suc k) x))"
    using Suc.IH [of "Suc k"] by simp
  also have "\<dots> = take_bit (8 * Suc m) (drop_bit (8 * k) x)"
  proof (rule bit_word_eqI)
    fix n assume "n < LENGTH(64)"
    then show "bit (ucast (ucast (drop_bit (8 * k) x) :: byte) OR push_bit 8 (take_bit (8 * m) (drop_bit (8 * Suc k) x))) n =
        bit (take_bit (8 * Suc m) (drop_bit (8 * k) x)) n"
      by (cases "n < 8") (auto simp: bit_simps)
  qed
  finally show ?case .
qed simp

lemma u64_append [simp]: "u64 (map (\<lambda>i. ucast (drop_bit (8 * i) x)) [0..<8] @ b) = x"
  using le_read_bytes [of x 0 8] take_bit_length_eq [of x] by (simp add: u64_def)

lemma consume_append [simp]:
  "consume_uint64 (map (\<lambda>i. ucast (drop_bit (8 * i) x)) [0..<8] @ b) = (b, x)"
  by (simp add: consume_uint64_def)

lemma magic_length [simp]: "length magic = 4"
  by (simp add: magic_def bytes_of_def)

lemma digest_unmarshal_marshal:
  assumes "dg_n d = unat (dg_total d mod 32)" and "length (dg_mem d) = 32" and "length (dg_mem d') = 32"
  shows "digest_unmarshal d' (digest_marshal d) =
    Inr (d'\<lparr>dg_lanes := dg_lanes d, dg_total := dg_total d,
            dg_mem := take (dg_n d) (dg_mem d) @ replicate (32 - dg_n d) 0, dg_n := dg_n d\<rparr>)"
proof -
  let ?le = "\<lambda>x :: uint64. map (\<lambda>i. ucast (drop_bit (8 * i) x) :: byte) [0..<8]"
  let ?m = "take (dg_n d) (dg_mem d) @ replicate (32 - dg_n d) 0"
  have n: "dg_n d < 32" using unat_mono [OF word_mod_less_divisor [of 32 "dg_total d"]] assms(1) by simp
  have m: "digest_marshal d = magic @ ?le (lane1 (dg_lanes d)) @ ?le (lane2 (dg_lanes d)) @
      ?le (lane3 (dg_lanes d)) @ ?le (lane4 (dg_lanes d)) @ ?le (dg_total d) @ ?m"
    using assms(2) by (simp add: digest_marshal_def append_uint64_def Let_def)
  have size: "length (digest_marshal d) = marshaled_size"
    using n assms(2) by (simp add: m marshaled_size_def del: map_append upt_Suc)
  have copy: "copy_at (dg_mem d') 0 ?m = ?m" using n assms(2,3) by (simp add: copy_at_def)
  show ?thesis
    using size copy assms(1)
    by (simp add: digest_unmarshal_def marshaled_size_def Let_def m del: map_append upt_Suc)
qed

lemma digest_of_index:
  assumes "digest_of seed bs d"
  shows "dg_n d = unat (dg_total d mod 32)"
proof -
  have "(32 :: nat) dvd 2 ^ 64" by simp
  then have "length bs mod 2 ^ 64 mod 32 = length bs mod 32" by (rule mod_mod_cancel)
  with assms show ?thesis by (simp add: digest_of_def unat_mod unat_of_nat)
qed

section \<open>Published test vectors\<close>

lemma xxh_sum64_vectors:
  "xxh_sum64 [] = 0xEF46DB3751D8E999"
  "xxh_sum64_string ''a'' = 0xD24EC4F1A98C6E5B"
  "xxh_sum64_string ''Call me Ishmael. Some years ago--never mind how long precisely-'' = 0x02A2E85470D6FD96"
  by code_simp+

section \<open>Properties\<close>

text \<open>
  C36. Streaming agrees with the one-shot hash: a digest with seed zero that was written with
  the chunks \<open>cs\<close>, however the bytes are cut into chunks, has the hash of their
  concatenation (for less than 2^63 bytes, the lengths a slice can have).
\<close>

theorem digest_stream_sum64:
  assumes "length (concat cs) < 2 ^ 63"
  shows "digest_sum64 (foldl digest_write digest_new cs) = xxh_sum64 (concat cs)"
proof -
  have "digest_of 0 (concat (rev ds)) (foldr (\<lambda>c d. digest_write d c) ds digest_new)" for ds
  proof (induction ds)
    case Nil
    show ?case by (simp add: digest_new_def digest_of_new)
  next
    case (Cons c ds)
    with digest_write_of [OF Cons, of c] show ?case by simp
  qed
  from digest_sum64_of [OF this [of "rev cs"]] assms show ?thesis by (simp add: foldl_conv_foldr)
qed

theorem digest_stream_sum64_witness:
  "digest_sum64 (digest_write (digest_write digest_new (replicate 20 7)) (replicate 30 9)) =
     xxh_sum64 (replicate 20 7 @ replicate 30 9)"
  using digest_stream_sum64 [of "[replicate 20 7, replicate 30 9]"] by simp

text \<open>
  C37. The binary encoding of a digest restores it: decoding the encoding of a digest that
  has seen the bytes \<open>bs\<close> succeeds, whatever digest it is decoded into, and gives one that
  has seen \<open>bs\<close>, so it continues and hashes as the original does.
\<close>

theorem digest_marshal_roundtrip:
  assumes d: "digest_of seed bs d" and d': "length (dg_mem d') = 32"
  shows "case digest_unmarshal d' (digest_marshal d) of
      Inr e \<Rightarrow> digest_of seed bs e \<and> digest_sum64 e = digest_sum64 d
    | Inl _ \<Rightarrow> False"
proof -
  have n: "dg_n d < 32" "length (dg_mem d) = 32" using d by (simp_all add: digest_of_def)
  with digest_unmarshal_marshal [OF digest_of_index [OF d] n(2) d'] d show ?thesis
    by (simp add: digest_of_def digest_sum64_def)
qed

theorem digest_marshal_roundtrip_witness:
  "case digest_unmarshal digest_zero (digest_marshal (digest_write digest_new (replicate 40 7))) of
      Inr e \<Rightarrow> digest_of 0 (replicate 40 7) e \<and> digest_sum64 e = digest_sum64 (digest_write digest_new (replicate 40 7))
    | Inl _ \<Rightarrow> False"
proof -
  have d: "digest_of 0 (replicate 40 7) (digest_write digest_new (replicate 40 7))"
    using digest_write_of [OF digest_of_new, of 0 "replicate 40 7"] by (simp add: digest_new_def)
  have "length (dg_mem digest_zero) = 32" by (simp add: digest_zero_def)
  from digest_marshal_roundtrip [OF d this] show ?thesis .
qed

end
