(* ===== verification/IdGen.thy ===== *)
theory IdGen
  imports GoStrings XXHash
begin

text \<open>
  \<open>internal/idgen/idgen.go\<close>: identifiers made of a prefix, a sequence number and sixteen
  bits of a hash. The wall clock that enters the hash is the argument \<open>nano\<close>. What makes
  the identifiers unique is the sequence number, which this theory reads back from them.
\<close>

section \<open>The code\<close>

text \<open>The generator's state is its \<open>seq\<close>; \<open>Add\<close> wraps.\<close>

definition id_next :: "uint64 \<Rightarrow> string \<Rightarrow> int \<Rightarrow> uint64 \<times> string" where
  "id_next g prefix nano =
     (let n = g + 1;
          sum = xxh_sum64_string (prefix @ digits 10 (unat n) @ format_int nano)
      in (n, prefix @ ''-'' @ digits 10 (unat n) @ ''-'' @ digits 16 (unat (sum AND 0xFFFF))))"

section \<open>Uniqueness\<close>

lemma fst_id_next [simp]: "fst (id_next g p x) = g + 1"
  by (simp add: id_next_def Let_def)

lemma split_at_dash:
  assumes "CHR ''-'' \<notin> set a" and "CHR ''-'' \<notin> set b" and "a @ CHR ''-'' # r = b @ CHR ''-'' # s"
  shows "a = b"
  using assms
proof (induction a arbitrary: b)
  case Nil
  then show ?case by (cases b) auto
next
  case (Cons x a)
  then show ?case by (cases b) auto
qed

text \<open>An identifier determines its sequence number, and its prefix when prefixes have no dash.\<close>

lemma id_next_seq:
  assumes "snd (id_next g p x) = snd (id_next g' p y)"
  shows "g = g'"
proof -
  have "digits 10 (unat (g + 1)) = digits 10 (unat (g' + 1))"
    using assms by (intro split_at_dash [OF digits_no_dash digits_no_dash]) (simp add: id_next_def Let_def)
  then have "g + 1 = g' + 1" by (simp only: digits_ten_inject) (simp only: word_unat_eq_iff)
  then show ?thesis by simp
qed

lemma id_next_prefix:
  assumes "snd (id_next g p x) = snd (id_next g' q y)" and "CHR ''-'' \<notin> set p" and "CHR ''-'' \<notin> set q"
  shows "p = q"
  using assms(1) by (intro split_at_dash [OF assms(2,3)]) (simp add: id_next_def Let_def)

text \<open>A run of calls, each with its prefix and the nanoseconds it read.\<close>

fun id_run :: "uint64 \<Rightarrow> (string \<times> int) list \<Rightarrow> string list" where
  "id_run g [] = []"
| "id_run g ((p, x) # reqs) = (let (g', i) = id_next g p x in i # id_run g' reqs)"

lemma id_run_in:
  "i \<in> set (id_run g reqs) \<Longrightarrow>
   \<exists>k p x. k < length reqs \<and> p \<in> fst ` set reqs \<and> i = snd (id_next (g + of_nat k) p x)"
proof (induction g reqs rule: id_run.induct)
  case (2 g p x reqs)
  obtain g' j where n: "id_next g p x = (g', j)" by fastforce
  then have g': "g' = g + 1" using fst_id_next [of g p x] by simp
  show ?case
  proof (cases "i = j")
    case True
    with n show ?thesis by (intro exI [of _ 0] exI [of _ p] exI [of _ x]) simp
  next
    case False
    with 2(2) n have "i \<in> set (id_run g' reqs)" by simp
    from 2(1) [OF n [symmetric] refl this] obtain k q y
      where "k < length reqs" "q \<in> fst ` set reqs" "i = snd (id_next (g' + of_nat k) q y)" by blast
    then show ?thesis
      by (intro exI [of _ "Suc k"] exI [of _ q] exI [of _ y]) (auto simp: g' add.assoc)
  qed
qed simp

text \<open>
  C38. Fewer than 2^64 identifiers in a row are pairwise different, whatever the prefixes
  (without a dash, as all of the program's are) and whatever the wall clock shows.
\<close>

theorem id_run_distinct:
  assumes "length reqs < 2 ^ 64" and "\<forall>(p, x) \<in> set reqs. CHR ''-'' \<notin> set p"
  shows "distinct (id_run g reqs)"
  using assms
proof (induction g reqs rule: id_run.induct)
  case (2 g p x reqs)
  obtain g' j where n: "id_next g p x = (g', j)" by fastforce
  then have g': "g' = g + 1" using fst_id_next [of g p x] by simp
  have "j \<notin> set (id_run g' reqs)"
  proof
    assume "j \<in> set (id_run g' reqs)"
    from id_run_in [OF this] obtain k q y
      where k: "k < length reqs" "q \<in> fst ` set reqs" "j = snd (id_next (g' + of_nat k) q y)" by blast
    have "p = q" using id_next_prefix [of g p x "g' + of_nat k" q y] k n 2(3) by auto
    with id_next_seq [of g p x "g' + of_nat k" y] k(3) n g' have "g = g + 1 + of_nat k" by simp
    then have "(of_nat (Suc k) :: uint64) = 0" by (simp add: add.assoc)
    then have "2 ^ 64 dvd Suc k" by (simp only: word_of_nat_eq_0_iff) simp
    then have "2 ^ 64 \<le> Suc k" by (rule dvd_imp_le) simp
    with k(1) 2(2) show False by simp
  qed
  moreover have "distinct (id_run g' reqs)" using 2 n by simp
  ultimately show ?case by (simp add: n)
qed simp

theorem id_run_distinct_witness:
  "distinct (id_run 0 [(''task'', 17), (''task'', 17), (''lease'', 3)])"
  by (rule id_run_distinct) simp_all

end
