(* ===== verification/Cron.thy ===== *)
theory Cron
  imports GoStrings GoTime
begin

text \<open>
  \<open>internal/cron/parser.go\<close>: five-field cron expressions and their next fire time. The
  stepping loop of the parser adds in 64-bit integers and may wrap, so it is a
  \<open>partial_function\<close> whose result is \<open>None\<close> when it does not return; the theory proves that
  it always returns. The calendar is that of \<open>GoTime\<close>.
\<close>

section \<open>The code: parsing\<close>

datatype field_error = InvalidStep string | OutOfRange string | InvalidRange string | InvalidField string

datatype cron_error = NotFiveFields string | FieldError string field_error

record schedule =
  sc_minute :: "int list"
  sc_hour :: "int list"
  sc_day_of_month :: "int list"
  sc_month :: "int list"
  sc_day_of_week :: "int list"

text \<open>\<open>for v := lo; v <= hi; v += step\<close>\<close>

partial_function (option) step_loop :: "int \<Rightarrow> int \<Rightarrow> int \<Rightarrow> int list option" where
  "step_loop v hi step =
     (if v \<le> hi then Option.bind (step_loop (wrap64 (v + step)) hi step) (\<lambda>vs. Some (v # vs)) else Some [])"

definition part_step :: "string \<Rightarrow> field_error + string \<times> int" where
  "part_step part =
     (case go_index (CHR ''/'') part of
        None \<Rightarrow> Inr (part, 1)
      | Some idx \<Rightarrow>
          (case atoi (drop (idx + 1) part) of
             None \<Rightarrow> Inl (InvalidStep part)
           | Some n \<Rightarrow> if n \<le> 0 then Inl (InvalidStep part) else Inr (take idx part, n)))"

definition base_range :: "string \<Rightarrow> int \<Rightarrow> int \<Rightarrow> field_error + int \<times> int" where
  "base_range base mn mx =
     (if base = ''*'' then Inr (mn, mx)
      else
        case go_split (CHR ''-'') base of
          [_] \<Rightarrow>
            (case atoi base of
               None \<Rightarrow> Inl (OutOfRange base)
             | Some v \<Rightarrow> if v < mn \<or> mx < v then Inl (OutOfRange base) else Inr (v, v))
        | [p, q] \<Rightarrow>
            (case (atoi p, atoi q) of
               (Some a, Some b) \<Rightarrow>
                 if a < mn \<or> mx < b \<or> b < a then Inl (InvalidRange base) else Inr (a, b)
             | _ \<Rightarrow> Inl (InvalidRange base))
        | _ \<Rightarrow> Inl (InvalidField base))"

definition part_range :: "string \<Rightarrow> int \<Rightarrow> int \<Rightarrow> field_error + int \<times> int \<times> int" where
  "part_range part mn mx =
     (case part_step part of
        Inl e \<Rightarrow> Inl e
      | Inr (base, step) \<Rightarrow>
          (case base_range base mn mx of Inl e \<Rightarrow> Inl e | Inr (lo, hi) \<Rightarrow> Inr (lo, hi, step)))"

fun parse_parts :: "string list \<Rightarrow> int \<Rightarrow> int \<Rightarrow> (field_error + int list) option" where
  "parse_parts [] mn mx = Some (Inr [])"
| "parse_parts (part # parts) mn mx =
     (case part_range part mn mx of
        Inl e \<Rightarrow> Some (Inl e)
      | Inr (lo, hi, step) \<Rightarrow>
          (case step_loop lo hi step of
             None \<Rightarrow> None
           | Some vs \<Rightarrow>
               (case parse_parts parts mn mx of
                  Some (Inr ws) \<Rightarrow> Some (Inr (vs @ ws))
                | r \<Rightarrow> r)))"

definition parse_field :: "string \<Rightarrow> int \<Rightarrow> int \<Rightarrow> (field_error + int list) option" where
  "parse_field raw mn mx =
     (if raw = ''*'' then Some (Inr [mn..mx]) else parse_parts (go_split (CHR '','') raw) mn mx)"

text \<open>One field of \<open>Parse\<close>: its error is wrapped with its name, its values go on.\<close>

definition with_field ::
  "string \<Rightarrow> string \<Rightarrow> int \<Rightarrow> int \<Rightarrow> (int list \<Rightarrow> (cron_error + schedule) option) \<Rightarrow> (cron_error + schedule) option" where
  "with_field name raw mn mx k =
     (case parse_field raw mn mx of
        None \<Rightarrow> None
      | Some (Inl e) \<Rightarrow> Some (Inl (FieldError name e))
      | Some (Inr vs) \<Rightarrow> k vs)"

definition cron_parse_run :: "string \<Rightarrow> (cron_error + schedule) option" where
  "cron_parse_run expr =
     (let fields = go_fields expr in
      if length fields \<noteq> 5 then Some (Inl (NotFiveFields expr))
      else
        with_field ''minute'' (fields ! 0) 0 59 (\<lambda>minute.
        with_field ''hour'' (fields ! 1) 0 23 (\<lambda>hour.
        with_field ''day-of-month'' (fields ! 2) 1 31 (\<lambda>dom.
        with_field ''month'' (fields ! 3) 1 12 (\<lambda>month.
        with_field ''day-of-week'' (fields ! 4) 0 6 (\<lambda>dow.
          Some (Inr \<lparr>sc_minute = minute, sc_hour = hour, sc_day_of_month = dom,
                     sc_month = month, sc_day_of_week = dow\<rparr>)))))))"

text \<open>What the callers see; \<open>cron_parse_run\<close> is never \<open>None\<close>.\<close>

definition cron_parse :: "string \<Rightarrow> cron_error + schedule" where
  "cron_parse expr = the (cron_parse_run expr)"

section \<open>The code: the next fire time\<close>

definition go_contains :: "int list \<Rightarrow> int \<Rightarrow> bool" where
  "go_contains xs v \<longleftrightarrow> v \<in> set xs"

definition days_in_month :: "int \<Rightarrow> int \<Rightarrow> int" where
  "days_in_month y m = snd (snd (civil (date_days y (m + 1) 0)))"

definition next_in_hour :: "schedule \<Rightarrow> instant \<Rightarrow> instant \<Rightarrow> int \<Rightarrow> instant option" where
  "next_in_hour s after candidate h =
     first_some (\<lambda>minute.
       if \<not> go_contains (sc_minute s) minute then None
       else
         let c = candidate + (h * hour_ns + minute * minute_ns)
         in if after < c then Some c else None) [0..59]"

definition next_in_day :: "schedule \<Rightarrow> instant \<Rightarrow> int \<Rightarrow> int \<Rightarrow> int \<Rightarrow> instant option" where
  "next_in_day s after y m d =
     (if \<not> go_contains (sc_day_of_month s) d then None
      else if \<not> go_contains (sc_day_of_week s) (weekday (date_days y m d)) then None
      else
        first_some (\<lambda>h.
          if \<not> go_contains (sc_hour s) h then None
          else next_in_hour s after (date_utc y m d) h) [0..23])"

definition next_in_month :: "schedule \<Rightarrow> instant \<Rightarrow> int \<Rightarrow> int \<Rightarrow> instant option" where
  "next_in_month s after y m =
     (if \<not> go_contains (sc_month s) m then None
      else first_some (next_in_day s after y m) [1..days_in_month y m])"

definition cron_next :: "location \<Rightarrow> schedule \<Rightarrow> instant \<Rightarrow> instant" where
  "cron_next loc s after =
     (let t = truncate_minute after + minute_ns in
      case first_some (\<lambda>y. first_some (next_in_month s after y) [1..12])
             [year_in loc t..year_in loc after + 8] of
        Some c \<Rightarrow> c
      | None \<Rightarrow> add_years loc after 8)"

section \<open>The stepping loop returns\<close>

lemma step_loop_stop [simp]: "hi < v \<Longrightarrow> step_loop v hi step = Some []"
  by (simp add: step_loop.simps)

lemma step_loop_step:
  "v \<le> hi \<Longrightarrow> step_loop v hi step = map_option ((#) v) (step_loop (wrap64 (v + step)) hi step)"
  by (subst step_loop.simps) (simp add: map_conv_bind_option comp_def)

lemma step_filter:
  assumes "0 < step" and "v \<le> hi"
  shows "filter (\<lambda>x. step dvd x - v) [v..hi] = v # filter (\<lambda>x. step dvd x - (v + step)) [v + step..hi]"
proof -
  have none: "\<not> step dvd x - v" if "v < x" "x < v + step" for x
    using that assms(1) by (auto dest: zdvd_imp_le)
  have eq: "step dvd x - v \<longleftrightarrow> step dvd x - (v + step)" for x
    using dvd_diff_left_iff [of step step "x - v"] by (simp add: diff_diff_eq [symmetric] diff_right_commute)
  have cat: "[v + 1..hi] = [v + 1..min hi (v + step - 1)] @ [v + step..hi]"
  proof (cases "v + step \<le> hi")
    case True
    then show ?thesis using upto_split1 [of "v + 1" "v + step" hi] assms by simp
  qed (use assms in simp)
  have "filter (\<lambda>x. step dvd x - v) [v + 1..min hi (v + step - 1)] = []"
    using none by (auto simp: filter_empty_conv)
  then show ?thesis
    using assms(2) upto_rec1 [of v hi] by (simp add: cat eq)
qed

lemma wrap64_down: "2 ^ 63 \<le> x \<Longrightarrow> x < 3 * 2 ^ 63 \<Longrightarrow> wrap64 x = x - 2 ^ 64"
proof -
  assume x: "2 ^ 63 \<le> x" "x < 3 * 2 ^ 63"
  then have "(x + 2 ^ 63) mod 2 ^ 64 = x + 2 ^ 63 - 2 ^ 64"
    using div_between [of "2 ^ 64" 1 "x + 2 ^ 63"] by simp
  then show ?thesis by (simp add: wrap64_def)
qed

text \<open>Without overflow: the values from \<open>v\<close> in steps, up to \<open>hi\<close>.\<close>

lemma step_loop_exact:
  assumes "0 < step" and "- (2 ^ 63) \<le> v" and "hi + step < 2 ^ 63" and "hi < 2 ^ 63"
  shows "step_loop v hi step = Some (filter (\<lambda>x. step dvd x - v) [v..hi])"
  using assms
proof (induction "nat (hi - v + 1)" arbitrary: v rule: less_induct)
  case less
  show ?case
  proof (cases "v \<le> hi")
    case True
    then have w: "wrap64 (v + step) = v + step" using less.prems by (intro wrap64_id) (simp add: in_int64_def)
    have "step_loop (v + step) hi step = Some (filter (\<lambda>x. step dvd x - (v + step)) [v + step..hi])"
      using less.prems True by (intro less.hyps) auto
    moreover have "filter (\<lambda>x. step dvd x - v) [v..hi] = v # filter (\<lambda>x. step dvd x - (v + step)) [v + step..hi]"
      by (rule step_filter [OF less.prems(1) True])
    ultimately show ?thesis using True w by (simp add: step_loop_step)
  qed simp
qed

text \<open>
  With overflow, that is when \<open>v + step\<close> can pass the largest integer from a value up to
  \<open>hi\<close>: two steps bring the value down by twice the gap \<open>k\<close>, until a step ends above \<open>hi\<close>.
\<close>

lemma step_loop_wraps:
  assumes "0 < k" and "k \<le> hi" and "hi \<le> 59" and "step = 2 ^ 63 - k" and "- k \<le> v" and "v \<le> hi"
  shows "\<exists>vs. step_loop v hi step = Some vs"
  using assms(5,6)
proof (induction "nat (v + k)" arbitrary: v rule: less_induct)
  case less
  show ?case
  proof (cases "v < k")
    case True
    then have "wrap64 (v + step) = v + step"
      using assms(1-4) less.prems by (intro wrap64_id) (simp add: in_int64_def)
    moreover have "hi < v + step" using assms(1-4) less.prems by simp
    ultimately show ?thesis using less.prems by (simp add: step_loop_step)
  next
    case False
    have w1: "wrap64 (v + step) = v - k - 2 ^ 63"
      using assms(1-4) less.prems False by (simp add: wrap64_down)
    have w2: "wrap64 (v - k - 2 ^ 63 + step) = v - 2 * k"
      using assms(1-4) less.prems False by (subst wrap64_id) (simp_all add: in_int64_def)
    have neg: "v - k - 2 ^ 63 \<le> hi" using assms less.prems by simp
    have "step_loop v hi step = map_option (\<lambda>vs. v # (v - k - 2 ^ 63) # vs) (step_loop (v - 2 * k) hi step)"
      by (simp only: step_loop_step [OF less.prems(2)] w1 step_loop_step [OF neg] w2 option.map_comp comp_def)
    moreover have "\<exists>vs. step_loop (v - 2 * k) hi step = Some vs"
      using assms(1) less.prems False by (intro less.hyps) auto
    ultimately show ?thesis by auto
  qed
qed

lemma step_loop_returns:
  assumes "0 < step" and "step < 2 ^ 63" and "0 \<le> v" and "hi \<le> 59"
  shows "\<exists>vs. step_loop v hi step = Some vs"
proof (cases "v \<le> hi \<and> 2 ^ 63 \<le> hi + step")
  case True
  then show ?thesis using assms by (intro step_loop_wraps [of "2 ^ 63 - step"]) auto
next
  case False
  then show ?thesis using assms step_loop_exact [of step v hi] by (cases "v \<le> hi") auto
qed

lemma atoi_range: "atoi s = Some n \<Longrightarrow> in_int64 n"
  by (auto simp: atoi_def Let_def split: if_splits)

lemma part_step_pos: "part_step part = Inr (base, step) \<Longrightarrow> 0 < step \<and> step < 2 ^ 63"
  by (auto simp: part_step_def in_int64_def split: option.splits if_splits dest!: atoi_range)

lemma base_range_bounds:
  "base_range base mn mx = Inr (lo, hi) \<Longrightarrow> mn \<le> mx \<Longrightarrow> mn \<le> lo \<and> lo \<le> hi \<and> hi \<le> mx"
  by (auto simp: base_range_def split: if_splits list.splits option.splits)

lemma part_range_bounds:
  assumes "part_range part mn mx = Inr (lo, hi, step)" and "mn \<le> mx"
  shows "mn \<le> lo \<and> lo \<le> hi \<and> hi \<le> mx \<and> 0 < step \<and> step < 2 ^ 63"
  using assms part_step_pos base_range_bounds
  by (fastforce simp: part_range_def split: sum.splits prod.splits)

lemma parse_parts_returns:
  "0 \<le> mn \<Longrightarrow> mn \<le> mx \<Longrightarrow> mx \<le> 59 \<Longrightarrow> \<exists>r. parse_parts parts mn mx = Some r"
proof (induction parts)
  case (Cons part parts)
  then obtain r where r: "parse_parts parts mn mx = Some r" by auto
  show ?case
  proof (cases "part_range part mn mx")
    case (Inr b)
    obtain lo hi step where b: "b = (lo, hi, step)" by (cases b)
    from part_range_bounds [of part mn mx lo hi step] Inr b Cons.prems
    obtain vs where "step_loop lo hi step = Some vs" using step_loop_returns [of step lo hi] by auto
    with Inr b r show ?thesis by (cases r) simp_all
  qed simp
qed simp

lemma parse_field_returns:
  "0 \<le> mn \<Longrightarrow> mn \<le> mx \<Longrightarrow> mx \<le> 59 \<Longrightarrow> \<exists>r. parse_field raw mn mx = Some r"
  by (simp add: parse_field_def parse_parts_returns)

lemma with_field_returns:
  assumes "0 \<le> mn" "mn \<le> mx" "mx \<le> 59" and "\<And>vs. \<exists>r. k vs = Some r"
  shows "\<exists>r. with_field name raw mn mx k = Some r"
proof -
  obtain r where "parse_field raw mn mx = Some r" using parse_field_returns assms(1-3) by blast
  with assms(4) show ?thesis by (cases r) (auto simp: with_field_def)
qed

lemma cron_parse_run_Some: "cron_parse_run expr = Some (cron_parse expr)"
proof -
  have "\<exists>r. cron_parse_run expr = Some r"
    by (auto simp: cron_parse_run_def Let_def intro!: with_field_returns)
  then show ?thesis by (auto simp: cron_parse_def)
qed

section \<open>What a field means\<close>

text \<open>
  The grammar of a part, apart from the code: \<open>*\<close>, a value or a range \<open>a-b\<close>, each optionally
  followed by \<open>/\<close> and a step. \<open>base_names\<close> gives the bounds that the text before the step
  names, \<open>part_names\<close> these with the step, and \<open>named\<close> the values: from the lower bound, in
  steps, up to the upper one.
\<close>

inductive base_names :: "int \<Rightarrow> int \<Rightarrow> string \<Rightarrow> int \<Rightarrow> int \<Rightarrow> bool" for mn mx where
  every: "base_names mn mx ''*'' mn mx"
| single: "atoi a = Some v \<Longrightarrow> CHR ''-'' \<notin> set a \<Longrightarrow> mn \<le> v \<Longrightarrow> v \<le> mx \<Longrightarrow> base_names mn mx a v v"
| between: "atoi a = Some lo \<Longrightarrow> atoi b = Some hi \<Longrightarrow> CHR ''-'' \<notin> set a \<Longrightarrow> CHR ''-'' \<notin> set b \<Longrightarrow>
     mn \<le> lo \<Longrightarrow> lo \<le> hi \<Longrightarrow> hi \<le> mx \<Longrightarrow> base_names mn mx (a @ ''-'' @ b) lo hi"

inductive part_names :: "int \<Rightarrow> int \<Rightarrow> string \<Rightarrow> int \<Rightarrow> int \<Rightarrow> int \<Rightarrow> bool" for mn mx where
  plain: "base_names mn mx base lo hi \<Longrightarrow> CHR ''/'' \<notin> set base \<Longrightarrow> part_names mn mx base lo hi 1"
| stepped: "base_names mn mx base lo hi \<Longrightarrow> CHR ''/'' \<notin> set base \<Longrightarrow> atoi n = Some step \<Longrightarrow> 0 < step \<Longrightarrow>
     part_names mn mx (base @ ''/'' @ n) lo hi step"

definition named :: "int \<Rightarrow> int \<Rightarrow> string \<Rightarrow> int set" where
  "named mn mx part = {v. \<exists>lo hi step. part_names mn mx part lo hi step \<and> lo \<le> v \<and> v \<le> hi \<and> step dvd v - lo}"

text \<open>The code reads a part as the grammar does.\<close>

lemma atoi_star [simp]: "atoi ''*'' = None"
  by (simp add: atoi_def is_digit_def)

lemma atoi_empty [simp]: "atoi '''' = None"
  by (simp add: atoi_def)

lemma base_names_iff:
  "base_names mn mx base lo hi \<longleftrightarrow>
   base = ''*'' \<and> lo = mn \<and> hi = mx \<or>
   CHR ''-'' \<notin> set base \<and> atoi base = Some lo \<and> mn \<le> lo \<and> lo \<le> mx \<and> hi = lo \<or>
   (\<exists>a b. base = a @ CHR ''-'' # b \<and> CHR ''-'' \<notin> set a \<and> CHR ''-'' \<notin> set b \<and> atoi a = Some lo \<and> atoi b = Some hi \<and>
      mn \<le> lo \<and> lo \<le> hi \<and> hi \<le> mx)"
  by (auto simp: base_names.simps)

lemma base_range_iff: "base_range base mn mx = Inr (lo, hi) \<longleftrightarrow> base_names mn mx base lo hi"
proof (cases "base = ''*''")
  case True
  have "''*'' \<noteq> a @ CHR ''-'' # b" for a b :: string by (cases a) auto
  with True show ?thesis by (auto simp: base_range_def base_names_iff)
next
  case star: False
  show ?thesis
  proof (cases rule: go_split_cases [of "CHR ''-''" base])
    case one
    then show ?thesis using star by (auto simp: base_range_def base_names_iff split: option.splits)
  next
    case (two a b)
    then have b: "base = a @ CHR ''-'' # b" "CHR ''-'' \<notin> set a" "CHR ''-'' \<notin> set b" by (simp_all add: go_split_two)
    have "base = a' @ CHR ''-'' # b' \<and> CHR ''-'' \<notin> set a' \<and> CHR ''-'' \<notin> set b' \<longleftrightarrow> a' = a \<and> b' = b" for a' b'
      using two go_split_two [of "CHR ''-''" base a' b'] by auto
    then have "base_names mn mx base lo hi \<longleftrightarrow> atoi a = Some lo \<and> atoi b = Some hi \<and> mn \<le> lo \<and> lo \<le> hi \<and> hi \<le> mx"
      using star b(1) unfolding base_names_iff by (metis in_set_conv_decomp)
    with star two show ?thesis by (auto simp: base_range_def split: option.splits)
  next
    case more
    then have "CHR ''-'' \<in> set base" using go_split_no [of "CHR ''-''" base] by auto
    moreover have "base \<noteq> a' @ CHR ''-'' # b' \<or> CHR ''-'' \<in> set a' \<or> CHR ''-'' \<in> set b'" for a' b'
      using more go_split_two [of "CHR ''-''" base a' b'] by auto
    ultimately show ?thesis using star more by (auto simp: base_range_def base_names_iff)
  qed
qed

lemma part_step_iff:
  "part_step part = Inr (base, step) \<longleftrightarrow>
   CHR ''/'' \<notin> set base \<and>
   (part = base \<and> step = 1 \<or> (\<exists>n. part = base @ CHR ''/'' # n \<and> atoi n = Some step \<and> 0 < step))"
proof (cases "go_index (CHR ''/'') part")
  case None
  then have "CHR ''/'' \<notin> set part" by (auto simp: go_index_def)
  with None show ?thesis by (auto simp: part_step_def)
next
  case (Some k)
  define p q where "p = take k part" and "q = drop (Suc k) part"
  from Some have k: "part = p @ CHR ''/'' # q" "CHR ''/'' \<notin> set p"
    by (simp_all add: go_index_Some p_def q_def)
  have once: "part = base @ CHR ''/'' # n \<and> CHR ''/'' \<notin> set base \<longleftrightarrow> base = p \<and> n = q" for n
    unfolding k(1) using split_once [OF k(2), of base q n] k(2) by auto
  have "part_step part = (case atoi q of None \<Rightarrow> Inl (InvalidStep part)
      | Some n \<Rightarrow> if n \<le> 0 then Inl (InvalidStep part) else Inr (p, n))"
    using Some unfolding part_step_def p_def q_def by simp
  then have "part_step part = Inr (base, step) \<longleftrightarrow> base = p \<and> atoi q = Some step \<and> 0 < step"
    by (auto split: option.splits)
  moreover have "\<not> (CHR ''/'' \<notin> set base \<and> part = base)" using k(1) by auto
  ultimately show ?thesis using once by metis
qed

lemma part_range_iff: "part_range part mn mx = Inr (lo, hi, step) \<longleftrightarrow> part_names mn mx part lo hi step"
proof -
  have "part_range part mn mx = Inr (lo, hi, step) \<longleftrightarrow>
      (\<exists>base. part_step part = Inr (base, step) \<and> base_range base mn mx = Inr (lo, hi))"
    by (auto simp: part_range_def split: sum.splits prod.splits)
  then show ?thesis unfolding part_step_iff base_range_iff part_names.simps by auto
qed

lemma part_names_bounds:
  "part_names mn mx part lo hi step \<Longrightarrow> mn \<le> mx \<Longrightarrow> mn \<le> lo \<and> lo \<le> hi \<and> hi \<le> mx \<and> 0 < step \<and> step < 2 ^ 63"
  using part_range_bounds by (simp add: part_range_iff)

lemma named_eq: "part_range part mn mx = Inr (lo, hi, step) \<Longrightarrow> named mn mx part = {v. lo \<le> v \<and> v \<le> hi \<and> step dvd v - lo}"
  by (auto simp: named_def simp flip: part_range_iff)

text \<open>
  The steps of a part fit when the first value after its lower bound is an \<open>int\<close>: a step that
  overflows later is longer than any range.
\<close>

lemma step_loop_fits:
  assumes "0 < step" and "0 \<le> lo" "lo \<le> hi" "hi \<le> 59" and "lo + step < 2 ^ 63"
  shows "step_loop lo hi step = Some (filter (\<lambda>x. step dvd x - lo) [lo..hi])"
proof (cases "lo + step \<le> hi")
  case True
  then show ?thesis using assms by (intro step_loop_exact) auto
next
  case False
  have "wrap64 (lo + step) = lo + step" using assms by (intro wrap64_id) (simp add: in_int64_def)
  then show ?thesis using False assms by (simp add: step_loop_step step_filter)
qed

text \<open>
  Otherwise the part names its lower bound alone, and the loop goes on with the wrapped value and
  with the one after it, which has come back below the lower bound.
\<close>

lemma step_loop_overflows:
  assumes "0 \<le> lo" "lo \<le> hi" "hi \<le> 59" and "step < 2 ^ 63" "2 ^ 63 \<le> lo + step"
    and "step_loop lo hi step = Some vs"
  shows "{lo, lo + step - 2 ^ 64, lo + 2 * step - 2 ^ 64} \<subseteq> set vs"
    and "step dvd v - lo \<Longrightarrow> lo \<le> v \<Longrightarrow> v \<le> hi \<Longrightarrow> v = lo"
proof -
  let ?a = "lo + step - 2 ^ 64" and ?b = "lo + 2 * step - 2 ^ 64"
  have w: "wrap64 (lo + step) = ?a" using assms by (intro wrap64_down) simp_all
  have w2: "wrap64 (?a + step) = ?b" using assms by (subst wrap64_id) (simp_all add: in_int64_def)
  have "?a \<le> hi" "?b \<le> hi" using assms by simp_all
  then have "step_loop lo hi step = map_option (\<lambda>vs. lo # ?a # ?b # vs) (step_loop (wrap64 (?b + step)) hi step)"
    by (simp only: step_loop_step [OF assms(2)] w step_loop_step [OF \<open>?a \<le> hi\<close>] w2 step_loop_step [OF \<open>?b \<le> hi\<close>]
        option.map_comp comp_def)
  with assms(6) show "{lo, ?a, ?b} \<subseteq> set vs" by auto
  assume v: "step dvd v - lo" "lo \<le> v" "v \<le> hi"
  then have "v - lo < step" using assms by simp
  with v show "v = lo" by (auto dest: zdvd_imp_le)
qed

lemma parse_parts_accepts:
  assumes "0 \<le> mn" "mn \<le> mx" "mx \<le> 59"
  shows "(\<exists>vs. parse_parts parts mn mx = Some (Inr vs)) \<longleftrightarrow>
    (\<forall>part \<in> set parts. \<exists>lo hi step. part_names mn mx part lo hi step)"
proof (induction parts)
  case (Cons part parts)
  obtain r where r: "parse_parts parts mn mx = Some r" using parse_parts_returns [OF assms] by blast
  show ?case
  proof (cases "part_range part mn mx")
    case (Inl e)
    then have "\<not> part_names mn mx part lo hi step" for lo hi step by (simp flip: part_range_iff)
    with Inl show ?thesis by simp
  next
    case (Inr b)
    obtain lo hi step where b: "b = (lo, hi, step)" by (cases b)
    from part_range_bounds [of part mn mx lo hi step] Inr b assms
    obtain vs where vs: "step_loop lo hi step = Some vs" using step_loop_returns [of step lo hi] by auto
    have p: "part_names mn mx part lo hi step" using Inr b by (simp flip: part_range_iff)
    have "(\<exists>vs. parse_parts (part # parts) mn mx = Some (Inr vs)) \<longleftrightarrow> (\<exists>ws. parse_parts parts mn mx = Some (Inr ws))"
      using Inr b vs r by (cases r) simp_all
    with Cons.IH p show ?thesis by auto
  qed
qed simp

lemma parse_parts_Cons:
  "parse_parts (part # parts) mn mx = Some (Inr vs) \<longleftrightarrow>
   (\<exists>lo hi step us ws. part_names mn mx part lo hi step \<and> step_loop lo hi step = Some us \<and>
      parse_parts parts mn mx = Some (Inr ws) \<and> vs = us @ ws)"
  by (auto split: sum.splits option.splits simp flip: part_range_iff)

lemma parse_parts_values:
  assumes "parse_parts parts mn mx = Some (Inr vs)" and range: "0 \<le> mn" "mn \<le> mx" "mx \<le> 59"
    and "\<forall>part \<in> set parts. \<forall>lo hi step. part_names mn mx part lo hi step \<longrightarrow> lo + step < 2 ^ 63"
  shows "set vs = (\<Union>part \<in> set parts. named mn mx part)"
  using assms(1,5)
proof (induction parts arbitrary: vs)
  case (Cons part parts)
  from Cons.prems(1) obtain lo hi step us ws where p: "part_names mn mx part lo hi step" "step_loop lo hi step = Some us"
    "parse_parts parts mn mx = Some (Inr ws)" "vs = us @ ws" unfolding parse_parts_Cons by blast
  have "us = filter (\<lambda>x. step dvd x - lo) [lo..hi]"
    using step_loop_fits [of step lo hi] part_names_bounds [OF p(1) range(2)] p Cons.prems(2) range by auto
  moreover have "named mn mx part = {v. lo \<le> v \<and> v \<le> hi \<and> step dvd v - lo}"
    using p(1) by (intro named_eq) (simp add: part_range_iff)
  ultimately show ?case using Cons.IH [OF p(3)] Cons.prems(2) p(4) by auto
qed simp

lemma parse_parts_part:
  assumes "parse_parts parts mn mx = Some (Inr vs)" and "part \<in> set parts"
  shows "\<exists>lo hi step us. part_names mn mx part lo hi step \<and> step_loop lo hi step = Some us \<and> set us \<subseteq> set vs"
  using assms
proof (induction parts arbitrary: vs)
  case (Cons p parts)
  then obtain lo hi step us ws where p: "part_names mn mx p lo hi step" "step_loop lo hi step = Some us"
    "parse_parts parts mn mx = Some (Inr ws)" "vs = us @ ws" unfolding parse_parts_Cons by blast
  show ?case
  proof (cases "part = p")
    case True
    with p show ?thesis by auto
  next
    case False
    with Cons.IH [OF p(3)] Cons.prems(2) p(4) show ?thesis by fastforce
  qed
qed simp

text \<open>The field \<open>*\<close> has one part.\<close>

lemma star_part: "part_names mn mx ''*'' lo hi step \<longleftrightarrow> lo = mn \<and> hi = mx \<and> step = 1"
  by (simp add: part_range_def part_step_def base_range_def go_index_def flip: part_range_iff) auto

lemma parse_field_parts:
  assumes "0 \<le> mn" "mn \<le> mx" "mx \<le> 59"
  shows "parse_field raw mn mx = parse_parts (go_split (CHR '','') raw) mn mx"
proof (cases "raw = ''*''")
  case True
  have "part_range ''*'' mn mx = Inr (mn, mx, 1)" by (simp add: part_range_iff star_part)
  moreover have "step_loop mn mx 1 = Some [mn..mx]" using step_loop_fits [of 1 mn mx] assms by simp
  ultimately show ?thesis using True by (simp add: parse_field_def)
qed (simp add: parse_field_def)

section \<open>Fire times\<close>

text \<open>The instants a schedule names: whole minutes of UTC whose fields are all listed.\<close>

definition fires_at :: "schedule \<Rightarrow> instant \<Rightarrow> bool" where
  "fires_at s u =
     (let (y, m, d) = civil (day_of u)
      in u mod minute_ns = 0 \<and> (u mod hour_ns) div minute_ns \<in> set (sc_minute s) \<and>
         (u mod day_ns) div hour_ns \<in> set (sc_hour s) \<and> d \<in> set (sc_day_of_month s) \<and>
         m \<in> set (sc_month s) \<and> weekday (day_of u) \<in> set (sc_day_of_week s))"

definition clock_time :: "int \<Rightarrow> int \<Rightarrow> int \<Rightarrow> instant" where
  "clock_time n h mi = n * day_ns + (h * hour_ns + mi * minute_ns)"

lemma clock_time_fields:
  assumes "0 \<le> h" "h \<le> 23" "0 \<le> mi" "mi \<le> 59"
  shows "day_of (clock_time n h mi) = n" and "(clock_time n h mi mod day_ns) div hour_ns = h"
    and "(clock_time n h mi mod hour_ns) div minute_ns = mi" and "clock_time n h mi mod minute_ns = 0"
proof -
  let ?c = "clock_time n h mi"
  have d: "?c div day_ns = n \<and> ?c mod day_ns = h * hour_ns + mi * minute_ns"
    using div_between [of day_ns n ?c] assms
    by (simp add: clock_time_def day_ns_def hour_ns_def minute_ns_def)
  then show "day_of ?c = n" by (simp add: day_of_def)
  show "(?c mod day_ns) div hour_ns = h"
    using d div_between [of hour_ns h "h * hour_ns + mi * minute_ns"] assms
    by (simp add: hour_ns_def minute_ns_def)
  have "?c mod hour_ns = mi * minute_ns"
    using div_between [of hour_ns "24 * n + h" ?c] assms
    by (simp add: clock_time_def day_ns_def hour_ns_def minute_ns_def)
  then show "(?c mod hour_ns) div minute_ns = mi" by (simp add: minute_ns_def)
  show "?c mod minute_ns = 0"
    using div_between [of minute_ns "1440 * n + 60 * h + mi" ?c]
    by (simp add: clock_time_def day_ns_def hour_ns_def minute_ns_def)
qed

lemma clock_time_exists:
  assumes "u mod minute_ns = 0"
  obtains h mi where "u = clock_time (day_of u) h mi" "0 \<le> h" "h \<le> 23" "0 \<le> mi" "mi \<le> 59"
proof -
  define k where "k = u div minute_ns"
  have u: "u = k * minute_ns" using assms mult_div_mod_eq [of minute_ns u] by (simp add: k_def mult.commute)
  define n where "n = k div 1440"
  define j where "j = k mod 1440"
  define h where "h = j div 60"
  define mi where "mi = j mod 60"
  have j: "0 \<le> j" "j < 1440" "k = 1440 * n + j" by (simp_all add: j_def n_def)
  have h: "0 \<le> h" "h \<le> 23" "0 \<le> mi" "mi \<le> 59" "j = 60 * h + mi" using j(1,2) by (simp_all add: h_def mi_def)
  have c: "u = clock_time n h mi"
    by (simp add: u j(3) h(5) clock_time_def day_ns_def hour_ns_def minute_ns_def)
  moreover have "day_of u = n" using clock_time_fields(1) [OF h(1-4)] c by simp
  ultimately show ?thesis using that h by simp
qed

section \<open>The search as a walk over the fire times in order\<close>

lemma first_some_filter:
  "first_some (\<lambda>x. if \<not> P x then None else f x) xs = first_some f (filter P xs)"
  by (induction xs) (auto split: option.split simp del: first_some_None_iff)

lemma first_some_append:
  "first_some f (xs @ ys) = (case first_some f xs of None \<Rightarrow> first_some f ys | Some r \<Rightarrow> Some r)"
  by (induction xs) (auto split: option.split simp del: first_some_None_iff)

lemma first_some_concat: "first_some f (concat (map g xs)) = first_some (\<lambda>x. first_some f (g x)) xs"
  by (induction xs) (auto simp: first_some_append split: option.split simp del: first_some_None_iff)

lemma first_some_map: "first_some f (map g xs) = first_some (\<lambda>x. f (g x)) xs"
  by (induction xs) (auto split: option.split simp del: first_some_None_iff)

definition later :: "instant \<Rightarrow> instant \<Rightarrow> instant option" where
  "later after c = (if after < c then Some c else None)"

definition day_fires :: "schedule \<Rightarrow> int \<Rightarrow> instant list" where
  "day_fires s n =
     concat (map (\<lambda>h. map (\<lambda>mi. clock_time n h mi) (filter (\<lambda>mi. mi \<in> set (sc_minute s)) [0..59]))
       (filter (\<lambda>h. h \<in> set (sc_hour s)) [0..23]))"

definition month_fires :: "schedule \<Rightarrow> int \<Rightarrow> int \<Rightarrow> instant list" where
  "month_fires s y m =
     concat (map (\<lambda>d. day_fires s (date_days y m d))
       (filter (\<lambda>d. d \<in> set (sc_day_of_month s) \<and> weekday (date_days y m d) \<in> set (sc_day_of_week s)) [1..days_in y m]))"

definition year_fires :: "schedule \<Rightarrow> int \<Rightarrow> instant list" where
  "year_fires s y = concat (map (month_fires s y) (filter (\<lambda>m. m \<in> set (sc_month s)) [1..12]))"

lemma next_in_day_fires:
  "next_in_day s after y m d =
   (if d \<in> set (sc_day_of_month s) \<and> weekday (date_days y m d) \<in> set (sc_day_of_week s)
    then first_some (later after) (day_fires s (date_days y m d)) else None)"
  by (auto simp: next_in_day_def go_contains_def next_in_hour_def day_fires_def first_some_concat
      first_some_map first_some_filter later_def clock_time_def date_utc_def Let_def)

lemma days_in_month_eq: "1 \<le> m \<Longrightarrow> m \<le> 12 \<Longrightarrow> days_in_month y m = days_in y m"
  by (simp add: days_in_month_def date_days_day_zero civil_date_days days_in_pos)

lemma next_in_month_fires:
  assumes "1 \<le> m" "m \<le> 12"
  shows "next_in_month s after y m =
    (if m \<in> set (sc_month s) then first_some (later after) (month_fires s y m) else None)"
proof -
  have "first_some (next_in_day s after y m) xs = first_some (later after)
      (concat (map (\<lambda>d. day_fires s (date_days y m d))
        (filter (\<lambda>d. d \<in> set (sc_day_of_month s) \<and> weekday (date_days y m d) \<in> set (sc_day_of_week s)) xs)))" for xs
    by (induction xs)
      (auto simp: next_in_day_fires first_some_append split: option.split simp del: first_some_None_iff)
  then show ?thesis using assms by (simp add: next_in_month_def go_contains_def month_fires_def days_in_month_eq)
qed

lemma year_search_fires:
  "first_some (next_in_month s after y) [1..12] = first_some (later after) (year_fires s y)"
proof -
  have "first_some (next_in_month s after y) xs =
      first_some (later after) (concat (map (month_fires s y) (filter (\<lambda>m. m \<in> set (sc_month s)) xs)))"
    if "\<forall>m \<in> set xs. 1 \<le> m \<and> m \<le> 12" for xs
    using that
    by (induction xs)
      (auto simp: next_in_month_fires first_some_append split: option.split simp del: first_some_None_iff)
  then show ?thesis by (simp add: year_fires_def)
qed

lemma cron_next_fires:
  "cron_next loc s after =
   (case first_some (later after) (concat (map (year_fires s)
        [year_in loc (truncate_minute after + minute_ns)..year_in loc after + 8])) of
      Some c \<Rightarrow> c | None \<Rightarrow> add_years loc after 8)"
  by (simp add: cron_next_def year_search_fires first_some_concat Let_def)

section \<open>The walk is in order and complete\<close>

lemma sorted_concat_map:
  assumes "sorted_wrt (<) xs" and "\<And>x. x \<in> set xs \<Longrightarrow> sorted_wrt (<) (g x)"
    and "\<And>x y a b. x \<in> set xs \<Longrightarrow> y \<in> set xs \<Longrightarrow> x < y \<Longrightarrow> a \<in> set (g x) \<Longrightarrow> b \<in> set (g y) \<Longrightarrow> a < b"
  shows "sorted_wrt (<) (concat (map g xs))"
  using assms
proof (induction xs)
  case (Cons x xs)
  have "sorted_wrt (<) (concat (map g xs))"
    using Cons.prems by (intro Cons.IH) (simp_all, blast)
  moreover have "a < b" if "a \<in> set (g x)" "y \<in> set xs" "b \<in> set (g y)" for a b y
    using Cons.prems(3) [of x y a b] Cons.prems(1) that by simp
  ultimately show ?case using Cons.prems(2) by (auto simp: sorted_wrt_append)
qed simp

lemma day_of_less: "day_of a < day_of b \<Longrightarrow> a < b"
proof (rule ccontr)
  assume less: "day_of a < day_of b" and "\<not> a < b"
  then have "b div day_ns \<le> a div day_ns" by (intro zdiv_mono1) (simp_all add: day_ns_def)
  with less show False by (simp add: day_of_def)
qed

lemma day_fires_set:
  "u \<in> set (day_fires s n) \<longleftrightarrow>
   day_of u = n \<and> u mod minute_ns = 0 \<and> (u mod hour_ns) div minute_ns \<in> set (sc_minute s) \<and>
   (u mod day_ns) div hour_ns \<in> set (sc_hour s)" (is "?l \<longleftrightarrow> ?r")
proof
  assume ?l
  then obtain h mi where "u = clock_time n h mi" "h \<in> set (sc_hour s)" "0 \<le> h" "h \<le> 23"
    "mi \<in> set (sc_minute s)" "0 \<le> mi" "mi \<le> 59" by (auto simp: day_fires_def)
  then show ?r using clock_time_fields [of h mi n] by simp
next
  assume r: ?r
  then have "u mod minute_ns = 0" by simp
  then obtain h mi where c: "u = clock_time (day_of u) h mi" "0 \<le> h" "h \<le> 23" "0 \<le> mi" "mi \<le> 59"
    by (rule clock_time_exists)
  have "h \<in> set (sc_hour s)" "mi \<in> set (sc_minute s)"
    using r clock_time_fields [OF c(2-5), of "day_of u"] c(1) by simp_all
  with c r show ?l by (auto simp: day_fires_def)
qed

lemma day_fires_sorted: "sorted_wrt (<) (day_fires s n)"
  unfolding day_fires_def
proof (rule sorted_concat_map)
  show "sorted_wrt (<) (filter (\<lambda>h. h \<in> set (sc_hour s)) [0..23])" by (simp add: sorted_wrt_filter)
  show "sorted_wrt (<) (map (\<lambda>mi. clock_time n h mi) (filter (\<lambda>mi. mi \<in> set (sc_minute s)) [0..59]))" for h
    unfolding sorted_wrt_map
    by (rule sorted_wrt_mono_rel [OF _ sorted_wrt_filter [OF sorted_wrt_upto]]) (simp add: clock_time_def minute_ns_def)
  fix h h' a b
  assume "h < h'" "a \<in> set (map (\<lambda>mi. clock_time n h mi) (filter (\<lambda>mi. mi \<in> set (sc_minute s)) [0..59]))"
    "b \<in> set (map (\<lambda>mi. clock_time n h' mi) (filter (\<lambda>mi. mi \<in> set (sc_minute s)) [0..59]))"
  then show "a < b" by (auto simp: clock_time_def hour_ns_def minute_ns_def)
qed

lemma month_fires_set:
  assumes m: "1 \<le> m" "m \<le> 12"
  shows "u \<in> set (month_fires s y m) \<longleftrightarrow>
    (\<exists>d. civil (day_of u) = (y, m, d) \<and> d \<in> set (sc_day_of_month s) \<and>
      weekday (day_of u) \<in> set (sc_day_of_week s) \<and> u \<in> set (day_fires s (day_of u)))" (is "?l \<longleftrightarrow> ?r")
proof
  assume ?l
  then obtain d where d: "1 \<le> d" "d \<le> days_in y m" "d \<in> set (sc_day_of_month s)"
    "weekday (date_days y m d) \<in> set (sc_day_of_week s)" "u \<in> set (day_fires s (date_days y m d))"
    by (auto simp: month_fires_def)
  then have "day_of u = date_days y m d" by (simp add: day_fires_set)
  with d civil_date_days [OF m d(1,2)] show ?r by auto
next
  assume ?r
  then obtain d where d: "civil (day_of u) = (y, m, d)" "d \<in> set (sc_day_of_month s)"
    "weekday (day_of u) \<in> set (sc_day_of_week s)" "u \<in> set (day_fires s (day_of u))" by blast
  with date_days_civil [OF d(1)] show ?l by (force simp: month_fires_def)
qed

lemma month_fires_sorted:
  assumes m: "1 \<le> m" "m \<le> 12"
  shows "sorted_wrt (<) (month_fires s y m)"
  unfolding month_fires_def
proof (rule sorted_concat_map)
  fix d d' a b
  let ?P = "\<lambda>d. d \<in> set (sc_day_of_month s) \<and> weekday (date_days y m d) \<in> set (sc_day_of_week s)"
  assume "d \<in> set (filter ?P [1..days_in y m])" "d' \<in> set (filter ?P [1..days_in y m])" "d < d'"
    and ab: "a \<in> set (day_fires s (date_days y m d))" "b \<in> set (day_fires s (date_days y m d'))"
  then have "date_days y m d < date_days y m d'" by (simp add: date_days_eq m)
  with ab have "day_of a < day_of b" by (simp add: day_fires_set)
  then show "a < b" by (rule day_of_less)
qed (simp_all add: sorted_wrt_filter day_fires_sorted)

lemma year_fires_set: "u \<in> set (year_fires s y) \<longleftrightarrow> fires_at s u \<and> year_of_day (day_of u) = y"
proof -
  obtain y' m d where c: "civil (day_of u) = (y', m, d)" by (metis prod_cases3)
  note v = date_days_civil [OF c]
  have y': "y' = year_of_day (day_of u)" using c by (auto simp: civil_def Let_def)
  have "u \<in> set (year_fires s y) \<longleftrightarrow>
      (\<exists>m'. 1 \<le> m' \<and> m' \<le> 12 \<and> m' \<in> set (sc_month s) \<and> u \<in> set (month_fires s y m'))"
    by (auto simp: year_fires_def)
  also have "\<dots> \<longleftrightarrow> fires_at s u \<and> y' = y"
    using v c by (auto simp: month_fires_set day_fires_set fires_at_def)
  finally show ?thesis by (simp add: y')
qed

lemma year_fires_sorted: "sorted_wrt (<) (year_fires s y)"
  unfolding year_fires_def
proof (rule sorted_concat_map)
  fix m m' a b
  assume m: "m \<in> set (filter (\<lambda>m. m \<in> set (sc_month s)) [1..12])" "m' \<in> set (filter (\<lambda>m. m \<in> set (sc_month s)) [1..12])" "m < m'"
    and ab: "a \<in> set (month_fires s y m)" "b \<in> set (month_fires s y m')"
  then obtain d d' where c: "civil (day_of a) = (y, m, d)" "civil (day_of b) = (y, m', d')"
    by (auto simp: month_fires_set)
  with date_days_civil [OF c(1)] date_days_civil [OF c(2)] date_days_less_month [of m m' d y d'] m
  have "day_of a < day_of b" by auto
  then show "a < b" by (rule day_of_less)
qed (auto simp: sorted_wrt_filter month_fires_sorted)

lemma years_fires_sorted: "sorted_wrt (<) (concat (map (year_fires s) [y1..y2]))"
proof (rule sorted_concat_map)
  fix y y' a b
  assume "y < y'" and ab: "a \<in> set (year_fires s y)" "b \<in> set (year_fires s y')"
  then have "\<not> day_of b \<le> day_of a" using year_of_day_mono [of "day_of b" "day_of a"] by (auto simp: year_fires_set)
  then have "day_of a < day_of b" by simp
  then show "a < b" by (rule day_of_less)
qed (simp_all add: year_fires_sorted)

text \<open>The first later element of a sorted list is the least later one.\<close>

lemma first_later:
  assumes "sorted_wrt (<) cs"
  shows "first_some (later after) cs = Some c \<longleftrightarrow>
    c \<in> set cs \<and> after < c \<and> (\<forall>u \<in> set cs. after < u \<longrightarrow> c \<le> u)"
  using assms
  by (induction cs) (auto simp: later_def split: if_splits simp del: first_some_None_iff)

lemma first_later_None: "first_some (later after) cs = None \<longleftrightarrow> (\<forall>u \<in> set cs. u \<le> after)"
  by (auto simp: later_def)

text \<open>In UTC the first year searched is that of the next whole minute.\<close>

lemma year_in_utc [simp]: "year_in utc t = year_of_day (day_of t)"
  by (simp add: year_in_def local_ns_def utc_def)

lemma fires_after_minute:
  assumes "fires_at s u" and "after < u"
  shows "truncate_minute after + minute_ns \<le> u"
proof -
  have "u mod minute_ns = 0" using assms(1) by (auto simp: fires_at_def split: prod.splits)
  then obtain k where u: "u = k * minute_ns" using mult_div_mod_eq [of minute_ns u] by (metis add.right_neutral mult.commute)
  have t: "truncate_minute after = (after div minute_ns) * minute_ns"
    using mult_div_mod_eq [of minute_ns after] by (simp add: truncate_minute_def mult.commute algebra_simps)
  have "after div minute_ns < k"
  proof (rule ccontr)
    assume "\<not> ?thesis"
    then have "k * minute_ns \<le> (after div minute_ns) * minute_ns" by (simp add: minute_ns_def)
    also have "\<dots> \<le> after" using t by (simp add: truncate_minute_def minute_ns_def)
    finally show False using assms(2) u by simp
  qed
  then show ?thesis by (simp add: t u minute_ns_def)
qed

lemma cron_next_utc_cases:
  obtains (found) "fires_at s (cron_next utc s after)" "after < cron_next utc s after"
      "\<And>u. fires_at s u \<Longrightarrow> after < u \<Longrightarrow> year_of_day (day_of u) \<le> year_of_day (day_of after) + 8 \<Longrightarrow> cron_next utc s after \<le> u"
      "year_of_day (day_of (cron_next utc s after)) \<le> year_of_day (day_of after) + 8"
  | (none) "cron_next utc s after = add_years utc after 8"
      "\<And>u. fires_at s u \<Longrightarrow> after < u \<Longrightarrow> year_of_day (day_of after) + 8 < year_of_day (day_of u)"
proof -
  let ?t = "truncate_minute after + minute_ns"
  let ?ys = "[year_of_day (day_of ?t)..year_of_day (day_of after) + 8]"
  let ?cs = "concat (map (year_fires s) ?ys)"
  have mem: "u \<in> set ?cs \<longleftrightarrow> fires_at s u \<and> year_of_day (day_of ?t) \<le> year_of_day (day_of u) \<and>
      year_of_day (day_of u) \<le> year_of_day (day_of after) + 8" for u
    by (auto simp: year_fires_set)
  have lower: "year_of_day (day_of ?t) \<le> year_of_day (day_of u)" if "fires_at s u" "after < u" for u
    using fires_after_minute [OF that]
    by (intro year_of_day_mono) (simp add: day_of_def day_ns_def zdiv_mono1)
  show ?thesis
  proof (cases "first_some (later after) ?cs")
    case None
    then have "cron_next utc s after = add_years utc after 8" by (simp only: cron_next_fires year_in_utc option.case)
    moreover have "u \<le> after" if "u \<in> set ?cs" for u
      using None that unfolding first_later_None by blast
    ultimately show ?thesis using none mem lower by (metis linorder_not_le)
  next
    case (Some c)
    then have "cron_next utc s after = c" by (simp only: cron_next_fires year_in_utc option.case)
    moreover note first_later [OF years_fires_sorted, THEN iffD1, OF Some]
    ultimately show ?thesis using found mem lower by metis
  qed
qed

lemma add_years_later:
  assumes "1 \<le> n"
  shows "after < add_years utc after n"
proof -
  obtain y m d where c: "civil (day_of after) = (y, m, d)" by (metis prod_cases3)
  note v = date_days_civil [OF c]
  have l: "local_ns utc after = after" by (simp add: local_ns_def utc_def)
  have "year_start (y + 1) \<le> year_start (y + n)" using assms by (intro year_start_mono) simp
  then have "date_days y m d < date_days (y + n) m d"
    using v year_length [of y] by (auto simp: date_days_eq month_start_def split: if_splits)
  then have "day_of after * day_ns + day_ns \<le> date_utc (y + n) m d"
    using v by (simp add: date_utc_def day_ns_def)
  moreover have "after < day_of after * day_ns + day_ns" "0 \<le> after mod day_ns"
    using mult_div_mod_eq [of day_ns after] pos_mod_bound [of day_ns after] pos_mod_sign [of day_ns after]
    by (simp_all add: day_of_def day_ns_def)
  moreover have "add_years utc after n = date_utc (y + n) m d + after mod day_ns"
    by (simp add: add_years_def l c from_local_def utc_def Let_def)
  ultimately show ?thesis by simp
qed

lemma year_day_less: "year_of_day (day_of a) < year_of_day (day_of b) \<Longrightarrow> a < b"
  using year_of_day_mono [of "day_of b" "day_of a"] day_of_less by (meson linorder_not_le)

text \<open>
  A schedule that never fires: the search ends, in whatever location, with the time eight years
  later. Such is a schedule with no day of month that any of its months can have.
\<close>

lemma cron_next_never: "(\<And>u. \<not> fires_at s u) \<Longrightarrow> cron_next loc s after = add_years loc after 8"
proof -
  assume "\<And>u. \<not> fires_at s u"
  then have "set (year_fires s y) = {}" for y by (intro equals0I) (simp add: year_fires_set)
  then have "year_fires s y = []" for y by simp
  moreover have "first_some (\<lambda>_. None :: instant option) ys = None" for ys :: "int list" by simp
  ultimately show ?thesis unfolding cron_next_fires by (simp add: first_some_concat del: first_some_None_iff)
qed

definition longest_month :: "int \<Rightarrow> int" where
  "longest_month m = (if m = 2 then 29 else if m \<in> {4, 6, 9, 11} then 30 else 31)"

lemma impossible_dates_never_fire:
  assumes "\<forall>m \<in> set (sc_month s). \<forall>d \<in> set (sc_day_of_month s). longest_month m < d"
  shows "\<not> fires_at s u"
proof
  assume f: "fires_at s u"
  obtain y m d where c: "civil (day_of u) = (y, m, d)" by (metis prod_cases3)
  have "d \<le> longest_month m" using date_days_civil [OF c] by (auto simp: days_in_table longest_month_def split: if_splits)
  moreover have "d \<in> set (sc_day_of_month s)" "m \<in> set (sc_month s)" using f c by (simp_all add: fires_at_def)
  ultimately show False using assms by fastforce
qed

section \<open>Properties\<close>

text \<open>
  C31. \<open>Parse\<close> returns for every string: the stepping loop ends even when its 64-bit
  additions wrap around.
\<close>

theorem cron_parse_terminates: "\<exists>r. cron_parse_run expr = Some r"
  using cron_parse_run_Some by blast

text \<open>
  C32. A field is accepted exactly when each of its comma-separated parts is in the grammar,
  and then holds exactly the values that its parts name, all of them in the field's range, as
  long as no step takes a lower bound past the largest \<open>int\<close>.
\<close>

theorem cron_field_values:
  assumes range: "0 \<le> mn" "mn \<le> mx" "mx \<le> 59"
  shows "((\<exists>vs. parse_field raw mn mx = Some (Inr vs)) \<longleftrightarrow>
      (\<forall>part \<in> set (go_split (CHR '','') raw). \<exists>lo hi step. part_names mn mx part lo hi step)) \<and>
    (\<forall>vs. parse_field raw mn mx = Some (Inr vs) \<and>
        (\<forall>part \<in> set (go_split (CHR '','') raw). \<forall>lo hi step. part_names mn mx part lo hi step \<longrightarrow> lo + step < 2 ^ 63) \<longrightarrow>
      set vs = (\<Union>part \<in> set (go_split (CHR '','') raw). named mn mx part) \<and> set vs \<subseteq> {mn..mx})"
proof -
  note f = parse_field_parts [OF range, of raw]
  have "named mn mx part \<subseteq> {mn..mx}" for part using part_names_bounds [OF _ range(2)] by (fastforce simp: named_def)
  then have "(\<Union>part \<in> ps. named mn mx part) \<subseteq> {mn..mx}" for ps by blast
  moreover note parse_parts_accepts [OF range, of "go_split (CHR '','') raw"]
  moreover note parse_parts_values [OF _ range, of "go_split (CHR '','') raw"]
  ultimately show ?thesis unfolding f by simp
qed

theorem cron_field_values_witness:
  "case parse_field ''10-20/5,3'' 0 59 of Some (Inr vs) \<Rightarrow> set vs = {10, 15, 20, 3} | _ \<Rightarrow> False"
proof -
  have split: "go_split (CHR '','') ''10-20/5,3'' = [''10-20/5'', ''3'']" by simp
  have pr: "part_names 0 59 ''10-20/5'' lo hi step \<longleftrightarrow> lo = 10 \<and> hi = 20 \<and> step = 5"
    "part_names 0 59 ''3'' lo hi step \<longleftrightarrow> lo = 3 \<and> hi = 3 \<and> step = 1" for lo hi step
    unfolding part_range_iff [symmetric]
    by (auto simp: part_range_def part_step_def base_range_def go_index_def atoi_def is_digit_def
        decimal_def digit_value_def in_int64_def)
  have fit: "\<forall>part \<in> set (go_split (CHR '','') ''10-20/5,3''). \<forall>lo hi step. part_names 0 59 part lo hi step \<longrightarrow> lo + step < 2 ^ 63"
    by (simp add: split pr)
  note field = cron_field_values [of 0 59 "''10-20/5,3''", simplified]
  obtain vs where vs: "parse_field ''10-20/5,3'' 0 59 = Some (Inr vs)" using field pr by (auto simp: split)
  have "v = 10 \<or> v = 15 \<or> v = 20 \<longleftrightarrow> 10 \<le> v \<and> v \<le> 20 \<and> 5 dvd v - 10" for v :: int by presburger
  then have "named 0 59 ''10-20/5'' = {10, 15, 20}" "named 0 59 ''3'' = {3}"
    by (auto simp: named_def pr)
  with field vs fit show ?thesis by (auto simp: split)
qed

text \<open>
  C33. That condition is sharp: when a step does take the lower bound of an accepted part past
  the largest \<open>int\<close>, the part names its lower bound alone, but the field also holds the
  wrapped sum, which is negative, and the value after it, which is below the lower bound.
  Minute \<open>3/9223372036854775807\<close>, for one, means 3 and also holds 1.
\<close>

theorem cron_step_overflow:
  assumes range: "0 \<le> mn" "mn \<le> mx" "mx \<le> 59" and f: "parse_field raw mn mx = Some (Inr vs)"
    and part: "part \<in> set (go_split (CHR '','') raw)" "part_names mn mx part lo hi step" and big: "2 ^ 63 \<le> lo + step"
  shows "named mn mx part = {lo} \<and> {lo, lo + step - 2 ^ 64, lo + 2 * step - 2 ^ 64} \<subseteq> set vs \<and>
    lo + step - 2 ^ 64 < 0 \<and> lo + 2 * step - 2 ^ 64 < lo"
proof -
  note b = part_names_bounds [OF part(2) range(2)]
  obtain us where us: "step_loop lo hi step = Some us" "set us \<subseteq> set vs"
    using parse_parts_part [OF _ part(1), of mn mx vs] f part(2) by (auto simp: parse_field_parts [OF range] simp flip: part_range_iff)
  have "0 \<le> lo" "lo \<le> hi" "hi \<le> 59" "step < 2 ^ 63" using b range by simp_all
  note ov = step_loop_overflows [OF this big us(1)]
  have "named mn mx part = {lo}"
    using named_eq [OF part(2) [folded part_range_iff]] ov(2) b by auto
  with ov(1) us(2) b range show ?thesis by auto
qed

theorem cron_step_overflow_witness:
  "parse_field ''3/9223372036854775807'' 0 59 = Some (Inr [3, - 9223372036854775806, 1, - 9223372036854775808, - 1]) \<and>
   named 0 59 ''3/9223372036854775807'' = {3}"
proof -
  have pr: "part_range ''3/9223372036854775807'' 0 59 = Inr (3, 3, 9223372036854775807)"
    by (simp add: part_range_def part_step_def base_range_def go_index_def atoi_def is_digit_def
        decimal_def digit_value_def in_int64_def)
  have "step_loop 3 3 9223372036854775807 = Some [3, - 9223372036854775806, 1, - 9223372036854775808, - 1]"
    by (simp add: step_loop_step wrap64_def)
  with pr have f: "parse_field ''3/9223372036854775807'' 0 59 = Some (Inr [3, - 9223372036854775806, 1, - 9223372036854775808, - 1])"
    by (simp add: parse_field_def)
  from cron_step_overflow [OF _ _ _ f, of "''3/9223372036854775807''" 3 3 9223372036854775807] pr f show ?thesis
    by (simp add: part_range_iff)
qed

text \<open>
  C30. In UTC, \<open>Next\<close> is the first fire time strictly after the instant: when the schedule
  fires at all up to the end of the eighth calendar year after the instant's, the result is a fire
  time, later than the instant, and no fire time is between; otherwise the result is the instant
  eight years later. So it is later than the instant in any case.
\<close>

theorem cron_next_least:
  "after < cron_next utc s after \<and>
   (if \<exists>u > after. fires_at s u \<and> year_of_day (day_of u) \<le> year_of_day (day_of after) + 8
    then fires_at s (cron_next utc s after) \<and> (\<forall>u > after. fires_at s u \<longrightarrow> cron_next utc s after \<le> u)
    else cron_next utc s after = add_years utc after 8)"
proof (cases rule: cron_next_utc_cases [where s = s and after = after])
  case found
  have "cron_next utc s after \<le> u" if "fires_at s u" "after < u" for u
    using found(3) [OF that] found(4) year_day_less [of "cron_next utc s after" u] by fastforce
  moreover have "\<exists>u > after. fires_at s u \<and> year_of_day (day_of u) \<le> year_of_day (day_of after) + 8"
    using found by blast
  ultimately show ?thesis using found(1,2) by simp
next
  case none
  then have "\<not> (\<exists>u > after. fires_at s u \<and> year_of_day (day_of u) \<le> year_of_day (day_of after) + 8)"
    by fastforce
  with none(1) add_years_later [of 8 after] show ?thesis by auto
qed

definition demo_schedule :: schedule where
  "demo_schedule = \<lparr>sc_minute = [30], sc_hour = [17], sc_day_of_month = [31], sc_month = [12],
     sc_day_of_week = [0, 1, 2, 3, 4, 5, 6]\<rparr>"

lemma weekday_range: "weekday n \<in> {0, 1, 2, 3, 4, 5, 6}"
  unfolding weekday_def by simp presburger

lemma demo_fires: "fires_at demo_schedule (clock_time (date_days y 12 31) 17 30)"
  using clock_time_fields [of 17 30 "date_days y 12 31"] civil_date_days [of 12 31 y] weekday_range
  by (simp add: fires_at_def demo_schedule_def days_in_table)

theorem cron_next_least_witness:
  "cron_next utc demo_schedule 0 \<le> clock_time (date_days 1970 12 31) 17 30"
proof -
  let ?u = "clock_time (date_days 1970 12 31) 17 30"
  have d: "civil (date_days 1970 12 31) = (1970, 12, 31)" by (intro civil_date_days) (simp_all add: days_in_table)
  have y: "year_of_day (day_of ?u) = 1970"
    using d by (simp add: clock_time_fields civil_def Let_def)
  have u: "0 < ?u" "year_of_day (day_of 0) = 1970"
    by (simp_all add: clock_time_def date_days_def Let_def year_start_def month_start_def days_before_def
        leap_def day_ns_def hour_ns_def minute_ns_def day_of_def year_of_day_def)
  then have "\<exists>u > 0. fires_at demo_schedule u \<and> year_of_day (day_of u) \<le> year_of_day (day_of 0) + 8"
    using demo_fires y by (intro exI [of _ ?u]) simp
  then show ?thesis using cron_next_least [of 0 demo_schedule] u(1) demo_fires by simp
qed

text \<open>
  C35. Away from UTC the search can skip a fire time: the first year searched is the local one, the
  dates are UTC. Eight hours east of UTC, at 16:00 UTC on 31 December 2025, local time is
  in 2026 already, and the fire time at 17:30 UTC on that day is missed for the one a year later.
\<close>

theorem cron_next_skips_year_end:
  "\<exists>after u. after < u \<and> fires_at demo_schedule u \<and> u < cron_next (\<lambda>_. 8 * 3600) demo_schedule after"
proof -
  let ?d = "date_days 2025 12 31"
  let ?after = "clock_time ?d 16 0" and ?u = "clock_time ?d 17 30"
  have n: "cron_next (\<lambda>_. 8 * 3600) demo_schedule ?after = clock_time (date_days 2026 12 31) 17 30"
    by code_simp
  have "?after < ?u" by (simp add: clock_time_def hour_ns_def minute_ns_def)
  moreover have "date_days 2025 12 31 < date_days 2026 12 31"
    by (rule date_days_less_year) (simp_all add: days_in_table)
  then have "?u < clock_time (date_days 2026 12 31) 17 30" by (simp add: clock_time_def day_ns_def)
  ultimately show ?thesis using n demo_fires [of 2025] by metis
qed

end
