(* ===== verification/Snapshot.thy ===== *)
theory Snapshot
  imports TaskStore RecordStore IdGen
begin

text \<open>
  \<open>internal/store/snapshot.go\<close>: the repository as one serializable value. JSON and the
  streams are outside the model: \<open>Export\<close> takes the encoder (\<open>None\<close> is its error) and
  whether the writer accepts the bytes, \<open>Import\<close> takes the decoded snapshot (\<open>None\<close> is a
  read or decoding error). \<open>nows k\<close> is the clock at the \<open>k\<close>-th \<open>Save\<close> of an import.
\<close>

section \<open>The code\<close>

record snapshot =
  sn_version :: int
  sn_tasks :: "task list"
  sn_records :: "execution_record list"

datatype snapshot_error = EncodeError | WriteError | DecodeError | SaveError store_error

definition export_snapshot :: "task_store \<Rightarrow> record_store \<Rightarrow> string list \<Rightarrow> snapshot option" where
  "export_snapshot s r its =
     (case store_list s its 100000 0 of
        None \<Rightarrow> None
      | Some ts \<Rightarrow>
          Some \<lparr>sn_version = 1, sn_tasks = ts, sn_records = concat (map (\<lambda>t. records_list r (task_id t)) ts)\<rparr>)"

text \<open>\<open>%016x\<close>\<close>

definition hex16 :: "uint64 \<Rightarrow> string" where
  "hex16 x = (let h = digits 16 (unat x) in replicate (16 - length h) (CHR ''0'') @ h)"

text \<open>\<open>Export\<close>: the outer \<open>None\<close> is a panic of \<open>List\<close>.\<close>

definition store_export ::
  "(snapshot \<Rightarrow> byte list option) \<Rightarrow> (byte list \<Rightarrow> bool) \<Rightarrow> task_store \<Rightarrow> record_store \<Rightarrow> string list \<Rightarrow>
   (snapshot_error + string) option" where
  "store_export encode accepts s r its =
     (case export_snapshot s r its of
        None \<Rightarrow> None
      | Some snap \<Rightarrow>
          Some (case encode snap of
                  None \<Rightarrow> Inl EncodeError
                | Some data \<Rightarrow> if accepts data then Inr (hex16 (xxh_sum64 data)) else Inl WriteError))"

fun import_tasks :: "task_store \<Rightarrow> (nat \<Rightarrow> instant) \<Rightarrow> task list \<Rightarrow> task_store \<times> store_error option" where
  "import_tasks s nows [] = (s, None)"
| "import_tasks s nows (t # ts) =
     (case store_save s (nows 0) t of
        Inl e \<Rightarrow> (s, Some e)
      | Inr s' \<Rightarrow> import_tasks s' (\<lambda>k. nows (Suc k)) ts)"

fun import_records :: "record_store \<Rightarrow> string \<Rightarrow> execution_record list \<Rightarrow> record_store" where
  "import_records r stamp [] = r"
| "import_records r stamp (rec # recs) = import_records (records_append r stamp rec) stamp recs"

definition store_import ::
  "task_store \<Rightarrow> record_store \<Rightarrow> (nat \<Rightarrow> instant) \<Rightarrow> string \<Rightarrow> snapshot option \<Rightarrow>
   task_store \<times> record_store \<times> snapshot_error option" where
  "store_import s r nows stamp decoded =
     (case decoded of
        None \<Rightarrow> (s, r, Some DecodeError)
      | Some snap \<Rightarrow>
          (case import_tasks (store_reset s) nows (sn_tasks snap) of
             (s', Some e) \<Rightarrow> (s', r, Some (SaveError e))
           | (s', None) \<Rightarrow> (s', import_records r stamp (sn_records snap), None)))"

section \<open>Importing\<close>

text \<open>A task as \<open>Save\<close> stores it in an empty place.\<close>

definition restored :: "task \<Rightarrow> instant \<Rightarrow> task" where
  "restored t at = t\<lparr>version := 1, created_at := at, updated_at := at\<rparr>"

lemma import_tasks_new:
  assumes "store_inv s" and "\<forall>t \<in> set ts. task_id t \<noteq> '''' \<and> ts_tasks s (task_id t) = None \<and> ts_by_name s (task_name t) = None"
    and "distinct (map task_id ts)" and "distinct (map task_name ts)"
  shows "\<exists>s'. import_tasks s nows ts = (s', None) \<and> store_inv s' \<and>
    (\<forall>i. i \<notin> task_id ` set ts \<longrightarrow> ts_tasks s' i = ts_tasks s i) \<and>
    (\<forall>t \<in> set ts. \<exists>at. ts_tasks s' (task_id t) = Some (restored t at))"
  using assms
proof (induction ts arbitrary: s nows)
  case (Cons t ts)
  let ?cp = "restored t (nows 0)"
  define s1 where "s1 = s\<lparr>ts_tasks := (ts_tasks s)(task_id t \<mapsto> ?cp), ts_by_name := (ts_by_name s)(task_name t \<mapsto> task_id t),
    ts_by_time := index_time (ts_by_time s) ?cp\<rparr>"
  have save: "store_save s (nows 0) t = Inr s1"
    using Cons.prems(2) by (simp add: store_save_new s1_def restored_def Let_def)
  have inv: "store_inv s1"
    using store_save_inv [OF Cons.prems(1) save] Cons.prems(2) by simp
  have "\<forall>u \<in> set ts. task_id u \<noteq> '''' \<and> ts_tasks s1 (task_id u) = None \<and> ts_by_name s1 (task_name u) = None"
    using Cons.prems(2-4) by (auto simp: s1_def image_iff)
  from Cons.IH [OF inv this, of "\<lambda>k. nows (Suc k)"] Cons.prems(3,4) obtain s' where
    s': "import_tasks s1 (\<lambda>k. nows (Suc k)) ts = (s', None)" "store_inv s'"
    "\<forall>i. i \<notin> task_id ` set ts \<longrightarrow> ts_tasks s' i = ts_tasks s1 i"
    "\<forall>t \<in> set ts. \<exists>at. ts_tasks s' (task_id t) = Some (restored t at)" by auto
  have "ts_tasks s' (task_id t) = Some ?cp" using s'(3) Cons.prems(3) by (simp add: s1_def)
  with s' save show ?case by (intro exI [of _ s']) (auto simp: s1_def)
qed simp

lemma import_records_appends:
  assumes "\<forall>rec \<in> set recs. rec_id rec \<noteq> ''''"
  shows "records_of (import_records r stamp recs) i = records_of r i @ filter (\<lambda>rec. rec_task_id rec = i) recs"
  using assms by (induction recs arbitrary: r) (auto simp: records_of_append)

text \<open>Of the records of several tasks, those of one.\<close>

lemma records_picked:
  assumes "\<forall>i. \<forall>rec \<in> set (records_of r i). rec_task_id rec = i \<and> rec_id rec \<noteq> ''''" and "distinct (map task_id us)"
  shows "filter (\<lambda>rec. rec_task_id rec = i) (concat (map (\<lambda>t. records_list r (task_id t)) us)) =
    (if i \<in> task_id ` set us then records_list r i else [])"
  using assms(2)
proof (induction us)
  case (Cons u us)
  have "filter (\<lambda>rec. rec_task_id rec = i) (records_list r (task_id u)) = (if i = task_id u then records_list r i else [])"
    using assms(1) by (auto simp: records_list_def intro!: filter_True filter_False)
  with Cons show ?case by auto
qed simp

section \<open>Properties\<close>

text \<open>The tasks that an export holds: the oldest, up to the limit of the listing.\<close>

definition exported :: "task_store \<Rightarrow> string list \<Rightarrow> task list" where
  "exported s its = take 100000 (sort_key created_at (List.map_filter (ts_tasks s) its))"

lemma export_snapshot_exported:
  "export_snapshot s r its = Some \<lparr>sn_version = 1, sn_tasks = exported s its,
     sn_records = concat (map (\<lambda>t. records_list r (task_id t)) (exported s its))\<rparr>"
  by (simp add: export_snapshot_def store_list_def exported_def Let_def wrap64_def)

lemma exported_tasks:
  assumes inv: "store_inv s" and its: "distinct its" "set its = dom (ts_tasks s)"
  shows "t \<in> set (exported s its) \<Longrightarrow> ts_tasks s (task_id t) = Some t"
    and "distinct (map task_id (exported s its))" and "distinct (map task_name (exported s its))"
    and "length (exported s its) = min 100000 (length its)"
    and "t \<in> set (exported s its) \<Longrightarrow> ts_tasks s i = Some u \<Longrightarrow> u \<notin> set (exported s its) \<Longrightarrow> created_at t \<le> created_at u"
    and "length its \<le> 100000 \<Longrightarrow> ts_tasks s i = Some u \<Longrightarrow> u \<in> set (exported s its)"
proof -
  let ?m = "List.map_filter (ts_tasks s) its"
  define all where "all = sort_key created_at ?m"
  have ex: "exported s its = take 100000 all" by (simp add: exported_def all_def)
  have set_all: "t \<in> set all \<longleftrightarrow> ts_tasks s (task_id t) = Some t" for t
    using its(2) store_invD(1) [OF inv] by (auto simp: all_def map_filter_Some_iff dom_def)
  have stored: "u \<in> set all" if "ts_tasks s i = Some u" for i u
    using that store_invD(1) [OF inv that] by (simp add: set_all)
  have "mset (map task_id all) = mset (map task_id ?m)" by (simp add: all_def)
  moreover have "distinct (map task_id ?m)" using store_invD(1) [OF inv] its(1) by (intro distinct_map_filter) auto
  ultimately have ids: "distinct (map task_id all)" by (metis mset_eq_imp_distinct_iff)
  have "inj_on task_name (set all)"
  proof (rule inj_onI)
    fix t u assume "t \<in> set all" "u \<in> set all" "task_name t = task_name u"
    then show "t = u" using store_invD(3) [OF inv] set_all by (metis option.inject)
  qed
  then have names: "distinct (map task_name all)" using ids by (simp add: distinct_map)
  have "filter (\<lambda>i. ts_tasks s i \<noteq> None) its = its" using its(2) by (intro filter_True) auto
  then have len: "length all = length its" by (simp add: all_def List.map_filter_def)
  show "t \<in> set (exported s its) \<Longrightarrow> ts_tasks s (task_id t) = Some t" using set_all by (auto simp: ex dest: in_set_takeD)
  show "distinct (map task_id (exported s its))" "distinct (map task_name (exported s its))"
    using ids names by (simp_all add: ex flip: take_map)
  show "length (exported s its) = min 100000 (length its)" by (simp add: ex len min.commute)
  show "created_at t \<le> created_at u"
    if "t \<in> set (exported s its)" "ts_tasks s i = Some u" "u \<notin> set (exported s its)"
  proof -
    have "u \<in> set (take 100000 all @ drop 100000 all)" using stored [OF that(2)] by simp
    then have "u \<in> set (drop 100000 all)" using that(3) by (simp only: set_append ex) simp
    moreover have "sorted_wrt (\<lambda>a b. created_at a \<le> created_at b) (take 100000 all @ drop 100000 all)"
      using sorted_sort_key [of created_at ?m] by (simp add: all_def sorted_map)
    ultimately show ?thesis using that(1) unfolding sorted_wrt_append ex by blast
  qed
  show "u \<in> set (exported s its)" if "length its \<le> 100000" "ts_tasks s i = Some u"
    using stored [OF that(2)] that(1) by (simp add: ex len)
qed

text \<open>
  C20. \<open>Import\<close> restores what \<open>Export\<close> wrote: every exported task comes back under its id with all
  its fields but its version, which starts again at one, and its creation and update times; no
  other task is left; and the exported records follow those that the record store already
  has, so importing into the same stores doubles the history. Exported are all tasks of a store
  that holds at most 100000; of a larger store the 100000 oldest, and the others are lost.
\<close>

theorem snapshot_roundtrip:
  assumes inv: "store_inv s" and its: "distinct its" "set its = dom (ts_tasks s)"
    and recs: "\<forall>i. \<forall>rec \<in> set (records_of r i). rec_task_id rec = i \<and> rec_id rec \<noteq> ''''"
  shows "\<exists>snap s' r'. export_snapshot s r its = Some snap \<and> store_import s0 r0 nows stamp (Some snap) = (s', r', None) \<and>
    store_inv s' \<and>
    (\<forall>i. case ts_tasks s i of None \<Rightarrow> ts_tasks s' i = None
       | Some t \<Rightarrow> if t \<in> set (sn_tasks snap) then \<exists>at. ts_tasks s' i = Some (restored t at) else ts_tasks s' i = None) \<and>
    (\<forall>i. records_of r' i = records_of r0 i @ (if i \<in> dom (ts_tasks s') then records_list r i else [])) \<and>
    card (dom (ts_tasks s')) = min 100000 (card (dom (ts_tasks s))) \<and>
    (card (dom (ts_tasks s)) \<le> 100000 \<longrightarrow> (\<forall>i t. ts_tasks s i = Some t \<longrightarrow> t \<in> set (sn_tasks snap))) \<and>
    (\<forall>t \<in> set (sn_tasks snap). \<forall>i u. ts_tasks s i = Some u \<and> u \<notin> set (sn_tasks snap) \<longrightarrow> created_at t \<le> created_at u)"
proof -
  define ts where "ts = exported s its"
  note ex = exported_tasks [OF inv its, folded ts_def]
  note export = export_snapshot_exported [of s r its, folded ts_def]
  have "\<forall>t \<in> set ts. task_id t \<noteq> '''' \<and> ts_tasks (store_reset s0) (task_id t) = None \<and> ts_by_name (store_reset s0) (task_name t) = None"
    using ex(1) store_invD(2) [OF inv] by (auto simp: store_reset_def)
  from import_tasks_new [OF store_inv_reset this ex(2,3), of nows] obtain s' where
    s': "import_tasks (store_reset s0) nows ts = (s', None)" "store_inv s'"
    "\<forall>i. i \<notin> task_id ` set ts \<longrightarrow> ts_tasks s' i = ts_tasks (store_reset s0) i"
    "\<forall>t \<in> set ts. \<exists>at. ts_tasks s' (task_id t) = Some (restored t at)" by auto
  have dom: "dom (ts_tasks s') = task_id ` set ts"
    using s'(3,4) by (auto simp: store_reset_def)
  let ?recs = "concat (map (\<lambda>t. records_list r (task_id t)) ts)"
  have "\<forall>rec \<in> set ?recs. rec_id rec \<noteq> ''''" using recs by (auto simp: records_list_def)
  from import_records_appends [OF this, of r0 stamp]
  have records: "records_of (import_records r0 stamp ?recs) i =
      records_of r0 i @ (if i \<in> dom (ts_tasks s') then records_list r i else [])" for i
    by (simp add: records_picked [OF recs ex(2)] dom)
  have tasks: "case ts_tasks s i of None \<Rightarrow> ts_tasks s' i = None
       | Some t \<Rightarrow> if t \<in> set ts then \<exists>at. ts_tasks s' i = Some (restored t at) else ts_tasks s' i = None" for i
  proof (cases "\<exists>t \<in> set ts. task_id t = i")
    case True
    then obtain t where t: "t \<in> set ts" "task_id t = i" by blast
    with ex(1) s'(4) show ?thesis by auto
  next
    case False
    then have "i \<notin> dom (ts_tasks s')" unfolding dom by blast
    then have "ts_tasks s' i = None" by blast
    moreover have "t \<notin> set ts" if "ts_tasks s i = Some t" for t
      using False store_invD(1) [OF inv that] by blast
    ultimately show ?thesis by (simp split: option.split)
  qed
  have size: "card (dom (ts_tasks s)) = length its" using its distinct_card by metis
  have count: "card (dom (ts_tasks s')) = min 100000 (card (dom (ts_tasks s)))"
    using distinct_card [OF ex(2)] ex(4) by (simp add: dom size)
  have all: "card (dom (ts_tasks s)) \<le> 100000 \<longrightarrow> (\<forall>i t. ts_tasks s i = Some t \<longrightarrow> t \<in> set ts)"
    using ex(6) by (simp add: size)
  have oldest: "\<forall>t \<in> set ts. \<forall>i u. ts_tasks s i = Some u \<and> u \<notin> set ts \<longrightarrow> created_at t \<le> created_at u"
    using ex(5) by blast
  have import: "store_import s0 r0 nows stamp (Some \<lparr>sn_version = 1, sn_tasks = ts, sn_records = ?recs\<rparr>) =
      (s', import_records r0 stamp ?recs, None)" using s'(1) by (simp add: store_import_def)
  show ?thesis
    by (intro exI conjI, rule export, rule import) (unfold snapshot.simps, (rule s'(2) allI tasks records count all oldest)+)
qed

theorem snapshot_roundtrip_witness:
  "\<exists>snap s' r' at. export_snapshot demo_store records_new [''a'', ''b''] = Some snap \<and>
     store_import store_new records_new (\<lambda>k. 7) '''' (Some snap) = (s', r', None) \<and>
     ts_tasks s' ''b'' = map_option (\<lambda>t. restored t at) (ts_tasks demo_store ''b'')"
proof -
  have dom: "distinct [''a'', ''b'']" "set [''a'', ''b''] = dom (ts_tasks demo_store)" by (auto simp: demo_store_def)
  have recs: "\<forall>i. \<forall>rec \<in> set (records_of records_new i). rec_task_id rec = i \<and> rec_id rec \<noteq> ''''"
    by (simp add: records_of_def records_new_def)
  obtain snap s' r' where r: "export_snapshot demo_store records_new [''a'', ''b''] = Some snap"
    "store_import store_new records_new (\<lambda>k. 7) '''' (Some snap) = (s', r', None)"
    and t: "\<forall>i. case ts_tasks demo_store i of None \<Rightarrow> ts_tasks s' i = None
       | Some t \<Rightarrow> if t \<in> set (sn_tasks snap) then \<exists>at. ts_tasks s' i = Some (restored t at) else ts_tasks s' i = None"
    and all: "card (dom (ts_tasks demo_store)) \<le> 100000 \<longrightarrow> (\<forall>i t. ts_tasks demo_store i = Some t \<longrightarrow> t \<in> set (sn_tasks snap))"
    using snapshot_roundtrip [OF demo_store_inv dom recs, of store_new records_new "\<lambda>k. 7" "''''"] by blast
  have "card (dom (ts_tasks demo_store)) \<le> 100000" by (simp flip: dom(2))
  with all have all: "ts_tasks demo_store i = Some t \<Longrightarrow> t \<in> set (sn_tasks snap)" for i t by blast
  from spec [OF t, of "''b''"] all [of "''b''"] obtain at where "ts_tasks s' ''b'' = map_option (\<lambda>t. restored t at) (ts_tasks demo_store ''b'')"
    by (auto split: option.splits)
  with r show ?thesis by blast
qed

end
