(* ===== verification/Wiring.thy ===== *)
theory Wiring
  imports ReadyQueue DelayedQueue TaskStore Registry RecordStore AuditLog IdGen GoTime
begin

text \<open>
  The state of the scheduler stack that \<open>internal/harness/harness.go\<close> and \<open>cmd/schedd\<close> wire
  together. In the code the managers hold pointers to the same store, queues, roster and
  counters; here those shared objects are the fields of one record, which the operations
  of the managers (\<open>LeaseManager\<close>, \<open>Dispatch\<close>, \<open>Execution\<close>) take and return. The lease
  manager knows its worker roster only through an interface, so the record is polymorphic
  in the roster's type \<open>'r\<close>.

  The clock is the harness's, which only \<open>Advance\<close> moves: every reading during one
  operation gives the same instant. Its zone is \<open>w_loc\<close>.
\<close>

section \<open>Counters and settings\<close>

text \<open>\<open>internal/metrics/metrics.go\<close>: \<open>atomic.Int64\<close> counters, whose \<open>Add\<close> wraps.\<close>

record metrics =
  mt_tasks_executed :: int
  mt_tasks_failed :: int
  mt_leases_expired :: int
  mt_results_recorded :: int

definition metrics_new :: metrics where
  "metrics_new = \<lparr>mt_tasks_executed = 0, mt_tasks_failed = 0, mt_leases_expired = 0, mt_results_recorded = 0\<rparr>"

definition count_up :: "int \<Rightarrow> int" where
  "count_up n = wrap64 (n + 1)"

text \<open>\<open>internal/config/config.go\<close>\<close>

record config =
  cf_addr :: string
  cf_tick_interval :: duration
  cf_lease_ttl :: duration
  cf_heartbeat_window :: duration
  cf_retry_delay :: duration
  cf_max_batch_size :: int

definition config_default :: config where
  "config_default =
     \<lparr>cf_addr = '':8090'', cf_tick_interval = 500 * 10 ^ 6, cf_lease_ttl = 30 * second_ns,
      cf_heartbeat_window = 10 * second_ns, cf_retry_delay = 5 * second_ns, cf_max_batch_size = 100\<rparr>"

section \<open>Errors\<close>

datatype sched_error =
    StoreError store_error
  | WorkerError worker_error
  | ErrNoReadyTask
  | ErrLeaseNotFound
  | ErrLeaseOwner
  | ErrLeaseStale
  | ErrNotTriggerable
  | ErrTerminal
  | ErrChanged
  | ErrStaleResult
  | ErrHandlerRequired

section \<open>The state\<close>

text \<open>The lease manager's own fields: the leases and, by task, the id of its lease.\<close>

record lease_table =
  lt_leases :: "string \<rightharpoonup> lease"
  lt_by_task :: "string \<rightharpoonup> string"

record 'r stack =
  w_now :: instant
  w_loc :: location
  w_store :: task_store
  w_records :: record_store
  w_ready :: ready_queue
  w_delayed :: delayed_queue
  w_next_fire :: "string \<rightharpoonup> instant"
  w_registry :: 'r
  w_leases :: lease_table
  w_ttl :: duration
  w_retry_delay :: duration
  w_metrics :: metrics
  w_seq :: uint64
  w_audit :: audit_log

type_synonym wiring = "registry stack"

abbreviation tasks_of :: "'r stack \<Rightarrow> string \<rightharpoonup> task" where
  "tasks_of w \<equiv> ts_tasks (w_store w)"

text \<open>The clock of the harness.\<close>

definition clock_now :: "'r stack \<Rightarrow> instant" where
  "clock_now w = w_now w"

definition clock_advance :: "'r stack \<Rightarrow> duration \<Rightarrow> 'r stack" where
  "clock_advance w d = w\<lparr>w_now := w_now w + d\<rparr>"

text \<open>What \<open>NewManager\<close> of the lease manager and \<open>NewScheduler\<close> start with, besides what they are given.\<close>

definition lease_table_new :: lease_table where
  "lease_table_new = \<lparr>lt_leases = Map.empty, lt_by_task = Map.empty\<rparr>"

definition sched_new :: "string \<rightharpoonup> instant" where
  "sched_new = Map.empty"

text \<open>Pushing to the ready queue, with the result dropped, as every caller does.\<close>

definition push_ready :: "'r stack \<Rightarrow> string \<Rightarrow> int \<Rightarrow> instant \<Rightarrow> 'r stack" where
  "push_ready w i prio now = w\<lparr>w_ready := fst (ready_push (w_ready w) i prio now)\<rparr>"

end
