(* ===== verification/LeaseManager.thy ===== *)
theory LeaseManager
  imports Wiring
begin

text \<open>
  \<open>internal/lease/manager.go\<close>: leases bind a task to a worker until a deadline. The worker
  comes from the interface \<open>WorkerPicker\<close>, the argument \<open>pick\<close> on the roster. Where the code
  ranges over the map of leases, the iteration order is the argument \<open>its\<close>. \<open>nano\<close> is the
  wall clock that the identifier of a new lease hashes.
\<close>

section \<open>The code\<close>

lemma ready_pop_shorter:
  "ready_pop q = (q', Some e) \<Longrightarrow> length (rq_entries q') < length (rq_entries q)"
  using rh.heap_pop_length [of "rq_entries q"]
  by (auto simp: ready_pop_def split: if_splits prod.splits)

definition lease_insert :: "lease_table \<Rightarrow> lease \<Rightarrow> lease_table" where
  "lease_insert lt l =
     lt\<lparr>lt_leases := (lt_leases lt)(lease_id l \<mapsto> l), lt_by_task := (lt_by_task lt)(lease_task_id l \<mapsto> lease_id l)\<rparr>"

definition lease_delete :: "lease_table \<Rightarrow> string \<Rightarrow> string \<Rightarrow> lease_table" where
  "lease_delete lt i t = lt\<lparr>lt_leases := (lt_leases lt)(i := None), lt_by_task := (lt_by_task lt)(t := None)\<rparr>"

text \<open>Giving a task back when no worker can take it; the results are dropped.\<close>

definition assign_undo :: "'r stack \<Rightarrow> string \<Rightarrow> task \<Rightarrow> instant \<Rightarrow> 'r stack" where
  "assign_undo w i t now =
     (let w' = (case store_transition (w_store w) (w_now w) i StateLeased StateReady (version t) of
                  Inr (Some (s, _)) \<Rightarrow> w\<lparr>w_store := s\<rparr>
                | _ \<Rightarrow> w)
      in push_ready w' i (priority t) now)"

function lease_assign ::
  "('r \<Rightarrow> instant \<Rightarrow> worker_error + worker_node) \<Rightarrow> 'r stack \<Rightarrow> instant \<Rightarrow> int \<Rightarrow> 'r stack \<times> (sched_error + lease)" where
  "lease_assign pick w now nano =
     (case ready_pop (w_ready w) of
        (q, None) \<Rightarrow> (w\<lparr>w_ready := q\<rparr>, Inl ErrNoReadyTask)
      | (q, Some entry) \<Rightarrow>
          (case store_transition (w_store w) (w_now w) (re_task_id entry) StateReady StateLeased (-1) of
             Inl e \<Rightarrow> (w\<lparr>w_ready := q\<rparr>, Inl (StoreError e))
           | Inr None \<Rightarrow> lease_assign pick (w\<lparr>w_ready := q\<rparr>) now nano
           | Inr (Some (s, t)) \<Rightarrow>
               let w1 = w\<lparr>w_ready := q, w_store := s\<rparr> in
               (case pick (w_registry w1) now of
                  Inl e \<Rightarrow> (assign_undo w1 (re_task_id entry) t now, Inl (WorkerError e))
                | Inr node \<Rightarrow>
                    let (seq, i) = id_next (w_seq w1) ''lease'' nano;
                        l = \<lparr>lease_id = i, lease_task_id = task_id t, lease_worker_id = node_id node,
                             lease_task_version = version t, lease_deadline = now + w_ttl w1,
                             lease_created_at = now\<rparr>
                    in (w1\<lparr>w_seq := seq, w_leases := lease_insert (w_leases w1) l\<rparr>, Inr l))))"
  by pat_completeness auto
termination
  by (relation "measure (\<lambda>(pick, w, now, nano). length (rq_entries (w_ready w)))")
    (auto dest: ready_pop_shorter [OF sym])

declare lease_assign.simps [simp del]

text \<open>\<open>Renew\<close>: \<open>None\<close> is the nil error.\<close>

definition lease_renew :: "'r stack \<Rightarrow> string \<Rightarrow> string \<Rightarrow> instant \<Rightarrow> 'r stack \<times> sched_error option" where
  "lease_renew w i worker now =
     (case lt_leases (w_leases w) i of
        None \<Rightarrow> (w, Some ErrLeaseNotFound)
      | Some l \<Rightarrow>
          if lease_worker_id l \<noteq> worker then (w, Some ErrLeaseOwner)
          else
            case store_get (w_store w) (lease_task_id l) of
              Inl e \<Rightarrow> (w, Some (StoreError e))
            | Inr t \<Rightarrow>
                if version t \<noteq> lease_task_version l
                then (w\<lparr>w_leases := lease_delete (w_leases w) i (task_id t)\<rparr>, Some ErrLeaseStale)
                else (w\<lparr>w_leases := (w_leases w)\<lparr>lt_leases := (lt_leases (w_leases w))
                        (i \<mapsto> l\<lparr>lease_deadline := now + w_ttl w\<rparr>)\<rparr>\<rparr>, None))"

definition lease_current :: "'r stack \<Rightarrow> string \<Rightarrow> lease option" where
  "lease_current w t =
     (case lt_by_task (w_leases w) t of None \<Rightarrow> None | Some i \<Rightarrow> lt_leases (w_leases w) i)"

definition lease_by_worker :: "'r stack \<Rightarrow> string list \<Rightarrow> string \<Rightarrow> lease list" where
  "lease_by_worker w its worker =
     filter (\<lambda>l. lease_worker_id l = worker) (List.map_filter (lt_leases (w_leases w)) its)"

text \<open>\<open>ReapExpired\<close>: the loop that takes the expired leases out, and the one that requeues.\<close>

definition reap_collect :: "instant \<Rightarrow> lease_table \<times> lease list \<Rightarrow> string \<Rightarrow> lease_table \<times> lease list" where
  "reap_collect now = (\<lambda>(lt, expired) i.
     case lt_leases lt i of
       None \<Rightarrow> (lt, expired)
     | Some l \<Rightarrow>
         if lease_deadline l < now then (lease_delete lt i (lease_task_id l), expired @ [l]) else (lt, expired))"

definition reap_one :: "instant \<Rightarrow> 'r stack \<times> string list \<Rightarrow> lease \<Rightarrow> 'r stack \<times> string list" where
  "reap_one now = (\<lambda>(w, reaped) l.
     case store_get (w_store w) (lease_task_id l) of
       Inl _ \<Rightarrow> (w, reaped)
     | Inr t \<Rightarrow>
         if state t \<noteq> StateLeased \<or> version t \<noteq> lease_task_version l then (w, reaped)
         else
           case store_transition (w_store w) (w_now w) (lease_task_id l) StateLeased StateReady (version t) of
             Inr (Some (s, updated)) \<Rightarrow>
               ((push_ready (w\<lparr>w_store := s\<rparr>) (task_id updated) (priority updated) now)
                  \<lparr>w_metrics := (w_metrics w)\<lparr>mt_leases_expired := count_up (mt_leases_expired (w_metrics w))\<rparr>\<rparr>,
                reaped @ [lease_task_id l])
           | _ \<Rightarrow> (w, reaped))"

definition lease_reap_expired :: "'r stack \<Rightarrow> string list \<Rightarrow> instant \<Rightarrow> 'r stack \<times> string list" where
  "lease_reap_expired w its now =
     (let (lt, expired) = foldl (reap_collect now) (w_leases w, []) its
      in foldl (reap_one now) (w\<lparr>w_leases := lt\<rparr>, []) expired)"

definition lease_release :: "'r stack \<Rightarrow> string \<Rightarrow> 'r stack" where
  "lease_release w i =
     (case lt_leases (w_leases w) i of
        None \<Rightarrow> w
      | Some l \<Rightarrow> w\<lparr>w_leases := lease_delete (w_leases w) i (lease_task_id l)\<rparr>)"

section \<open>What the picker's contract gives\<close>

text \<open>A lease goes to a worker that the roster holds alive, whatever roster is behind the interface.\<close>

context worker_picker
begin

lemma assign_live:
  "lease_assign pick w now nano = (w', Inr l) \<Longrightarrow>
   (\<exists>n. live (w_registry w) now n \<and> node_id n = lease_worker_id l) \<and> w_registry w' = w_registry w"
proof (induction "length (rq_entries (w_ready w))" arbitrary: w rule: less_induct)
  case less
  obtain q oe where p: "ready_pop (w_ready w) = (q, oe)" by fastforce
  show ?case
  proof (cases oe)
    case None
    with less.prems p show ?thesis by (simp add: lease_assign.simps [of pick w])
  next
    case (Some e)
    let ?tr = "store_transition (w_store w) (w_now w) (re_task_id e) StateReady StateLeased (- 1)"
    show ?thesis
    proof (cases "?tr = Inr None")
      case True
      then have "lease_assign pick w now nano = lease_assign pick (w\<lparr>w_ready := q\<rparr>) now nano"
        using p Some by (simp add: lease_assign.simps [of pick w])
      with less.hyps [of "w\<lparr>w_ready := q\<rparr>"] less.prems ready_pop_shorter [of "w_ready w" q e] p Some show ?thesis by simp
    next
      case False
      with less.prems p Some show ?thesis
        by (auto simp: lease_assign.simps [of pick w] Let_def dest!: pick_live split: prod.splits option.splits sum.splits)
    qed
  qed
qed

end

end
