(* ===== verification/Dispatch.thy ===== *)
theory Dispatch
  imports Wiring Cron
begin

text \<open>
  \<open>internal/dispatch/scheduler.go\<close>: the index of next fire times and the paths into the
  ready queue. Its own field is \<open>w_next_fire\<close>; where the code ranges over that map, the
  iteration order is the argument \<open>its\<close>.
\<close>

section \<open>The code\<close>

definition sched_track :: "'r stack \<Rightarrow> task \<Rightarrow> 'r stack" where
  "sched_track w t = w\<lparr>w_next_fire := (w_next_fire w)(task_id t \<mapsto> next_run_at t)\<rparr>"

definition sched_refresh_cron :: "'r stack \<Rightarrow> task \<Rightarrow> 'r stack" where
  "sched_refresh_cron w t = w\<lparr>w_next_fire := (w_next_fire w)(task_id t \<mapsto> next_run_at t)\<rparr>"

definition sched_set_next_fire :: "'r stack \<Rightarrow> string \<Rightarrow> instant \<Rightarrow> 'r stack" where
  "sched_set_next_fire w i at = w\<lparr>w_next_fire := (w_next_fire w)(i \<mapsto> at)\<rparr>"

definition sched_next_cron :: "'r stack \<Rightarrow> string \<Rightarrow> instant \<Rightarrow> instant" where
  "sched_next_cron w expr after =
     (case cron_parse expr of
        Inl _ \<Rightarrow> after + 365 * 24 * hour_ns
      | Inr sch \<Rightarrow> cron_next (w_loc w) sch after)"

text \<open>\<open>Tick\<close>: the ids that are due, one turn of the loop over them, and one over the delayed entries.\<close>

definition tick_due :: "'r stack \<Rightarrow> string list \<Rightarrow> instant \<Rightarrow> string list" where
  "tick_due w its now = filter (\<lambda>i. case w_next_fire w i of None \<Rightarrow> False | Some at \<Rightarrow> \<not> now < at) its"

definition tick_cron :: "'r stack \<Rightarrow> string \<Rightarrow> task \<Rightarrow> instant \<Rightarrow> 'r stack" where
  "tick_cron w i updated now =
     (if kind (trigger updated) = ''cron''
      then
        case cron_parse (cron_expr (trigger updated)) of
          Inl _ \<Rightarrow> w
        | Inr sch \<Rightarrow>
            (let nxt = cron_next (w_loc w) sch now in
             case store_set_next_run (w_store w) (w_now w) i nxt of
               Inl _ \<Rightarrow> w
             | Inr s \<Rightarrow> sched_set_next_fire (w\<lparr>w_store := s\<rparr>) i nxt)
      else w)"

definition tick_pending :: "instant \<Rightarrow> 'r stack \<times> nat \<Rightarrow> string \<Rightarrow> 'r stack \<times> nat" where
  "tick_pending now = (\<lambda>(w, enqueued) i.
     case store_get (w_store w) i of
       Inl _ \<Rightarrow> (w\<lparr>w_next_fire := (w_next_fire w)(i := None)\<rparr>, enqueued)
     | Inr t \<Rightarrow>
         if state t \<noteq> StatePending then (w, enqueued)
         else
           case store_mark_ready (w_store w) (w_now w) i of
             Inl _ \<Rightarrow> (w, enqueued)
           | Inr (s, updated) \<Rightarrow>
               (tick_cron (push_ready (w\<lparr>w_store := s\<rparr>) (task_id updated) (priority updated) now) i updated now,
                Suc enqueued))"

definition tick_delayed :: "instant \<Rightarrow> 'r stack \<times> nat \<Rightarrow> delayed_entry \<Rightarrow> 'r stack \<times> nat" where
  "tick_delayed now = (\<lambda>(w, enqueued) entry.
     case store_get (w_store w) (de_task_id entry) of
       Inl _ \<Rightarrow> (w, enqueued)
     | Inr t \<Rightarrow>
         if state t \<noteq> StateReady then (w, enqueued)
         else (push_ready w (task_id t) (priority t) now, Suc enqueued))"

definition sched_tick :: "'r stack \<Rightarrow> string list \<Rightarrow> instant \<Rightarrow> 'r stack \<times> nat" where
  "sched_tick w its now =
     (let (w1, n1) = foldl (tick_pending now) (w, 0) (tick_due w its now);
          (dq, entries) = delayed_pop_due (w_delayed w1) now
      in foldl (tick_delayed now) (w1\<lparr>w_delayed := dq\<rparr>, n1) entries)"

definition sched_trigger_now :: "'r stack \<Rightarrow> string \<Rightarrow> instant \<Rightarrow> 'r stack \<times> sched_error option" where
  "sched_trigger_now w i now =
     (case store_get (w_store w) i of
        Inl e \<Rightarrow> (w, Some (StoreError e))
      | Inr t \<Rightarrow>
          if state t \<noteq> StatePending \<and> state t \<noteq> StateReady then (w, Some ErrNotTriggerable)
          else
            let (w1, updated) =
                  (case store_mark_ready (w_store w) (w_now w) i of
                     Inl _ \<Rightarrow> (w, t)
                   | Inr (s, u) \<Rightarrow> (w\<lparr>w_store := s\<rparr>, u))
            in (push_ready w1 (task_id updated) (priority updated) now, None))"

definition sched_schedule_retry :: "'r stack \<Rightarrow> string \<Rightarrow> instant \<Rightarrow> int \<Rightarrow> instant \<Rightarrow> 'r stack" where
  "sched_schedule_retry w i at prio now =
     w\<lparr>w_delayed := fst (delayed_push (w_delayed w)
         \<lparr>de_task_id = i, de_next_run_at = at, de_priority = prio, de_enqueued_at = now, de_index = 0\<rparr>)\<rparr>"

definition sched_cancel :: "'r stack \<Rightarrow> string \<Rightarrow> 'r stack \<times> sched_error option" where
  "sched_cancel w i =
     (case store_get (w_store w) i of
        Inl e \<Rightarrow> (w, Some (StoreError e))
      | Inr t \<Rightarrow>
          if terminal (state t) then (w, Some ErrTerminal)
          else
            case store_transition (w_store w) (w_now w) i (state t) StateCanceled (version t) of
              Inl e \<Rightarrow> (w, Some (StoreError e))
            | Inr None \<Rightarrow> (w, Some ErrChanged)
            | Inr (Some (s, _)) \<Rightarrow>
                (w\<lparr>w_store := s, w_ready := fst (ready_remove (w_ready w) i),
                   w_delayed := fst (delayed_remove (w_delayed w) i),
                   w_next_fire := (w_next_fire w)(i := None)\<rparr>, None))"

end
