(* ===== verification/Execution.thy ===== *)
theory Execution
  imports LeaseManager Dispatch
begin

text \<open>
  \<open>internal/execution/manager.go\<close>, which applies the result of an execution, and
  \<open>internal/worker/executor.go\<close>, which leases a task, runs its handler and reports the
  result. The handler is a parameter: any function that may change the whole stack while it
  runs and returns a message or an error text. \<open>nano\<close> and \<open>stamp\<close> are wall-clock readings
  that enter identifiers.
\<close>

section \<open>The code: results\<close>

text \<open>The task's retry, dead-letter and success branches, once the record is stored.\<close>

definition result_success :: "'r stack \<Rightarrow> lease \<Rightarrow> task \<Rightarrow> 'r stack \<times> (sched_error + task)" where
  "result_success w l t =
     (case store_transition (w_store w) (w_now w) (task_id t) StateLeased StateSucceeded (version t) of
        Inl e \<Rightarrow> (w, Inl (StoreError e))
      | Inr None \<Rightarrow> (w, Inl ErrStaleResult)
      | Inr (Some (s, updated)) \<Rightarrow>
          (lease_release (w\<lparr>w_store := s, w_metrics := (w_metrics w)
               \<lparr>mt_tasks_executed := count_up (mt_tasks_executed (w_metrics w))\<rparr>\<rparr>) (lease_id l), Inr updated))"

definition result_failure :: "'r stack \<Rightarrow> lease \<Rightarrow> task \<Rightarrow> instant \<Rightarrow> 'r stack \<times> (sched_error + task)" where
  "result_failure w0 l t finished =
     (let w = w0\<lparr>w_metrics := (w_metrics w0)\<lparr>mt_tasks_failed := count_up (mt_tasks_failed (w_metrics w0))\<rparr>\<rparr> in
      if 0 < retries_left t
      then
        let nxt = finished + w_retry_delay w in
        (case store_retry (w_store w) (w_now w) (w_now w) (task_id t) nxt (version t) of
           Inl e \<Rightarrow> (w, Inl (StoreError e))
         | Inr (s, updated) \<Rightarrow>
             (lease_release (sched_schedule_retry (w\<lparr>w_store := s\<rparr>) (task_id updated) nxt (priority updated) finished)
                (lease_id l), Inr updated))
      else
        case store_transition (w_store w) (w_now w) (task_id t) StateLeased StateDead (version t) of
          Inl e \<Rightarrow> (w, Inl (StoreError e))
        | Inr None \<Rightarrow> (w, Inl ErrStaleResult)
        | Inr (Some (s, updated)) \<Rightarrow> (lease_release (w\<lparr>w_store := s\<rparr>) (lease_id l), Inr updated))"

definition record_result ::
  "'r stack \<Rightarrow> lease \<Rightarrow> string \<Rightarrow> string \<Rightarrow> instant \<Rightarrow> instant \<Rightarrow> int \<Rightarrow> string \<Rightarrow> 'r stack \<times> (sched_error + task)" where
  "record_result w l status message started finished nano stamp =
     (case store_get (w_store w) (lease_task_id l) of
        Inl e \<Rightarrow> (w, Inl (StoreError e))
      | Inr t \<Rightarrow>
          (case lease_current w (lease_task_id l) of
             None \<Rightarrow> (w, Inl ErrStaleResult)
           | Some current \<Rightarrow>
               if lease_id current \<noteq> lease_id l \<or> lease_task_version current \<noteq> version t
               then (w, Inl ErrStaleResult)
               else
                 let (seq, i) = id_next (w_seq w) ''exec'' nano;
                     rec = \<lparr>rec_id = i, rec_task_id = task_id t, rec_attempt = attempt_count t,
                            rec_worker_id = lease_worker_id l, rec_status = status,
                            rec_started_at = started, rec_finished_at = finished, rec_message = message\<rparr>;
                     w1 = w\<lparr>w_seq := seq, w_records := records_append (w_records w) stamp rec,
                            w_metrics := (w_metrics w)\<lparr>mt_results_recorded := count_up (mt_results_recorded (w_metrics w))\<rparr>\<rparr>
                 in if status = ''success'' then result_success w1 l t else result_failure w1 l t finished))"

section \<open>The code: the executor\<close>

type_synonym 'r handler = "'r stack \<Rightarrow> task \<Rightarrow> 'r stack \<times> (string + string)"

text \<open>\<open>RunNext\<close> up to the call of the handler: a lease and the task it is for.\<close>

definition executor_begin ::
  "('r \<Rightarrow> instant \<Rightarrow> worker_error + worker_node) \<Rightarrow> 'r stack \<Rightarrow> int \<Rightarrow> 'r stack \<times> (sched_error + lease \<times> task)" where
  "executor_begin pick w nano =
     (case lease_assign pick w (w_now w) nano of
        (w1, Inl e) \<Rightarrow> (w1, Inl e)
      | (w1, Inr l) \<Rightarrow>
          (case store_get (w_store w1) (lease_task_id l) of
             Inl e \<Rightarrow> (lease_release w1 (lease_id l), Inl (StoreError e))
           | Inr t \<Rightarrow> (w1, Inr (l, t))))"

text \<open>After the handler: the outcome is recorded; \<open>Inl\<close> is the handler's error.\<close>

definition executor_finish ::
  "'r stack \<Rightarrow> lease \<Rightarrow> instant \<Rightarrow> string + string \<Rightarrow> int \<Rightarrow> string \<Rightarrow> 'r stack \<times> (sched_error + task)" where
  "executor_finish w l started outcome nano stamp =
     (let finished = w_now w;
          (status, message) = (case outcome of Inr m \<Rightarrow> (''success'', m) | Inl err \<Rightarrow> (''failure'', err))
      in case record_result w l status message started finished nano stamp of
           (w1, Inl e) \<Rightarrow> (lease_release w1 (lease_id l), Inl e)
         | (w1, Inr updated) \<Rightarrow> (w1, Inr updated))"

definition executor_run_next ::
  "('r \<Rightarrow> instant \<Rightarrow> worker_error + worker_node) \<Rightarrow> 'r stack \<Rightarrow> 'r handler option \<Rightarrow> int \<Rightarrow> int \<Rightarrow> string \<Rightarrow>
   'r stack \<times> (sched_error + task)" where
  "executor_run_next pick w handler nano1 nano2 stamp =
     (case handler of
        None \<Rightarrow> (w, Inl ErrHandlerRequired)
      | Some h \<Rightarrow>
          (case executor_begin pick w nano1 of
             (w1, Inl e) \<Rightarrow> (w1, Inl e)
           | (w1, Inr (l, t)) \<Rightarrow>
               (let started = w_now w1; (w2, outcome) = h w1 t
                in executor_finish w2 l started outcome nano2 stamp)))"

end
