(* ===== verification/Harness.thy ===== *)
theory Harness
  imports Execution
begin

text \<open>
  \<open>internal/harness/harness.go\<close>, which builds the stack and registers tasks directly, and
  the loops of \<open>cmd/schedd/main.go\<close>, one definition per turn of a loop.
\<close>

section \<open>The code: the harness\<close>

definition harness_new_with :: "location \<Rightarrow> instant \<Rightarrow> duration \<Rightarrow> duration \<Rightarrow> duration \<Rightarrow> wiring" where
  "harness_new_with loc at ttl window delay =
     \<lparr>w_now = at, w_loc = loc, w_store = store_new, w_records = records_new, w_ready = ready_new,
      w_delayed = delayed_new, w_next_fire = sched_new, w_registry = registry_new window,
      w_leases = lease_table_new, w_ttl = ttl, w_retry_delay = delay,
      w_metrics = metrics_new, w_seq = 0, w_audit = audit_new 1000\<rparr>"

definition harness_new :: "location \<Rightarrow> instant \<Rightarrow> wiring" where
  "harness_new loc at = harness_new_with loc at (30 * second_ns) (10 * second_ns) (5 * second_ns)"

text \<open>\<open>RegisterOnce\<close> and \<open>RegisterCron\<close>; \<open>None\<close> is their panic when the store refuses the task.\<close>

definition harness_register_once ::
  "'r stack \<Rightarrow> int \<Rightarrow> string \<Rightarrow> instant \<Rightarrow> int \<Rightarrow> int \<Rightarrow> ('r stack \<times> task) option" where
  "harness_register_once w nano name at prio retries =
     (let (seq, i) = id_next (w_seq w) ''task'' nano;
          t = \<lparr>task_id = i, task_name = name, task_handler = ''echo'', payload = ''payload'', priority = prio,
               timeout = 5 * second_ns, max_retries = retries, retries_left = retries, state = StatePending,
               version = 0, next_run_at = at, created_at = zero_time, updated_at = zero_time,
               last_attempt_at = zero_time, attempt_count = 0,
               trigger = \<lparr>kind = ''once'', run_at = at, cron_expr = ''''\<rparr>\<rparr>
      in case store_save (w_store w) (w_now w) t of
           Inl _ \<Rightarrow> None
         | Inr s \<Rightarrow> Some (sched_track (w\<lparr>w_seq := seq, w_store := s\<rparr>) t, t))"

definition harness_register_cron ::
  "'r stack \<Rightarrow> int \<Rightarrow> string \<Rightarrow> string \<Rightarrow> int \<Rightarrow> int \<Rightarrow> ('r stack \<times> task) option" where
  "harness_register_cron w nano name expr prio retries =
     (let (seq, i) = id_next (w_seq w) ''task'' nano;
          t = \<lparr>task_id = i, task_name = name, task_handler = ''echo'', payload = ''payload'', priority = prio,
               timeout = 5 * second_ns, max_retries = retries, retries_left = retries, state = StatePending,
               version = 0, next_run_at = sched_next_cron w expr (w_now w), created_at = zero_time,
               updated_at = zero_time, last_attempt_at = zero_time, attempt_count = 0,
               trigger = \<lparr>kind = ''cron'', run_at = zero_time, cron_expr = expr\<rparr>\<rparr>
      in case store_save (w_store w) (w_now w) t of
           Inl _ \<Rightarrow> None
         | Inr s \<Rightarrow> Some (sched_track (w\<lparr>w_seq := seq, w_store := s\<rparr>) t, t))"

definition harness_run_next :: "wiring \<Rightarrow> registry handler option \<Rightarrow> int \<Rightarrow> int \<Rightarrow> string \<Rightarrow> wiring \<times> (sched_error + task)" where
  "harness_run_next w h nano1 nano2 stamp = executor_run_next registry_pick w h nano1 nano2 stamp"

section \<open>The code: the service\<close>

text \<open>The wiring of \<open>main\<close>, with its one worker registered; the clock reads \<open>at\<close>.\<close>

definition main_worker :: worker_node where
  "main_worker = \<lparr>node_id = ''worker-1'', node_address = ''localhost:18090'', last_heartbeat = zero_time,
     registered_at = zero_time, generation = 0\<rparr>"

definition main_wiring :: "location \<Rightarrow> instant \<Rightarrow> wiring" where
  "main_wiring loc at =
     (let cfg = config_default;
          w = (harness_new_with loc at (cf_lease_ttl cfg) (cf_heartbeat_window cfg) (cf_retry_delay cfg))
                \<lparr>w_audit := audit_new 2000\<rparr>
      in case registry_register (w_registry w) at (Some main_worker) of
           Inl _ \<Rightarrow> w
         | Inr r \<Rightarrow> w\<lparr>w_registry := r\<rparr>)"

text \<open>A turn of the dispatch loop: \<open>its1\<close> and \<open>its2\<close> are the iteration orders of the two maps.\<close>

definition main_tick :: "wiring \<Rightarrow> string list \<Rightarrow> string list \<Rightarrow> wiring" where
  "main_tick w its1 its2 =
     (let (w1, _) = sched_tick w its1 (w_now w); (w2, _) = lease_reap_expired w1 its2 (w_now w1) in w2)"

definition main_heartbeat :: "wiring \<Rightarrow> wiring" where
  "main_heartbeat w =
     (case registry_heartbeat (w_registry w) ''worker-1'' (w_now w) of
        Inl _ \<Rightarrow> w
      | Inr r \<Rightarrow> w\<lparr>w_registry := r\<rparr>)"

definition echo_handler :: "registry handler" where
  "echo_handler = (\<lambda>w t. (w, Inr (''echo:'' @ payload t)))"

definition main_work :: "wiring \<Rightarrow> int \<Rightarrow> int \<Rightarrow> string \<Rightarrow> wiring" where
  "main_work w nano1 nano2 stamp = fst (executor_run_next registry_pick w (Some echo_handler) nano1 nano2 stamp)"

end
