(* ===== verification/Api.thy ===== *)
theory Api
  imports Harness Snapshot Validation
begin

text \<open>
  \<open>internal/api/handlers.go\<close>: the control plane. A handler takes the decoded request
  (\<open>None\<close> when reading or decoding the body failed) and returns the new state with the
  status code and the value of the response. What lies behind the standard library's
  boundary is a parameter: \<open>parse_time\<close> is \<open>time.Parse\<close> for RFC 3339 and \<open>format_time\<close> its
  inverse direction. Map iteration orders are arguments, as in the components.
\<close>

section \<open>The code: requests and responses\<close>

record trigger_body =
  tb_kind :: string
  tb_run_at :: string
  tb_cron :: string

record register_request =
  rr_name :: string
  rr_handler :: string
  rr_payload :: string
  rr_priority :: int
  rr_timeout_ms :: int
  rr_max_retry :: int
  rr_trigger :: trigger_body

datatype api_error =
    BadBody
  | BadTime
  | BadBatchSize
  | TaskIdRequired
  | WorkerIdRequired
  | InvalidTaskId
  | NotCronScheduled
  | CronError cron_error
  | ValidationError validation_error
  | SchedError sched_error
  | SnapshotError snapshot_error

datatype body =
    ErrorBody api_error
  | TaskBody task
  | TasksBody "task list"
  | RecordsBody "execution_record list"
  | WorkersBody "worker_node list"
  | IdsBody string "string list"
  | IdBody string string
  | CountBody string nat
  | OkBody
  | SnapshotBody string

datatype response = Response (status_code: int) (response_body: body)

text \<open>The handler's settings: \<open>cfg\<close> and \<open>operator\<close>.\<close>

record handler_env =
  he_cfg :: config
  he_operator :: string

definition audit_action :: "handler_env \<Rightarrow> wiring \<Rightarrow> string \<Rightarrow> string \<Rightarrow> wiring" where
  "audit_action he w action target =
     w\<lparr>w_audit := audit_record (w_audit w)
         \<lparr>ae_at = w_now w, ae_operator = he_operator he, ae_action = action, ae_target_id = target,
          ae_detail = '''', ae_request_id = ''''\<rparr>\<rparr>"

section \<open>The code: registration\<close>

definition build_task ::
  "(string \<Rightarrow> instant option) \<Rightarrow> wiring \<Rightarrow> int \<Rightarrow> register_request \<Rightarrow> wiring \<times> (api_error + task)" where
  "build_task parse_time w0 nano req =
     (let (seq, i) = id_next (w_seq w0) ''task'' nano;
          w = w0\<lparr>w_seq := seq\<rparr>;
          tb = rr_trigger req;
          t = \<lparr>task_id = i, task_name = trim_space (rr_name req), task_handler = trim_space (rr_handler req),
               payload = rr_payload req, priority = rr_priority req,
               timeout = wrap64 (rr_timeout_ms req * 10 ^ 6), max_retries = rr_max_retry req, retries_left = 0,
               state = StatePending, version = 0, next_run_at = zero_time, created_at = zero_time,
               updated_at = zero_time, last_attempt_at = zero_time, attempt_count = 0,
               trigger = \<lparr>kind = tb_kind tb, run_at = zero_time, cron_expr = tb_cron tb\<rparr>\<rparr>;
          timed = (if tb_kind tb = ''once''
                   then (case parse_time (tb_run_at tb) of
                           None \<Rightarrow> Inl BadTime
                         | Some at \<Rightarrow> Inr (t\<lparr>trigger := (trigger t)\<lparr>run_at := at\<rparr>, next_run_at := at\<rparr>))
                   else (case cron_parse (tb_cron tb) of
                           Inl e \<Rightarrow> Inl (CronError e)
                         | Inr sch \<Rightarrow> Inr (t\<lparr>next_run_at := cron_next (w_loc w) sch (w_now w)\<rparr>)))
      in case timed of
           Inl e \<Rightarrow> (w, Inl e)
         | Inr t1 \<Rightarrow>
             let t2 = t1\<lparr>retries_left := max_retries t1\<rparr> in
             (case validate_task (Some t2) (w_now w) of
                Some e \<Rightarrow> (w, Inl (ValidationError e))
              | None \<Rightarrow> (w, Inr t2)))"

definition api_register_task ::
  "(string \<Rightarrow> instant option) \<Rightarrow> handler_env \<Rightarrow> wiring \<Rightarrow> int \<Rightarrow> register_request option \<Rightarrow> wiring \<times> response" where
  "api_register_task parse_time he w nano decoded =
     (case decoded of
        None \<Rightarrow> (w, Response 400 (ErrorBody BadBody))
      | Some req \<Rightarrow>
          (case build_task parse_time w nano req of
             (w1, Inl e) \<Rightarrow> (w1, Response 400 (ErrorBody e))
           | (w1, Inr t) \<Rightarrow>
               (case store_save (w_store w1) (w_now w1) t of
                  Inl e \<Rightarrow> (w1, Response 409 (ErrorBody (SchedError (StoreError e))))
                | Inr s \<Rightarrow>
                    (audit_action he (sched_track (w1\<lparr>w_store := s\<rparr>) t) ''register'' (task_id t),
                     Response 200 (TaskBody t)))))"

text \<open>The batch: all items are built, then saved one by one; a refusal deletes the saved ones.\<close>

fun build_batch ::
  "(string \<Rightarrow> instant option) \<Rightarrow> wiring \<Rightarrow> (nat \<Rightarrow> int) \<Rightarrow> register_request list \<Rightarrow> wiring \<times> (api_error + task list)" where
  "build_batch parse_time w nanos [] = (w, Inr [])"
| "build_batch parse_time w nanos (req # reqs) =
     (case build_task parse_time w (nanos 0) req of
        (w1, Inl e) \<Rightarrow> (w1, Inl e)
      | (w1, Inr t) \<Rightarrow>
          (case build_batch parse_time w1 (\<lambda>k. nanos (Suc k)) reqs of
             (w2, Inl e) \<Rightarrow> (w2, Inl e)
           | (w2, Inr ts) \<Rightarrow> (w2, Inr (t # ts))))"

definition delete_saved :: "wiring \<Rightarrow> string \<Rightarrow> wiring" where
  "delete_saved w i = (case store_delete (w_store w) i of Inl _ \<Rightarrow> w | Inr s \<Rightarrow> w\<lparr>w_store := s\<rparr>)"

fun save_batch :: "wiring \<Rightarrow> string list \<Rightarrow> task list \<Rightarrow> wiring \<times> (store_error + string list)" where
  "save_batch w saved [] = (w, Inr saved)"
| "save_batch w saved (t # ts) =
     (case store_save (w_store w) (w_now w) t of
        Inl e \<Rightarrow> (foldl delete_saved w saved, Inl e)
      | Inr s \<Rightarrow> save_batch (sched_track (w\<lparr>w_store := s\<rparr>) t) (saved @ [task_id t]) ts)"

definition api_register_batch ::
  "(string \<Rightarrow> instant option) \<Rightarrow> handler_env \<Rightarrow> wiring \<Rightarrow> (nat \<Rightarrow> int) \<Rightarrow> register_request list option \<Rightarrow> wiring \<times> response" where
  "api_register_batch parse_time he w nanos decoded =
     (case decoded of
        None \<Rightarrow> (w, Response 400 (ErrorBody BadBody))
      | Some reqs \<Rightarrow>
          if reqs = [] \<or> cf_max_batch_size (he_cfg he) < int (length reqs)
          then (w, Response 400 (ErrorBody BadBatchSize))
          else
            (case build_batch parse_time w nanos reqs of
               (w1, Inl e) \<Rightarrow> (w1, Response 400 (ErrorBody e))
             | (w1, Inr built) \<Rightarrow>
                 (case save_batch w1 [] built of
                    (w2, Inl e) \<Rightarrow> (w2, Response 409 (ErrorBody (SchedError (StoreError e))))
                  | (w2, Inr saved) \<Rightarrow>
                      (foldl (\<lambda>w i. audit_action he w ''register-batch'' i) w2 saved,
                       Response 200 (IdsBody ''registered'' saved)))))"

section \<open>The code: task operations\<close>

definition api_trigger_now :: "handler_env \<Rightarrow> wiring \<Rightarrow> string option \<Rightarrow> wiring \<times> response" where
  "api_trigger_now he w decoded =
     (case decoded of
        None \<Rightarrow> (w, Response 400 (ErrorBody TaskIdRequired))
      | Some i \<Rightarrow>
          if trim_space i = '''' then (w, Response 400 (ErrorBody TaskIdRequired))
          else
            (case sched_trigger_now w i (w_now w) of
               (w1, Some e) \<Rightarrow> (w1, Response 409 (ErrorBody (SchedError e)))
             | (w1, None) \<Rightarrow> (audit_action he w1 ''trigger'' i, Response 200 (IdBody ''triggered'' i))))"

definition api_cancel :: "handler_env \<Rightarrow> wiring \<Rightarrow> string option \<Rightarrow> wiring \<times> response" where
  "api_cancel he w decoded =
     (case decoded of
        None \<Rightarrow> (w, Response 400 (ErrorBody TaskIdRequired))
      | Some i \<Rightarrow>
          if trim_space i = '''' then (w, Response 400 (ErrorBody TaskIdRequired))
          else
            (case sched_cancel w i of
               (w1, Some e) \<Rightarrow> (w1, Response 409 (ErrorBody (SchedError e)))
             | (w1, None) \<Rightarrow> (audit_action he w1 ''cancel'' i, Response 200 (IdBody ''canceled'' i))))"

text \<open>The request of \<open>UpdateCron\<close> is an id and an expression.\<close>

definition api_update_cron :: "handler_env \<Rightarrow> wiring \<Rightarrow> (string \<times> string) option \<Rightarrow> wiring \<times> response" where
  "api_update_cron he w decoded =
     (case decoded of
        None \<Rightarrow> (w, Response 400 (ErrorBody TaskIdRequired))
      | Some (i, expr) \<Rightarrow>
          if trim_space i = '''' then (w, Response 400 (ErrorBody TaskIdRequired))
          else
            (case cron_parse expr of
               Inl e \<Rightarrow> (w, Response 400 (ErrorBody (CronError e)))
             | Inr sch \<Rightarrow>
                 (case store_get (w_store w) i of
                    Inl e \<Rightarrow> (w, Response 404 (ErrorBody (SchedError (StoreError e))))
                  | Inr t0 \<Rightarrow>
                      if kind (trigger t0) \<noteq> ''cron'' then (w, Response 400 (ErrorBody NotCronScheduled))
                      else
                        let t = t0\<lparr>trigger := (trigger t0)\<lparr>cron_expr := expr\<rparr>,
                                   next_run_at := cron_next (w_loc w) sch (w_now w)\<rparr>
                        in (case store_save (w_store w) (w_now w) t of
                              Inl e \<Rightarrow> (w, Response 409 (ErrorBody (SchedError (StoreError e))))
                            | Inr s \<Rightarrow>
                                (audit_action he (sched_refresh_cron (w\<lparr>w_store := s\<rparr>) t) ''update-cron'' (task_id t),
                                 Response 200 (TaskBody t))))))"

definition path_id :: "string \<Rightarrow> string \<Rightarrow> string option" where
  "path_id prefix path =
     (let i = trim_prefix path prefix in
      if i = '''' \<or> CHR ''/'' \<in> set i then None else Some i)"

definition api_get_task :: "wiring \<Rightarrow> string \<Rightarrow> response" where
  "api_get_task w path =
     (case path_id ''/api/tasks/'' path of
        None \<Rightarrow> Response 400 (ErrorBody InvalidTaskId)
      | Some i \<Rightarrow>
          (case store_get (w_store w) i of
             Inl e \<Rightarrow> Response 404 (ErrorBody (SchedError (StoreError e)))
           | Inr t \<Rightarrow> Response 200 (TaskBody t)))"

text \<open>\<open>ListTasks\<close>; \<open>None\<close> is a panic of \<open>List\<close>.\<close>

definition api_list_tasks :: "wiring \<Rightarrow> string list \<Rightarrow> response option" where
  "api_list_tasks w its = map_option (\<lambda>ts. Response 200 (TasksBody ts)) (store_list (w_store w) its 1000 0)"

definition api_get_records :: "wiring \<Rightarrow> string \<Rightarrow> response" where
  "api_get_records w path =
     (case path_id ''/api/tasks/records/'' path of
        None \<Rightarrow> Response 400 (ErrorBody InvalidTaskId)
      | Some i \<Rightarrow> Response 200 (RecordsBody (records_list (w_records w) i)))"

section \<open>The code: workers\<close>

definition api_register_worker :: "handler_env \<Rightarrow> wiring \<Rightarrow> (string \<times> string) option \<Rightarrow> wiring \<times> response" where
  "api_register_worker he w decoded =
     (case decoded of
        None \<Rightarrow> (w, Response 400 (ErrorBody WorkerIdRequired))
      | Some (i, address) \<Rightarrow>
          if trim_space i = '''' then (w, Response 400 (ErrorBody WorkerIdRequired))
          else
            (case registry_register (w_registry w) (w_now w)
                    (Some \<lparr>node_id = i, node_address = address, last_heartbeat = zero_time,
                           registered_at = zero_time, generation = 0\<rparr>) of
               Inl e \<Rightarrow> (w, Response 400 (ErrorBody (SchedError (WorkerError e))))
             | Inr r \<Rightarrow>
                 (audit_action he (w\<lparr>w_registry := r\<rparr>) ''worker-register'' i,
                  Response 200 (IdBody ''registered'' i))))"

definition renew_all :: "string \<Rightarrow> instant \<Rightarrow> wiring \<Rightarrow> lease \<Rightarrow> wiring" where
  "renew_all worker now w l = fst (lease_renew w (lease_id l) worker now)"

definition api_heartbeat :: "wiring \<Rightarrow> string list \<Rightarrow> string option \<Rightarrow> wiring \<times> response" where
  "api_heartbeat w its decoded =
     (case decoded of
        None \<Rightarrow> (w, Response 400 (ErrorBody WorkerIdRequired))
      | Some i \<Rightarrow>
          if trim_space i = '''' then (w, Response 400 (ErrorBody WorkerIdRequired))
          else
            (case registry_heartbeat (w_registry w) i (w_now w) of
               Inl e \<Rightarrow> (w, Response 404 (ErrorBody (SchedError (WorkerError e))))
             | Inr r \<Rightarrow>
                 (let w1 = w\<lparr>w_registry := r\<rparr>
                  in (foldl (renew_all i (w_now w)) w1 (lease_by_worker w1 its i), Response 200 OkBody))))"

definition api_list_workers :: "wiring \<Rightarrow> string list \<Rightarrow> response" where
  "api_list_workers w its = Response 200 (WorkersBody (registry_list (w_registry w) its))"

section \<open>The code: snapshots and records\<close>

definition api_snapshot ::
  "(snapshot \<Rightarrow> byte list option) \<Rightarrow> (byte list \<Rightarrow> bool) \<Rightarrow> wiring \<Rightarrow> string list \<Rightarrow> response option" where
  "api_snapshot encode accepts w its =
     map_option (\<lambda>r. case r of
         Inl e \<Rightarrow> Response 500 (ErrorBody (SnapshotError e))
       | Inr checksum \<Rightarrow> Response 200 (SnapshotBody checksum))
       (store_export encode accepts (w_store w) (w_records w) its)"

definition api_restore :: "wiring \<Rightarrow> string \<Rightarrow> snapshot option \<Rightarrow> wiring \<times> response" where
  "api_restore w stamp decoded =
     (case store_import (w_store w) (w_records w) (\<lambda>_. w_now w) stamp decoded of
        (s, r, Some e) \<Rightarrow> (w\<lparr>w_store := s, w_records := r\<rparr>, Response 400 (ErrorBody (SnapshotError e)))
      | (s, r, None) \<Rightarrow> (w\<lparr>w_store := s, w_records := r\<rparr>, Response 200 OkBody))"

definition api_purge_records ::
  "(string \<Rightarrow> instant option) \<Rightarrow> (instant \<Rightarrow> string) \<Rightarrow> handler_env \<Rightarrow> wiring \<Rightarrow> string list \<Rightarrow> string option \<Rightarrow> wiring \<times> response" where
  "api_purge_records parse_time format_time he w its decoded =
     (case decoded of
        None \<Rightarrow> (w, Response 400 (ErrorBody BadBody))
      | Some before \<Rightarrow>
          (case parse_time before of
             None \<Rightarrow> (w, Response 400 (ErrorBody BadTime))
           | Some cutoff \<Rightarrow>
               (let (r, removed) = records_purge_before (w_records w) its cutoff
                in (audit_action he (w\<lparr>w_records := r\<rparr>) ''purge-records'' (format_time cutoff),
                    Response 200 (CountBody ''removed'' removed)))))"

end
