(* ===== verification/Moves.thy ===== *)
theory Moves
  imports Api
begin

text \<open>
  The small moves that every operation of the scheduler stack is made of, and the invariant
  of the stack. A move is what one operation does to one task, its queues and its lease;
  the invariant is proved once per move (here), the operations are decomposed into moves
  once (\<open>Runs\<close>), and every system property is a property of moves.

  Between taking due entries out of the delayed queue and handing them to the ready queue,
  a tick holds ready tasks in neither queue: a move carries the set \<open>H\<close> of ids in hand.
\<close>

section \<open>Changing one task\<close>

definition put_task :: "'r stack \<Rightarrow> string \<Rightarrow> task \<Rightarrow> 'r stack" where
  "put_task w i t = w\<lparr>w_store := (w_store w)\<lparr>ts_tasks := (tasks_of w)(i \<mapsto> t)\<rparr>\<rparr>"

definition put_reindexed :: "'r stack \<Rightarrow> string \<Rightarrow> task \<Rightarrow> 'r stack" where
  "put_reindexed w i t =
     w\<lparr>w_store := (w_store w)\<lparr>ts_tasks := (tasks_of w)(i \<mapsto> t), ts_by_time := reindex_time (ts_by_time (w_store w)) t\<rparr>\<rparr>"

definition moved :: "task \<Rightarrow> task_state \<Rightarrow> instant \<Rightarrow> task" where
  "moved t to at = t\<lparr>state := to, version := version t + 1, updated_at := at\<rparr>"

lemma moved_simps [simp]:
  "task_id (moved t to at) = task_id t" "task_name (moved t to at) = task_name t"
  "state (moved t to at) = to" "version (moved t to at) = version t + 1"
  "next_run_at (moved t to at) = next_run_at t" "retries_left (moved t to at) = retries_left t"
  "max_retries (moved t to at) = max_retries t" "trigger (moved t to at) = trigger t"
  "priority (moved t to at) = priority t"
  by (simp_all add: moved_def)

lemma put_simps [simp]:
  "tasks_of (put_task w i t) = (tasks_of w)(i \<mapsto> t)" "tasks_of (put_reindexed w i t) = (tasks_of w)(i \<mapsto> t)"
  "w_ready (put_task w i t) = w_ready w" "w_ready (put_reindexed w i t) = w_ready w"
  "w_delayed (put_task w i t) = w_delayed w" "w_delayed (put_reindexed w i t) = w_delayed w"
  "w_next_fire (put_task w i t) = w_next_fire w" "w_next_fire (put_reindexed w i t) = w_next_fire w"
  "w_leases (put_task w i t) = w_leases w" "w_leases (put_reindexed w i t) = w_leases w"
  "w_records (put_task w i t) = w_records w" "w_records (put_reindexed w i t) = w_records w"
  "w_seq (put_task w i t) = w_seq w" "w_seq (put_reindexed w i t) = w_seq w"
  "w_registry (put_task w i t) = w_registry w" "w_now (put_task w i t) = w_now w" "w_ttl (put_task w i t) = w_ttl w"
  "w_metrics (put_task w i t) = w_metrics w" "w_registry (put_reindexed w i t) = w_registry w"
  by (simp_all add: put_task_def put_reindexed_def)

lemma push_ready_simps [simp]:
  "w_store (push_ready w i p at) = w_store w" "w_delayed (push_ready w i p at) = w_delayed w"
  "w_next_fire (push_ready w i p at) = w_next_fire w" "w_leases (push_ready w i p at) = w_leases w"
  "w_records (push_ready w i p at) = w_records w" "w_seq (push_ready w i p at) = w_seq w"
  "w_registry (push_ready w i p at) = w_registry w" "w_now (push_ready w i p at) = w_now w"
  "w_metrics (push_ready w i p at) = w_metrics w"
  "w_ready (push_ready w i p at) = fst (ready_push (w_ready w) i p at)"
  by (simp_all add: push_ready_def)

section \<open>The moves\<close>

text \<open>What no property of tasks looks at: clock, counters, roster, audit log and settings.\<close>

definition same_core :: "'r stack \<Rightarrow> 'r stack \<Rightarrow> bool" where
  "same_core w w' \<longleftrightarrow> w_store w' = w_store w \<and> w_records w' = w_records w \<and> w_ready w' = w_ready w \<and>
     w_delayed w' = w_delayed w \<and> w_next_fire w' = w_next_fire w \<and> w_leases w' = w_leases w \<and> w_seq w' = w_seq w"

definition has_state :: "'r stack \<Rightarrow> string \<Rightarrow> task_state \<Rightarrow> bool" where
  "has_state w i st \<longleftrightarrow> (case tasks_of w i of None \<Rightarrow> False | Some t \<Rightarrow> state t = st)"

definition unleased :: "'r stack \<Rightarrow> string \<Rightarrow> bool" where
  "unleased w i \<longleftrightarrow> lt_by_task (w_leases w) i = None \<and> (\<forall>l \<in> ran (lt_leases (w_leases w)). lease_task_id l \<noteq> i)"

text \<open>The lease \<open>k\<close> of task \<open>i\<close> is current and was given for the task's present version.\<close>

definition holds_lease :: "'r stack \<Rightarrow> string \<Rightarrow> string \<Rightarrow> bool" where
  "holds_lease w i k \<longleftrightarrow>
     (case lease_current w i of
        None \<Rightarrow> False
      | Some l \<Rightarrow> lease_id l = k \<and> (case tasks_of w i of None \<Rightarrow> False | Some t \<Rightarrow> lease_task_version l = version t))"

definition drop_lease :: "'r stack \<Rightarrow> string \<Rightarrow> string \<Rightarrow> 'r stack" where
  "drop_lease w k i = w\<lparr>w_leases := lease_delete (w_leases w) k i\<rparr>"

definition add_record :: "'r stack \<Rightarrow> string \<Rightarrow> execution_record \<Rightarrow> 'r stack" where
  "add_record w stamp rec = w\<lparr>w_records := records_append (w_records w) stamp rec\<rparr>"

text \<open>An identifier that the generator has given out.\<close>

definition issued :: "uint64 \<Rightarrow> string \<Rightarrow> string \<Rightarrow> bool" where
  "issued seq prefix i \<longleftrightarrow> (\<exists>n x. n < unat seq \<and> i = snd (id_next (of_nat n) prefix x))"

text \<open>
  \<open>fl\<close> bounds what an operation may do: its flag allows the requeueing of a leased task, which
  only the reaper does; the tasks in its set may not be deleted. Only the rollback of a batch
  deletes, and only tasks that it saved itself.
\<close>

inductive move :: "bool \<times> string set \<Rightarrow> string set \<times> 'r stack \<Rightarrow> string set \<times> 'r stack \<Rightarrow> bool" for fl where
  mv_frame: "same_core w w' \<Longrightarrow> move fl (H, w) (H, w')"
| mv_seq: "unat (w_seq w) + 1 < 2 ^ 64 \<Longrightarrow> move fl (H, w) (H, w\<lparr>w_seq := w_seq w + 1\<rparr>)"
| mv_fire: "\<not> has_state w i StatePending \<Longrightarrow> move fl (H, w) (H, w\<lparr>w_next_fire := (w_next_fire w)(i := at)\<rparr>)"
| mv_mark: "tasks_of w i = Some t \<Longrightarrow> state t = StatePending \<Longrightarrow>
     move fl (H, w) (H, push_ready (put_task w i (moved t StateReady now)) i p at)"
| mv_reschedule: "tasks_of w i = Some t \<Longrightarrow> state t = StateReady \<Longrightarrow>
     move fl (H, w) (H, put_reindexed w i (t\<lparr>next_run_at := nxt, updated_at := now\<rparr>))"
| mv_pop_due: "delayed_pop_due (w_delayed w) at = (q, es) \<Longrightarrow>
     move fl (H, w) (H \<union> de_task_id ` set es, w\<lparr>w_delayed := q\<rparr>)"
| mv_hand: "has_state w i StateReady \<Longrightarrow> H - {i} \<subseteq> H' \<Longrightarrow> move fl (H, w) (H', push_ready w i p at)"
| mv_drop: "\<not> has_state w i StateReady \<Longrightarrow> H - {i} \<subseteq> H' \<Longrightarrow> move fl (H, w) (H', w)"
| mv_pop_stale: "ready_pop (w_ready w) = (q, Some e) \<Longrightarrow> \<not> has_state w (re_task_id e) StateReady \<Longrightarrow>
     move fl (H, w) (H, w\<lparr>w_ready := q\<rparr>)"
| mv_bounce: "ready_pop (w_ready w) = (q, Some e) \<Longrightarrow> i = re_task_id e \<Longrightarrow> tasks_of w i = Some t \<Longrightarrow> state t = StateReady \<Longrightarrow>
     move fl (H, w) (H, push_ready (put_task (w\<lparr>w_ready := q\<rparr>) i (moved (moved t StateLeased now) StateReady now)) i p at)"
| mv_lease: "ready_pop (w_ready w) = (q, Some e) \<Longrightarrow> i = re_task_id e \<Longrightarrow> tasks_of w i = Some t \<Longrightarrow> state t = StateReady \<Longrightarrow>
     unat (w_seq w) + 1 < 2 ^ 64 \<Longrightarrow> id_next (w_seq w) ''lease'' nano = (seq, k) \<Longrightarrow>
     lease_id l = k \<Longrightarrow> lease_task_id l = i \<Longrightarrow> lease_task_version l = version t + 1 \<Longrightarrow>
     move fl (H, w) (H, (put_task (w\<lparr>w_ready := q\<rparr>) i (moved t StateLeased now))
                       \<lparr>w_seq := seq, w_leases := lease_insert (w_leases w) l\<rparr>)"
| mv_renew: "lt_leases (w_leases w) k = Some l \<Longrightarrow>
     move fl (H, w) (H, w\<lparr>w_leases := (w_leases w)\<lparr>lt_leases := (lt_leases (w_leases w))(k \<mapsto> l\<lparr>lease_deadline := at\<rparr>)\<rparr>\<rparr>)"
| mv_unlease: "lt_leases (w_leases w) k = Some l \<Longrightarrow> move fl (H, w) (H, drop_lease w k (lease_task_id l))"
| mv_requeue: "tasks_of w i = Some t \<Longrightarrow> state t = StateLeased \<Longrightarrow> unleased w i \<Longrightarrow> fst fl \<Longrightarrow>
     move fl (H, w) (H, push_ready (put_task w i (moved t StateReady now)) i p at)"
| mv_succeed: "tasks_of w i = Some t \<Longrightarrow> state t = StateLeased \<Longrightarrow> holds_lease w i k \<Longrightarrow>
     rec_task_id rec = i \<Longrightarrow> rec_status rec = ''success'' \<Longrightarrow>
     move fl (H, w) (H, drop_lease (put_task (add_record w stamp rec) i (moved t StateSucceeded now)) k i)"
| mv_retry: "tasks_of w i = Some t \<Longrightarrow> state t = StateLeased \<Longrightarrow> holds_lease w i k \<Longrightarrow>
     rec_task_id rec = i \<Longrightarrow> rec_status rec \<noteq> ''success'' \<Longrightarrow> 0 < retries_left t \<Longrightarrow>
     move fl (H, w) (H, drop_lease (sched_schedule_retry
       (put_reindexed (add_record w stamp rec) i ((moved t StateReady now)
          \<lparr>retries_left := retries_left t - 1, next_run_at := nxt, last_attempt_at := now\<rparr>)) i nxt p at) k i)"
| mv_die: "tasks_of w i = Some t \<Longrightarrow> state t = StateLeased \<Longrightarrow> holds_lease w i k \<Longrightarrow>
     rec_task_id rec = i \<Longrightarrow> rec_status rec \<noteq> ''success'' \<Longrightarrow> retries_left t \<le> 0 \<Longrightarrow>
     move fl (H, w) (H, drop_lease (put_task (add_record w stamp rec) i (moved t StateDead now)) k i)"
| mv_cancel: "tasks_of w i = Some t \<Longrightarrow> \<not> terminal (state t) \<Longrightarrow>
     move fl (H, w) (H, (put_task w i (moved t StateCanceled now))
       \<lparr>w_ready := fst (ready_remove (w_ready w) i), w_delayed := fst (delayed_remove (w_delayed w) i),
        w_next_fire := (w_next_fire w)(i := None)\<rparr>)"
| mv_register: "issued (w_seq w) ''task'' (task_id t) \<Longrightarrow> tasks_of w (task_id t) = None \<Longrightarrow>
     state t = StatePending \<Longrightarrow> retries_left t = max_retries t \<Longrightarrow> store_save (w_store w) now t = Inr s \<Longrightarrow>
     move fl (H, w) (H, sched_track (w\<lparr>w_store := s\<rparr>) t)"
| mv_unregister: "tasks_of w i = Some t \<Longrightarrow> state t = StatePending \<Longrightarrow> retries_left t = max_retries t \<Longrightarrow>
     store_delete (w_store w) i = Inr s \<Longrightarrow> i \<notin> snd fl \<Longrightarrow> move fl (H, w) (H, w\<lparr>w_store := s\<rparr>)"
| mv_update_cron: "tasks_of w i = Some t0 \<Longrightarrow> t = t0\<lparr>trigger := tr, next_run_at := nxt\<rparr> \<Longrightarrow> store_save (w_store w) now t = Inr s \<Longrightarrow>
     move fl (H, w) (H, sched_track (w\<lparr>w_store := s\<rparr>) t)"
| mv_purge: "(\<And>i. \<exists>P. records_of rs i = filter P (records_of (w_records w) i)) \<Longrightarrow> move fl (H, w) (H, w\<lparr>w_records := rs\<rparr>)"

section \<open>The invariant\<close>

text \<open>The ready queue holds only ready tasks, and a ready task is in a queue or in hand.\<close>

definition queues_ok :: "string set \<Rightarrow> 'r stack \<Rightarrow> bool" where
  "queues_ok H w \<longleftrightarrow>
     ready_inv (w_ready w) \<and> delayed_inv (w_delayed w) \<and>
     (\<forall>i \<in> ready_queued (w_ready w). has_state w i StateReady) \<and>
     (\<forall>i. has_state w i StateReady \<longrightarrow> i \<in> ready_queued (w_ready w) \<or> i \<in> delayed_queued (w_delayed w) \<or> i \<in> H)"

text \<open>A pending task's fire time is indexed.\<close>

definition tracked_ok :: "'r stack \<Rightarrow> bool" where
  "tracked_ok w \<longleftrightarrow> (\<forall>i t. tasks_of w i = Some t \<longrightarrow> state t = StatePending \<longrightarrow> w_next_fire w i = Some (next_run_at t))"

text \<open>
  The two maps of the lease table agree, so a task has at most one lease; a lease's task is
  leased, or canceled since, and a lease for the task's present version means it is leased.
\<close>

definition lease_fits :: "task \<Rightarrow> lease \<Rightarrow> bool" where
  "lease_fits t l \<longleftrightarrow> lease_task_version l \<le> version t \<and> (state t = StateLeased \<or> state t = StateCanceled) \<and>
     (lease_task_version l = version t \<longrightarrow> state t = StateLeased)"

definition leases_ok :: "'r stack \<Rightarrow> bool" where
  "leases_ok w \<longleftrightarrow>
     (\<forall>k l. lt_leases (w_leases w) k = Some l \<longrightarrow> lease_id l = k \<and> lt_by_task (w_leases w) (lease_task_id l) = Some k \<and>
        (\<exists>t. tasks_of w (lease_task_id l) = Some t \<and> lease_fits t l)) \<and>
     (\<forall>i k. lt_by_task (w_leases w) i = Some k \<longrightarrow> (\<exists>l. lt_leases (w_leases w) k = Some l \<and> lease_task_id l = i))"

text \<open>Every identifier in use came from the generator and was counted by it.\<close>

definition ids_ok :: "'r stack \<Rightarrow> bool" where
  "ids_ok w \<longleftrightarrow> (\<forall>i \<in> dom (tasks_of w). issued (w_seq w) ''task'' i) \<and>
     (\<forall>k \<in> dom (lt_leases (w_leases w)). issued (w_seq w) ''lease'' k)"

text \<open>
  Each recorded failure has used up a retry, but the last; a success is recorded at most
  once, and only for a task that succeeded.
\<close>

definition successes :: "execution_record list \<Rightarrow> nat" where
  "successes rs = length (filter (\<lambda>r. rec_status r = ''success'') rs)"

definition budget :: "task option \<Rightarrow> int" where
  "budget mt =
     (case mt of None \<Rightarrow> 0
      | Some t \<Rightarrow> max_retries t - retries_left t + (if state t = StateSucceeded \<or> state t = StateDead then 1 else 0))"

definition records_ok :: "'r stack \<Rightarrow> bool" where
  "records_ok w \<longleftrightarrow>
     (\<forall>i. int (length (records_of (w_records w) i)) \<le> budget (tasks_of w i) \<and>
          successes (records_of (w_records w) i) \<le> (if has_state w i StateSucceeded then 1 else 0)) \<and>
     (\<forall>i t. tasks_of w i = Some t \<longrightarrow> 0 \<le> retries_left t \<or> retries_left t = max_retries t)"

definition stack_inv_with :: "string set \<Rightarrow> 'r stack \<Rightarrow> bool" where
  "stack_inv_with H w \<longleftrightarrow> store_inv (w_store w) \<and> queues_ok H w \<and> tracked_ok w \<and> leases_ok w \<and> ids_ok w \<and> records_ok w"

section \<open>The moves keep the invariant\<close>

lemma misc_simps [simp]:
  "w_store (drop_lease w k i) = w_store w" "w_store (add_record w st r) = w_store w"
  "w_ready (drop_lease w k i) = w_ready w" "w_ready (add_record w st r) = w_ready w"
  "w_delayed (drop_lease w k i) = w_delayed w" "w_delayed (add_record w st r) = w_delayed w"
  "w_next_fire (drop_lease w k i) = w_next_fire w" "w_next_fire (add_record w st r) = w_next_fire w"
  "w_records (drop_lease w k i) = w_records w" "w_leases (add_record w st r) = w_leases w"
  "w_seq (drop_lease w k i) = w_seq w" "w_seq (add_record w st r) = w_seq w"
  "w_leases (drop_lease w k i) = lease_delete (w_leases w) k i"
  "w_records (add_record w st r) = records_append (w_records w) st r"
  "w_registry (drop_lease w k i) = w_registry w" "w_now (add_record w st r) = w_now w"
  "w_retry_delay (add_record w st r) = w_retry_delay w"
  by (simp_all add: drop_lease_def add_record_def)

lemma sched_simps [simp]:
  "w_store (sched_track w t) = w_store w" "w_ready (sched_track w t) = w_ready w"
  "w_delayed (sched_track w t) = w_delayed w" "w_leases (sched_track w t) = w_leases w"
  "w_records (sched_track w t) = w_records w" "w_seq (sched_track w t) = w_seq w"
  "w_next_fire (sched_track w t) = (w_next_fire w)(task_id t \<mapsto> next_run_at t)"
  "w_store (sched_schedule_retry w i at p now) = w_store w" "w_ready (sched_schedule_retry w i at p now) = w_ready w"
  "w_leases (sched_schedule_retry w i at p now) = w_leases w" "w_records (sched_schedule_retry w i at p now) = w_records w"
  "w_seq (sched_schedule_retry w i at p now) = w_seq w" "w_next_fire (sched_schedule_retry w i at p now) = w_next_fire w"
  "w_delayed (sched_schedule_retry w i at p now) = fst (delayed_push (w_delayed w)
     \<lparr>de_task_id = i, de_next_run_at = at, de_priority = p, de_enqueued_at = now, de_index = 0\<rparr>)"
  "w_registry (sched_schedule_retry w i at p now) = w_registry w"
  "w_registry (sched_track w t) = w_registry w" "w_now (sched_track w t) = w_now w"
  "w_now (sched_schedule_retry w i at p now) = w_now w"
  by (simp_all add: sched_track_def sched_schedule_retry_def)

subsection \<open>The store\<close>

lemma store_inv_put_task [simp]:
  assumes "store_inv (w_store w)"
    and "case tasks_of w i of None \<Rightarrow> False
         | Some t \<Rightarrow> task_id t' = task_id t \<and> task_name t' = task_name t \<and> next_run_at t' = next_run_at t \<and>
             (state t' = StatePending \<longrightarrow> state t = StatePending)"
  shows "store_inv (w_store (put_task w i t'))"
proof -
  obtain t where "tasks_of w i = Some t" using assms(2) by (cases "tasks_of w i") auto
  with assms store_inv_put [of "w_store w" i t t'] show ?thesis by (simp add: put_task_def)
qed

lemma store_inv_put_reindexed [simp]:
  assumes "store_inv (w_store w)"
    and "case tasks_of w i of None \<Rightarrow> False | Some t \<Rightarrow> task_id t' = task_id t \<and> task_name t' = task_name t"
  shows "store_inv (w_store (put_reindexed w i t'))"
proof -
  obtain t where "tasks_of w i = Some t" using assms(2) by (cases "tasks_of w i") auto
  with assms store_inv_reindexed [of "w_store w" i t t'] show ?thesis by (simp add: put_reindexed_def)
qed

lemma move_store_inv: "move fl x y \<Longrightarrow> store_inv (w_store (snd x)) \<Longrightarrow> store_inv (w_store (snd y))"
proof (induction rule: move.induct)
  case (mv_update_cron w i t0 t tr nxt now s H)
  then have "task_id t0 = i" using store_invD(1) [of "w_store w" i t0] by simp
  with mv_update_cron store_save_inv [of "w_store w" now t s] show ?case by simp
next
  case (mv_register w t now s H)
  with store_save_inv [of "w_store w" now t s] show ?case by simp
next
  case (mv_unregister w i t s H)
  with store_delete_inv [of "w_store w" i s] show ?case by simp
qed (simp_all add: same_core_def)

subsection \<open>The queues\<close>

lemma has_state_put [simp]:
  "has_state (put_task w i t) j st \<longleftrightarrow> (if j = i then state t = st else has_state w j st)"
  "has_state (put_reindexed w i t) j st \<longleftrightarrow> (if j = i then state t = st else has_state w j st)"
  by (simp_all add: has_state_def)

lemma has_state_other [simp]:
  "has_state (push_ready w i p at) = has_state w" "has_state (drop_lease w k i) = has_state w"
  "has_state (add_record w st rec) = has_state w" "has_state (sched_track w t) = has_state w"
  "has_state (sched_schedule_retry w i at p now) = has_state w"
  "has_state (w\<lparr>w_ready := q\<rparr>) = has_state w" "has_state (w\<lparr>w_delayed := dq\<rparr>) = has_state w"
  "has_state (w\<lparr>w_next_fire := f\<rparr>) = has_state w" "has_state (w\<lparr>w_leases := lt\<rparr>) = has_state w"
  "has_state (w\<lparr>w_seq := g\<rparr>) = has_state w" "has_state (w\<lparr>w_records := r\<rparr>) = has_state w"
  by (auto simp: has_state_def fun_eq_iff)

lemma has_state_is [simp]: "tasks_of w i = Some t \<Longrightarrow> has_state w i st \<longleftrightarrow> state t = st"
  by (simp add: has_state_def)

lemma popped_ready:
  assumes "ready_pop q = (q', Some e)" and "ready_inv q"
  shows "ready_inv q'" and "re_task_id e \<in> ready_queued q" and "ready_queued q' = ready_queued q - {re_task_id e}"
  using rq.inv_pop [OF assms(2)] rq.pop_Some [OF assms(2), of e] assms(1) by simp_all

lemma popped_due:
  assumes "delayed_pop_due q at = (q', es)" and "delayed_inv q"
  shows "delayed_inv q'" and "delayed_queued q' = delayed_queued q - de_task_id ` set es"
  using dq.inv_pop_due [OF assms(2), of at] dq.queued_pop_due [OF assms(2), of at] assms(1) by simp_all

lemmas queue_facts =
  rq.inv_push rq.queued_push rq.inv_remove rq.queued_remove dq.inv_push dq.queued_push dq.inv_remove dq.queued_remove

lemma queues_okI:
  "ready_inv (w_ready w) \<Longrightarrow> delayed_inv (w_delayed w) \<Longrightarrow>
   (\<And>i. i \<in> ready_queued (w_ready w) \<Longrightarrow> has_state w i StateReady) \<Longrightarrow>
   (\<And>i. has_state w i StateReady \<Longrightarrow> i \<notin> ready_queued (w_ready w) \<Longrightarrow> i \<notin> delayed_queued (w_delayed w) \<Longrightarrow> i \<in> H) \<Longrightarrow>
   queues_ok H w"
  by (auto simp: queues_ok_def)

lemma queues_okD:
  assumes "queues_ok H w"
  shows "ready_inv (w_ready w)" and "delayed_inv (w_delayed w)"
    and "i \<in> ready_queued (w_ready w) \<Longrightarrow> has_state w i StateReady"
    and "has_state w i StateReady \<Longrightarrow> i \<notin> ready_queued (w_ready w) \<Longrightarrow> i \<notin> delayed_queued (w_delayed w) \<Longrightarrow> i \<in> H"
  using assms by (auto simp: queues_ok_def)

lemma saved_new_tasks:
  "store_save s now t = Inr s' \<Longrightarrow> ts_tasks s (task_id t) = None \<Longrightarrow>
   ts_tasks s' = (ts_tasks s)(task_id t \<mapsto> t\<lparr>version := 1, created_at := now, updated_at := now\<rparr>)"
  by (simp add: store_save_new Let_def)

lemma cron_saved_tasks:
  assumes "store_inv s" and "ts_tasks s i = Some t0" and "store_save s now (t0\<lparr>trigger := tr, next_run_at := nxt\<rparr>) = Inr s'"
  shows "ts_tasks s' = (ts_tasks s)(i \<mapsto> t0\<lparr>version := version t0 + 1, trigger := tr, next_run_at := nxt, updated_at := now\<rparr>)"
    and "task_id t0 = i"
  using assms store_invD(1) [OF assms(1,2)] by (auto simp: store_save_over saved_over_def)

lemma deleted_tasks: "store_delete s i = Inr s' \<Longrightarrow> ts_tasks s' = (ts_tasks s)(i := None)"
  by (auto simp: store_results)

lemma move_queues_ok:
  assumes "move fl (H, w) (H', w')" and inv: "store_inv (w_store w)" and ok: "queues_ok H w"
  shows "queues_ok H' w'"
proof -
  note q = queues_okD [OF ok]
  note [simp] = q(1,2) queue_facts
  have queued: "tasks_of w i = Some t \<Longrightarrow> i \<in> ready_queued (w_ready w) \<Longrightarrow> state t = StateReady" for i t
    using q(3) [of i] by simp
  from assms(1) show ?thesis
  proof cases
    case mv_frame
    with ok show ?thesis by (simp add: queues_ok_def same_core_def has_state_def)
  next
    case (mv_pop_due at dq es)
    with popped_due [OF mv_pop_due(3)] show ?thesis by (auto intro!: queues_okI q(3) dest: q(4))
  next
    case (mv_pop_stale rq e)
    with popped_ready [OF mv_pop_stale(3)] show ?thesis by (auto intro!: queues_okI intro: q(3,4))
  next
    case (mv_bounce rq e i t now p at)
    note rp = popped_ready [OF mv_bounce(3) q(1)]
    show ?thesis
    proof (rule queues_okI)
      fix j assume "j \<in> ready_queued (w_ready w')"
      then show "has_state w' j StateReady" using rp mv_bounce(2,4) q(3) [of j] by (auto simp: rq.queued_push)
    next
      fix j assume "has_state w' j StateReady" "j \<notin> ready_queued (w_ready w')" "j \<notin> delayed_queued (w_delayed w')"
      then show "j \<in> H'" using rp mv_bounce(1,2,4) q(4) [of j] by (auto simp: rq.queued_push split: if_splits)
    qed (use rp mv_bounce(2) in simp_all)
  next
    case (mv_lease rq e i t nano seq k l now)
    note rp = popped_ready [OF mv_lease(3) q(1)]
    have st: "has_state w' j StateReady \<longleftrightarrow> j \<noteq> i \<and> has_state w j StateReady" for j
      by (simp add: mv_lease(2))
    have qs: "w_ready w' = rq" "w_delayed w' = w_delayed w" by (simp_all add: mv_lease(2))
    show ?thesis
    proof (rule queues_okI)
      fix j assume "j \<in> ready_queued (w_ready w')"
      then show "has_state w' j StateReady" using rp mv_lease(4) q(3) [of j] by (simp add: st qs)
    next
      fix j assume "has_state w' j StateReady" "j \<notin> ready_queued (w_ready w')" "j \<notin> delayed_queued (w_delayed w')"
      then show "j \<in> H'" using rp mv_lease(1,4) q(4) [of j] by (simp add: st qs)
    qed (use rp in \<open>simp_all add: qs\<close>)
  next
    case (mv_hand i p at)
    with q(4) show ?thesis by (auto intro!: queues_okI intro: q(3))
  next
    case (mv_drop i)
    with q(4) show ?thesis by (auto intro!: queues_okI intro: q(3))
  next
    case (mv_register t now s)
    have st: "has_state w' i st \<longleftrightarrow> (if i = task_id t then st = StatePending else has_state w i st)" for i st
      using mv_register saved_new_tasks [OF mv_register(7,4)] by (auto simp: has_state_def)
    have "task_id t \<notin> ready_queued (w_ready w)" using q(3) [of "task_id t"] mv_register by (auto simp: has_state_def)
    with mv_register st show ?thesis by (auto intro!: queues_okI intro: q(3,4) split: if_splits)
  next
    case (mv_unregister i t s)
    have st: "has_state w' j st \<longleftrightarrow> j \<noteq> i \<and> has_state w j st" for j st
      using mv_unregister deleted_tasks [OF mv_unregister(6)] by (simp add: has_state_def)
    have "i \<notin> ready_queued (w_ready w)" using queued mv_unregister by fastforce
    with mv_unregister st show ?thesis by (auto intro!: queues_okI intro: q(3,4))
  next
    case (mv_update_cron i t0 t nxt tr now s)
    have "has_state w' j st = has_state w j st" for j st
      using mv_update_cron cron_saved_tasks [OF inv mv_update_cron(3), of now nxt tr s] by (simp add: has_state_def)
    with mv_update_cron show ?thesis by (auto intro!: queues_okI intro: q(3,4))
  next
    case (mv_requeue i t now p at)
    then have "i \<notin> ready_queued (w_ready w)" using queued [of i t] by auto
    with mv_requeue show ?thesis by (auto intro!: queues_okI intro: q(3,4) split: if_splits)
  next
    case (mv_succeed i t k rec stamp now)
    then have "i \<notin> ready_queued (w_ready w)" using queued [of i t] by auto
    with mv_succeed show ?thesis by (auto intro!: queues_okI intro: q(3,4) split: if_splits)
  next
    case (mv_retry i t k rec nxt stamp now p at)
    then have "i \<notin> ready_queued (w_ready w)" using queued [of i t] by auto
    with mv_retry show ?thesis by (auto intro!: queues_okI intro: q(3,4) split: if_splits)
  next
    case (mv_die i t k rec stamp now)
    then have "i \<notin> ready_queued (w_ready w)" using queued [of i t] by auto
    with mv_die show ?thesis by (auto intro!: queues_okI intro: q(3,4) split: if_splits)
  qed (auto intro!: queues_okI intro: q(3,4) split: if_splits)
qed

subsection \<open>Fire times\<close>

lemma move_tracked_ok:
  "move fl (H, w) (H', w') \<Longrightarrow> store_inv (w_store w) \<Longrightarrow> tracked_ok w \<Longrightarrow> tracked_ok w'"
proof (induction "(H, w)" "(H', w')" rule: move.induct)
  case mv_frame
  then show ?case by (simp add: tracked_ok_def same_core_def)
next
  case (mv_fire i at)
  then show ?case by (auto simp: tracked_ok_def has_state_def)
next
  case (mv_register t now s)
  then show ?case by (auto simp: tracked_ok_def store_save_new Let_def)
next
  case (mv_unregister i t s)
  then show ?case by (auto simp: tracked_ok_def store_results split: if_splits)
next
  case (mv_update_cron i t0 t nxt tr now s)
  have "task_id t = i" using store_invD(1) [of "w_store w" i t0] mv_update_cron by simp
  with mv_update_cron show ?case by (auto simp: tracked_ok_def store_save_over saved_over_def split: if_splits)
qed (auto simp: tracked_ok_def split: if_splits)

subsection \<open>Identifiers\<close>

lemma issued_mono: "issued seq p i \<Longrightarrow> unat seq \<le> unat seq' \<Longrightarrow> issued seq' p i"
proof -
  assume i: "issued seq p i" and le: "unat seq \<le> unat seq'"
  from i obtain n x where "n < unat seq" "i = snd (id_next (of_nat n) p x)" unfolding issued_def by blast
  with le show ?thesis unfolding issued_def by (intro exI [of _ n] exI [of _ x]) simp
qed

lemma unat_seq_next: "unat seq + 1 < 2 ^ 64 \<Longrightarrow> unat (seq + 1 :: uint64) = unat seq + 1"
  using unat_add_lem [of seq 1] by simp

lemma issued_next: "unat seq + 1 < 2 ^ 64 \<Longrightarrow> id_next seq p x = (seq', i) \<Longrightarrow> issued seq' p i"
  unfolding issued_def
  using fst_id_next [of seq p x] by (intro exI [of _ "unat seq"] exI [of _ x]) (auto simp: unat_seq_next)

lemma issued_fresh: "issued seq p i \<Longrightarrow> snd (id_next seq p x) \<noteq> i"
proof
  assume i: "issued seq p i" "snd (id_next seq p x) = i"
  then obtain n y where n: "n < unat seq" "i = snd (id_next (of_nat n) p y)" by (auto simp: issued_def)
  with i(2) have "seq = of_nat n" by (intro id_next_seq) simp
  then have "unat seq \<le> n" by (simp add: unat_of_nat)
  with n(1) show False by simp
qed

lemma issued_later: "issued seq p i \<Longrightarrow> unat seq + 1 < 2 ^ 64 \<Longrightarrow> issued (seq + 1) p i"
  by (erule issued_mono) (simp add: unat_seq_next)

lemma move_ids_ok: "move fl (H, w) (H', w') \<Longrightarrow> store_inv (w_store w) \<Longrightarrow> ids_ok w \<Longrightarrow> ids_ok w'"
proof (induction "(H, w)" "(H', w')" rule: move.induct)
  case mv_frame
  then show ?case by (simp add: ids_ok_def same_core_def)
next
  case mv_seq
  note up = issued_later [OF _ mv_seq(1)]
  from mv_seq show ?case by (auto simp: ids_ok_def intro!: up)
next
  case (mv_lease q e i t nano seq k l now)
  then have "seq = w_seq w + 1" using fst_id_next [of "w_seq w" "''lease''" nano] by simp
  moreover note up = issued_later [OF _ mv_lease(5)]
  ultimately show ?case using mv_lease issued_next [OF mv_lease(5,6)]
    by (auto simp: ids_ok_def lease_insert_def intro!: up split: if_splits)
next
  case (mv_register t now s)
  then show ?case by (auto simp: ids_ok_def store_save_new Let_def split: if_splits)
next
  case (mv_unregister i t s)
  then show ?case by (auto simp: ids_ok_def store_results split: if_splits)
next
  case (mv_update_cron i t0 t nxt tr now s)
  have "task_id t = i" using store_invD(1) [of "w_store w" i t0] mv_update_cron by simp
  with mv_update_cron show ?case by (auto simp: ids_ok_def store_save_over split: if_splits)
qed (auto simp: ids_ok_def lease_delete_def split: if_splits)

subsection \<open>Leases\<close>

lemma leases_okI:
  "(\<And>k l. lt_leases (w_leases w) k = Some l \<Longrightarrow> lease_id l = k) \<Longrightarrow>
   (\<And>k l. lt_leases (w_leases w) k = Some l \<Longrightarrow> lt_by_task (w_leases w) (lease_task_id l) = Some k) \<Longrightarrow>
   (\<And>k l. lt_leases (w_leases w) k = Some l \<Longrightarrow> \<exists>t. tasks_of w (lease_task_id l) = Some t \<and> lease_fits t l) \<Longrightarrow>
   (\<And>i k. lt_by_task (w_leases w) i = Some k \<Longrightarrow> \<exists>l. lt_leases (w_leases w) k = Some l \<and> lease_task_id l = i) \<Longrightarrow>
   leases_ok w"
  by (simp add: leases_ok_def)

lemma leases_okD:
  assumes "leases_ok w"
  shows "lt_leases (w_leases w) k = Some l \<Longrightarrow> lease_id l = k"
    and "lt_leases (w_leases w) k = Some l \<Longrightarrow> lt_by_task (w_leases w) (lease_task_id l) = Some k"
    and "lt_leases (w_leases w) k = Some l \<Longrightarrow> \<exists>t. tasks_of w (lease_task_id l) = Some t \<and> lease_fits t l"
    and "lt_by_task (w_leases w) i = Some k \<Longrightarrow> \<exists>l. lt_leases (w_leases w) k = Some l \<and> lease_task_id l = i"
  using assms unfolding leases_ok_def by blast+

text \<open>A task that is neither leased nor canceled has no lease.\<close>

lemma leases_ok_unleased:
  assumes "leases_ok w" and "\<And>t. tasks_of w i = Some t \<Longrightarrow> state t \<noteq> StateLeased \<and> state t \<noteq> StateCanceled"
  shows "unleased w i"
proof -
  have none: "lease_task_id l \<noteq> i" if "lt_leases (w_leases w) k = Some l" for k l
    using leases_okD(3) [OF assms(1) that] assms(2) by (auto simp: lease_fits_def)
  have "lt_by_task (w_leases w) i = None"
  proof (cases "lt_by_task (w_leases w) i")
    case (Some k)
    with leases_okD(4) [OF assms(1) Some] none show ?thesis by auto
  qed
  with none show ?thesis by (auto simp: unleased_def ran_def)
qed

text \<open>A change of one task that no lease fits any more, or that leaves fitting leases fitting.\<close>

lemma leases_ok_upd:
  assumes ok: "leases_ok w" and same: "w_leases w' = w_leases w" and tasks: "tasks_of w' = (tasks_of w)(i \<mapsto> t')"
    and fits: "unleased w i \<or> (\<exists>t. tasks_of w i = Some t \<and> (\<forall>l. lease_fits t l \<longrightarrow> lease_fits t' l))"
  shows "leases_ok w'"
proof (rule leases_okI)
  fix k l assume l: "lt_leases (w_leases w') k = Some l"
  show "\<exists>t. tasks_of w' (lease_task_id l) = Some t \<and> lease_fits t l"
  proof (cases "lease_task_id l = i")
    case True
    with l same have "\<not> unleased w i" by (auto simp: unleased_def ran_def)
    with fits leases_okD(3) [OF ok, of k l] l same tasks True show ?thesis by auto
  next
    case False
    with leases_okD(3) [OF ok, of k l] l same tasks show ?thesis by simp
  qed
qed (use leases_okD [OF ok] same in simp_all)

lemma lease_deleted:
  assumes ok: "leases_ok w" and k: "lt_leases (w_leases w) k = Some l"
  shows "leases_ok (drop_lease w k (lease_task_id l))" and "unleased (drop_lease w k (lease_task_id l)) (lease_task_id l)"
proof -
  have other: "lease_task_id l' \<noteq> lease_task_id l" if "lt_leases (w_leases w) k' = Some l'" "k' \<noteq> k" for k' l'
    using leases_okD(2) [OF ok k] leases_okD(2) [OF ok that(1)] that(2) by auto
  show "unleased (drop_lease w k (lease_task_id l)) (lease_task_id l)"
    using other by (auto simp: unleased_def lease_delete_def ran_def split: if_splits)
  show "leases_ok (drop_lease w k (lease_task_id l))"
    using leases_okD [OF ok] other k
    by (intro leases_okI) (auto simp: lease_delete_def split: if_splits dest!: leases_okD(4) [OF ok])
qed

lemma holds_lease_found:
  assumes "holds_lease w i k" and "leases_ok w"
  obtains l t where "lt_leases (w_leases w) k = Some l" "lease_task_id l = i" "tasks_of w i = Some t"
    "lease_task_version l = version t"
proof -
  obtain k' l where k': "lt_by_task (w_leases w) i = Some k'" "lt_leases (w_leases w) k' = Some l" "lease_id l = k"
    using assms(1) by (auto simp: holds_lease_def lease_current_def split: option.splits)
  with leases_okD(1) [OF assms(2)] have "k' = k" by blast
  moreover have "lease_task_id l = i" using leases_okD(4) [OF assms(2) k'(1)] k'(2) by auto
  moreover obtain t where "tasks_of w i = Some t" "lease_task_version l = version t"
    using assms(1) k' by (auto simp: holds_lease_def lease_current_def split: option.splits)
  ultimately show ?thesis using that k' by blast
qed

text \<open>A finished execution: the task changes and its lease goes.\<close>

lemma leases_ok_finish:
  assumes ok: "leases_ok w" and h: "holds_lease w i k" and same: "w_leases w' = lease_delete (w_leases w) k i"
    and tasks: "tasks_of w' = (tasks_of w)(i \<mapsto> t')"
  shows "leases_ok w'"
proof -
  obtain l where l: "lt_leases (w_leases w) k = Some l" "lease_task_id l = i"
    using holds_lease_found [OF h ok] by metis
  have "leases_ok (drop_lease w k i)" "unleased (drop_lease w k i) i" using lease_deleted [OF ok l(1)] l(2) by simp_all
  with leases_ok_upd [of "drop_lease w k i" w' i t'] same tasks show ?thesis by simp
qed

lemma leases_ok_same:
  "w_leases w' = w_leases w \<Longrightarrow> tasks_of w' = tasks_of w \<Longrightarrow> leases_ok w' \<longleftrightarrow> leases_ok w"
  by (simp add: leases_ok_def)

lemma fits_later:
  "version t' = version t + 1 \<Longrightarrow> state t' = state t \<or> state t' = StateCanceled \<Longrightarrow> lease_fits t l \<Longrightarrow> lease_fits t' l"
  by (auto simp: lease_fits_def)

lemma leases_ok_insert:
  assumes ok: "leases_ok w" and free: "unleased w i" and fresh: "lt_leases (w_leases w) (lease_id l) = None"
    and l: "lease_task_id l = i" "lease_fits t' l"
    and w': "w_leases w' = lease_insert (w_leases w) l" "tasks_of w' = (tasks_of w)(i \<mapsto> t')"
  shows "leases_ok w'"
proof (rule leases_okI)
  have none: "lease_task_id l' \<noteq> i" if "lt_leases (w_leases w) k = Some l'" for k l'
    using free that by (auto simp: unleased_def ran_def)
  fix k l' assume k: "lt_leases (w_leases w') k = Some l'"
  show "lease_id l' = k" "lt_by_task (w_leases w') (lease_task_id l') = Some k"
    using k w' l none leases_okD(1,2) [OF ok] by (auto simp: lease_insert_def split: if_splits)
  show "\<exists>t. tasks_of w' (lease_task_id l') = Some t \<and> lease_fits t l'"
    using k w' l none leases_okD(3) [OF ok, of k l'] by (auto simp: lease_insert_def split: if_splits)
next
  fix j k assume "lt_by_task (w_leases w') j = Some k"
  then show "\<exists>l'. lt_leases (w_leases w') k = Some l' \<and> lease_task_id l' = j"
    using w' l fresh leases_okD(4) [OF ok, of j k] by (auto simp: lease_insert_def split: if_splits)
qed

lemma move_leases_ok:
  assumes "move fl (H, w) (H', w')" and inv: "store_inv (w_store w)" and ids: "ids_ok w" and ok: "leases_ok w"
  shows "leases_ok w'"
proof -
  note same = leases_ok_same [THEN iffD2, OF _ _ ok]
  have free: "unleased w i" if "tasks_of w i = Some t" "state t = StatePending \<or> state t = StateReady" for i t
    using leases_ok_unleased [OF ok, of i] that by auto
  from assms(1) show ?thesis
  proof cases
    case mv_frame
    with ok show ?thesis by (simp add: leases_ok_def same_core_def)
  next
    case (mv_mark i t now p at)
    then show ?thesis by (intro leases_ok_upd [OF ok, of w' i]) (auto intro: free)
  next
    case (mv_reschedule i t now nxt)
    then show ?thesis by (intro leases_ok_upd [OF ok, of w' i]) (auto intro: free)
  next
    case (mv_bounce rq e i t now p at)
    then show ?thesis
      by (intro leases_ok_upd [OF ok, of w' i "moved (moved t StateLeased now) StateReady now"]) (auto intro: free)
  next
    case (mv_lease rq e i t nano seq k l now)
    have "lt_leases (w_leases w) k = None"
    proof (rule ccontr)
      assume "lt_leases (w_leases w) k \<noteq> None"
      then have "issued (w_seq w) ''lease'' k" using ids by (auto simp: ids_ok_def)
      from issued_fresh [OF this, of nano] mv_lease(8) show False by simp
    qed
    with mv_lease free [of i t] show ?thesis
      by (intro leases_ok_insert [OF ok, of i l "moved t StateLeased now"]) (simp_all add: lease_fits_def)
  next
    case (mv_renew k l at)
    then show ?thesis
      using leases_okD [OF ok] by (intro leases_okI) (auto simp: lease_fits_def split: if_splits, fastforce+)
  next
    case (mv_unlease k l)
    then show ?thesis using lease_deleted(1) [OF ok] by simp
  next
    case (mv_requeue i t now p at)
    then show ?thesis by (intro leases_ok_upd [OF ok, of w' i]) auto
  next
    case (mv_succeed i t k rec stamp now)
    then show ?thesis by (intro leases_ok_finish [OF ok mv_succeed(5)]) auto
  next
    case (mv_retry i t k rec nxt stamp now p at)
    then show ?thesis by (intro leases_ok_finish [OF ok mv_retry(5)]) auto
  next
    case (mv_die i t k rec stamp now)
    then show ?thesis by (intro leases_ok_finish [OF ok mv_die(5)]) auto
  next
    case (mv_cancel i t now)
    then show ?thesis
      by (intro leases_ok_upd [OF ok, of w' i "moved t StateCanceled now"])
        (auto intro: fits_later [of "moved t StateCanceled now" t])
  next
    case (mv_register t now s)
    then have "unleased w (task_id t)" by (intro leases_ok_unleased [OF ok]) simp
    with mv_register saved_new_tasks [OF mv_register(7,4)] show ?thesis
      by (intro leases_ok_upd [OF ok, of w' "task_id t"]) auto
  next
    case (mv_unregister i t s)
    then have none: "lease_task_id l \<noteq> i" if "lt_leases (w_leases w) k = Some l" for k l
      using free [of i t] that by (auto simp: unleased_def ran_def)
    show ?thesis
      using leases_okD [OF ok] none deleted_tasks [OF mv_unregister(6)] mv_unregister(2)
      by (intro leases_okI) auto
  next
    case (mv_update_cron i t0 t nxt tr now s)
    note ts = cron_saved_tasks [OF inv mv_update_cron(3), of now nxt tr s]
    let ?t = "t0\<lparr>version := version t0 + 1, trigger := tr, next_run_at := nxt, updated_at := now\<rparr>"
    show ?thesis
      using mv_update_cron ts
      by (intro leases_ok_upd [OF ok, of w' i ?t]) (auto intro: fits_later [of ?t t0])
  qed (simp_all add: same)
qed

subsection \<open>Records\<close>

text \<open>What the records of one task must satisfy.\<close>

definition records_fit :: "task option \<Rightarrow> execution_record list \<Rightarrow> bool" where
  "records_fit mt rs \<longleftrightarrow> int (length rs) \<le> budget mt \<and>
     successes rs \<le> (case mt of None \<Rightarrow> 0 | Some t \<Rightarrow> if state t = StateSucceeded then 1 else 0) \<and>
     (case mt of None \<Rightarrow> True | Some t \<Rightarrow> 0 \<le> retries_left t \<or> retries_left t = max_retries t)"

lemma records_ok_alt: "records_ok w \<longleftrightarrow> (\<forall>i. records_fit (tasks_of w i) (records_of (w_records w) i))"
  by (auto simp: records_ok_def records_fit_def has_state_def split: option.splits)

lemma records_fitD: "records_ok w \<Longrightarrow> records_fit (tasks_of w i) (records_of (w_records w) i)"
  by (simp add: records_ok_alt)

lemma records_ok_upd:
  assumes ok: "records_ok w" and same: "w_records w' = w_records w" and tasks: "tasks_of w' = (tasks_of w)(i := mt)"
    and fit: "records_fit (tasks_of w i) (records_of (w_records w) i) \<Longrightarrow> records_fit mt (records_of (w_records w) i)"
  shows "records_ok w'"
  using assms records_fitD [OF ok] by (simp add: records_ok_alt)

lemma records_ok_append:
  assumes ok: "records_ok w" and recs: "w_records w' = records_append (w_records w) stamp rec"
    and tasks: "tasks_of w' = (tasks_of w)(rec_task_id rec \<mapsto> t')" and t: "tasks_of w (rec_task_id rec) = Some t"
    and fit: "\<And>rs r. records_fit (Some t) rs \<Longrightarrow> rec_status r = rec_status rec \<Longrightarrow> records_fit (Some t') (rs @ [r])"
  shows "records_ok w'"
proof -
  have "records_fit (tasks_of w' i) (records_of (w_records w') i)" for i
  proof (cases "i = rec_task_id rec")
    case True
    have old: "records_fit (Some t) (records_of (w_records w) i)" using records_fitD [OF ok, of i] t True by simp
    show ?thesis using fit [OF old] tasks recs True by (simp add: records_of_append)
  next
    case False
    with records_fitD [OF ok, of i] recs tasks show ?thesis by (simp add: records_of_append)
  qed
  then show ?thesis by (simp add: records_ok_alt)
qed

lemma records_fit_filter: "records_fit mt rs \<Longrightarrow> records_fit mt (filter P rs)"
proof -
  assume f: "records_fit mt rs"
  have "successes (filter P rs) \<le> successes rs"
    unfolding successes_def filter_filter by (induction rs) auto
  moreover have "int (length (filter P rs)) \<le> int (length rs)" by simp
  ultimately show ?thesis using f unfolding records_fit_def by linarith
qed

lemma move_records_ok:
  assumes "move fl (H, w) (H', w')" and inv: "store_inv (w_store w)" and ok: "records_ok w"
  shows "records_ok w'"
  using assms(1)
proof cases
  case mv_frame
  with ok show ?thesis by (simp add: records_ok_alt same_core_def)
next
  case (mv_mark i t now p at)
  then show ?thesis by (intro records_ok_upd [OF ok, of w' i]) (auto simp: records_fit_def budget_def)
next
  case (mv_reschedule i t now nxt)
  then show ?thesis by (intro records_ok_upd [OF ok, of w' i]) (auto simp: records_fit_def budget_def)
next
  case (mv_bounce rq e i t now p at)
  then show ?thesis
    by (intro records_ok_upd [OF ok, of w' i "Some (moved (moved t StateLeased now) StateReady now)"])
      (auto simp: records_fit_def budget_def)
next
  case (mv_lease rq e i t nano seq k l now)
  then show ?thesis
    by (intro records_ok_upd [OF ok, of w' i "Some (moved t StateLeased now)"]) (simp_all add: records_fit_def budget_def)
next
  case (mv_requeue i t now p at)
  then show ?thesis by (intro records_ok_upd [OF ok, of w' i]) (auto simp: records_fit_def budget_def)
next
  case (mv_succeed i t k rec stamp now)
  then show ?thesis
    by (intro records_ok_append [OF ok, of w' stamp rec "moved t StateSucceeded now" t])
      (auto simp: records_fit_def budget_def successes_def)
next
  case (mv_retry i t k rec nxt stamp now p at)
  then show ?thesis
    by (intro records_ok_append [OF ok, where w' = w' and rec = rec and t = t])
      (auto simp: records_fit_def budget_def successes_def)
next
  case (mv_die i t k rec stamp now)
  then show ?thesis
    by (intro records_ok_append [OF ok, of w' stamp rec "moved t StateDead now" t])
      (auto simp: records_fit_def budget_def successes_def)
next
  case (mv_cancel i t now)
  then show ?thesis
    by (intro records_ok_upd [OF ok, of w' i "Some (moved t StateCanceled now)"])
      (auto simp: records_fit_def budget_def terminal_def split: if_splits)
next
  case (mv_register t now s)
  with saved_new_tasks [OF mv_register(7,4)] show ?thesis
    by (intro records_ok_upd [OF ok, of w' "task_id t" "Some (t\<lparr>version := 1, created_at := now, updated_at := now\<rparr>)"])
      (auto simp: records_fit_def budget_def)
next
  case (mv_unregister i t s)
  with deleted_tasks [OF mv_unregister(6)] show ?thesis
    by (intro records_ok_upd [OF ok, of w' i None]) (auto simp: records_fit_def budget_def)
next
  case (mv_update_cron i t0 t nxt tr now s)
  note ts = cron_saved_tasks [OF inv mv_update_cron(3), of now nxt tr s]
  let ?t = "t0\<lparr>version := version t0 + 1, trigger := tr, next_run_at := nxt, updated_at := now\<rparr>"
  show ?thesis
    using mv_update_cron ts
    by (intro records_ok_upd [OF ok, of w' i "Some ?t"]) (auto simp: records_fit_def budget_def)
next
  case (mv_purge rs)
  have "records_fit (tasks_of w i) (records_of rs i)" for i
    using mv_purge(3) [of i] records_fit_filter [OF records_fitD [OF ok, of i]] by auto
  with mv_purge(2) show ?thesis by (simp add: records_ok_alt)
qed (use ok in \<open>simp_all add: records_ok_alt\<close>)

section \<open>The invariant as a whole\<close>

lemma move_inv:
  assumes "move fl (H, w) (H', w')" and "stack_inv_with H w"
  shows "stack_inv_with H' w'"
proof -
  have inv: "store_inv (w_store w)" "queues_ok H w" "tracked_ok w" "leases_ok w" "ids_ok w" "records_ok w"
    using assms(2) by (simp_all add: stack_inv_with_def)
  have "store_inv (w_store w')" using move_store_inv [OF assms(1)] inv(1) by simp
  with move_queues_ok [OF assms(1) inv(1,2)] move_tracked_ok [OF assms(1) inv(1,3)]
    move_leases_ok [OF assms(1) inv(1,5,4)] move_ids_ok [OF assms(1) inv(1,5)] move_records_ok [OF assms(1) inv(1,6)]
  show ?thesis by (simp add: stack_inv_with_def)
qed

end
