(* ===== verification/Runs.thy ===== *)
theory Runs
  imports Moves
begin

text \<open>
  The operations of the scheduler and of the lease manager as runs of moves: an operation
  is decomposed once, and what holds of every move then holds of the operation.
\<close>

section \<open>Runs of moves\<close>

abbreviation moves :: "bool \<times> string set \<Rightarrow> string set \<times> 'r stack \<Rightarrow> string set \<times> 'r stack \<Rightarrow> bool" where
  "moves fl \<equiv> (move fl)\<^sup>*\<^sup>*"

abbreviation stack_inv :: "'r stack \<Rightarrow> bool" where
  "stack_inv \<equiv> stack_inv_with {}"

lemma moves_inv: "moves fl (H, w) (H', w') \<Longrightarrow> stack_inv_with H w \<Longrightarrow> stack_inv_with H' w'"
proof (induction "(H', w')" arbitrary: H' w' rule: rtranclp_induct)
  case (step y)
  then show ?case by (cases y) (auto intro: move_inv)
qed simp

lemma moves_one: "move fl x y \<Longrightarrow> moves fl x y"
  by (rule r_into_rtranclp)

lemma moves_frame: "same_core w w' \<Longrightarrow> moves fl (H, w) (H, w')"
  by (intro moves_one mv_frame)

lemma stack_invD:
  assumes "stack_inv_with H w"
  shows "store_inv (w_store w)" "queues_ok H w" "tracked_ok w" "leases_ok w" "ids_ok w" "records_ok w"
  using assms by (simp_all add: stack_inv_with_def)

lemma inv_task_id: "stack_inv_with H w \<Longrightarrow> tasks_of w i = Some t \<Longrightarrow> task_id t = i"
  using store_invD(1) stack_invD(1) by blast

text \<open>A loop whose every turn is a run is a run.\<close>

lemma moves_fold:
  assumes "\<And>w n x. stack_inv_with H w \<Longrightarrow> moves fl (H, w) (H, fst (f (w, n) x))"
  shows "stack_inv_with H w \<Longrightarrow> moves fl (H, w) (H, fst (foldl f (w, n) xs))"
proof (induction xs arbitrary: w n)
  case (Cons x xs)
  obtain w1 n1 where f: "f (w, n) x = (w1, n1)" by fastforce
  have m: "moves fl (H, w) (H, w1)" using assms [OF Cons.prems, of n x] f by simp
  from Cons.IH [OF moves_inv [OF m Cons.prems], of n1] m f show ?case by simp
qed simp

section \<open>The scheduler\<close>

lemma marked_put:
  "store_mark_ready (w_store w) now i = Inr (s, u) \<Longrightarrow>
   \<exists>t. tasks_of w i = Some t \<and> state t = StatePending \<and> u = moved t StateReady now \<and>
     w\<lparr>w_store := s\<rparr> = put_task w i (moved t StateReady now)"
  by (auto simp: store_results put_task_def moved_def)

lemma transition_put:
  "store_transition (w_store w) now i from to e = Inr (Some (s, u)) \<Longrightarrow>
   \<exists>t. tasks_of w i = Some t \<and> state t = from \<and> u = moved t to now \<and> w\<lparr>w_store := s\<rparr> = put_task w i (moved t to now)"
  by (auto simp: store_results put_task_def moved_def)

lemma tick_cron_moves:
  assumes "tasks_of w i = Some t" and "state t = StateReady"
  shows "moves fl (H, w) (H, tick_cron w i t now)"
proof (cases "kind (trigger t) = ''cron'' \<and> (\<exists>sch. cron_parse (cron_expr (trigger t)) = Inr sch)")
  case True
  then obtain sch where sch: "cron_parse (cron_expr (trigger t)) = Inr sch" by blast
  let ?n = "cron_next (w_loc w) sch now"
  let ?w = "put_reindexed w i (t\<lparr>next_run_at := ?n, updated_at := w_now w\<rparr>)"
  have "tick_cron w i t now = ?w\<lparr>w_next_fire := (w_next_fire ?w)(i := Some ?n)\<rparr>"
    using True sch assms(1)
    by (simp add: tick_cron_def store_set_next_run_def sched_set_next_fire_def put_reindexed_def Let_def)
  moreover have "move fl (H, w) (H, ?w)" using assms by (rule mv_reschedule)
  moreover have "move fl (H, ?w) (H, ?w\<lparr>w_next_fire := (w_next_fire ?w)(i := Some ?n)\<rparr>)"
    using assms(2) by (intro mv_fire) simp
  ultimately show ?thesis by (metis r_into_rtranclp rtranclp.rtrancl_into_rtrancl)
next
  case False
  then have "tick_cron w i t now = w" by (auto simp: tick_cron_def split: sum.splits)
  then show ?thesis by simp
qed

lemma tick_pending_moves:
  assumes inv: "stack_inv_with H w"
  shows "moves fl (H, w) (H, fst (tick_pending now (w, n) i))"
proof (cases "tasks_of w i")
  case None
  then have "tick_pending now (w, n) i = (w\<lparr>w_next_fire := (w_next_fire w)(i := None)\<rparr>, n)"
    by (simp add: tick_pending_def store_get_def)
  moreover have "\<not> has_state w i StatePending" using None by (simp add: has_state_def)
  ultimately show ?thesis by (auto intro: moves_one mv_fire)
next
  case (Some t)
  show ?thesis
  proof (cases "state t = StatePending")
    case True
    let ?w = "push_ready (put_task w i (moved t StateReady (w_now w))) i (priority t) now"
    have "fst (tick_pending now (w, n) i) = tick_cron ?w i (moved t StateReady (w_now w)) now"
      using True Some inv_task_id [OF inv Some]
      by (simp add: tick_pending_def store_get_def store_mark_ready_def Let_def put_task_def moved_def)
    moreover have "move fl (H, w) (H, ?w)" using Some True by (rule mv_mark)
    moreover have "moves fl (H, ?w) (H, tick_cron ?w i (moved t StateReady (w_now w)) now)"
      by (rule tick_cron_moves) simp_all
    ultimately show ?thesis by (metis converse_rtranclp_into_rtranclp)
  next
    case False
    with Some show ?thesis by (simp add: tick_pending_def store_get_def)
  qed
qed

lemma tick_delayed_moves:
  assumes inv: "stack_inv_with (de_task_id ` set es) w"
  shows "moves fl (de_task_id ` set es, w) ({}, fst (foldl (tick_delayed now) (w, n) es))"
  using inv
proof (induction es arbitrary: w n)
  case (Cons e es)
  let ?i = "de_task_id e" and ?H = "de_task_id ` set es"
  obtain w1 n1 where f: "tick_delayed now (w, n) e = (w1, n1)" by fastforce
  have "move fl (insert ?i ?H, w) (?H, w1)"
  proof (cases "has_state w ?i StateReady")
    case True
    then obtain t where t: "tasks_of w ?i = Some t" "state t = StateReady" by (auto simp: has_state_def split: option.splits)
    then have "w1 = push_ready w ?i (priority t) now"
      using f inv_task_id [OF Cons.prems t(1)] by (simp add: tick_delayed_def store_get_def)
    with True show ?thesis by (auto intro!: mv_hand)
  next
    case False
    then have "w1 = w" using f by (auto simp: tick_delayed_def store_get_def has_state_def split: option.splits if_splits)
    with False show ?thesis by (auto intro!: mv_drop)
  qed
  then have m: "moves fl (insert ?i ?H, w) (?H, w1)" by (rule moves_one)
  have "stack_inv_with ?H w1" using moves_inv [OF m] Cons.prems by simp
  from rtranclp_trans [OF m Cons.IH [OF this, of n1]] f show ?case by simp
qed simp

lemma sched_tick_moves:
  assumes inv: "stack_inv w"
  shows "moves fl ({}, w) ({}, fst (sched_tick w its now))"
proof -
  obtain w1 n1 where p: "foldl (tick_pending now) (w, 0) (tick_due w its now) = (w1, n1)" by fastforce
  have m1: "moves fl ({}, w) ({}, w1)"
    using moves_fold [where f = "tick_pending now", OF tick_pending_moves inv, of fl 0 "tick_due w its now"] p by simp
  obtain dq es where d: "delayed_pop_due (w_delayed w1) now = (dq, es)" by fastforce
  have m2: "moves fl ({}, w1) (de_task_id ` set es, w1\<lparr>w_delayed := dq\<rparr>)"
    using mv_pop_due [OF d, of fl "{}"] by (simp add: moves_one)
  have "moves fl (de_task_id ` set es, w1\<lparr>w_delayed := dq\<rparr>) ({}, fst (sched_tick w its now))"
    using tick_delayed_moves [OF moves_inv [OF m2 moves_inv [OF m1 inv]], where now = now and n = n1] p d
    by (simp add: sched_tick_def)
  with m1 m2 show ?thesis by (meson rtranclp_trans)
qed

lemma sched_trigger_moves:
  assumes inv: "stack_inv w"
  shows "moves fl ({}, w) ({}, fst (sched_trigger_now w i now))"
proof (cases "tasks_of w i")
  case (Some t)
  note id = inv_task_id [OF inv Some]
  consider "state t = StatePending" | "state t = StateReady" | "state t \<noteq> StatePending" "state t \<noteq> StateReady" by blast
  then show ?thesis
  proof cases
    case 1
    have "fst (sched_trigger_now w i now) = push_ready (put_task w i (moved t StateReady (w_now w))) i (priority t) now"
      using 1 Some id by (simp add: sched_trigger_now_def store_get_def store_mark_ready_def Let_def put_task_def moved_def)
    with mv_mark [OF Some 1] show ?thesis by (simp add: moves_one)
  next
    case 2
    have "fst (sched_trigger_now w i now) = push_ready w i (priority t) now"
      using 2 Some id by (simp add: sched_trigger_now_def store_get_def store_mark_ready_def)
    with mv_hand [of w i "{}" "{}" fl] 2 Some show ?thesis by (simp add: moves_one)
  next
    case 3
    with Some show ?thesis by (simp add: sched_trigger_now_def store_get_def)
  qed
qed (simp add: sched_trigger_now_def store_get_def)

lemma sched_cancel_ok:
  "tasks_of w i = Some t \<Longrightarrow> \<not> terminal (state t) \<Longrightarrow>
   sched_cancel w i = ((put_task w i (moved t StateCanceled (w_now w)))
     \<lparr>w_ready := fst (ready_remove (w_ready w) i), w_delayed := fst (delayed_remove (w_delayed w) i),
      w_next_fire := (w_next_fire w)(i := None)\<rparr>, None)"
  by (simp add: sched_cancel_def store_get_def store_transition_def Let_def put_task_def moved_def)

lemma sched_cancel_moves: "moves fl ({}, w) ({}, fst (sched_cancel w i))"
proof (cases "\<exists>t. tasks_of w i = Some t \<and> \<not> terminal (state t)")
  case True
  then obtain t where t: "tasks_of w i = Some t" "\<not> terminal (state t)" by blast
  from mv_cancel [OF this, of fl "{}" "w_now w"] show ?thesis by (simp add: sched_cancel_ok [OF t] moves_one)
next
  case False
  then have "fst (sched_cancel w i) = w" by (auto simp: sched_cancel_def store_get_def split: option.splits)
  then show ?thesis by simp
qed

section \<open>The lease manager\<close>

lemma assign_undo_put:
  "tasks_of w i = Some t \<Longrightarrow> state t = StateLeased \<Longrightarrow>
   assign_undo w i t now = push_ready (put_task w i (moved t StateReady (w_now w))) i (priority t) now"
  by (simp add: assign_undo_def store_transition_def Let_def put_task_def moved_def)

lemma lease_assign_moves:
  assumes "stack_inv w" and "unat (w_seq w) + 1 < 2 ^ 64"
  shows "moves fl ({}, w) ({}, fst (lease_assign pick w now nano))"
  using assms
proof (induction pick w now nano rule: lease_assign.induct)
  case (1 pick w now nano)
  obtain q oe where p: "ready_pop (w_ready w) = (q, oe)" by fastforce
  show ?case
  proof (cases oe)
    case None
    then have "q = w_ready w" using p by (auto simp: ready_pop_def split: if_splits prod.splits)
    then show ?thesis using p None by (simp add: lease_assign.simps [of pick w now nano])
  next
    case (Some e)
    let ?i = "re_task_id e" and ?w1 = "w\<lparr>w_ready := q\<rparr>"
    show ?thesis
    proof (cases "has_state w ?i StateReady")
      case True
      then obtain t where t: "tasks_of w ?i = Some t" "state t = StateReady" by (auto simp: has_state_def split: option.splits)
      let ?t = "moved t StateLeased (w_now w)"
      have tr: "store_transition (w_store w) (w_now w) ?i StateReady StateLeased (- 1) =
          Inr (Some ((w_store w)\<lparr>ts_tasks := (tasks_of w)(?i \<mapsto> ?t)\<rparr>, ?t))"
        using t by (simp add: store_transition_def Let_def moved_def)
      have w2: "?w1\<lparr>w_store := (w_store w)\<lparr>ts_tasks := (tasks_of w)(?i \<mapsto> ?t)\<rparr>\<rparr> = put_task ?w1 ?i ?t"
        by (simp add: put_task_def)
      show ?thesis
      proof (cases "pick (w_registry w) now")
        case (Inl err)
        have "fst (lease_assign pick w now nano) =
            push_ready (put_task ?w1 ?i (moved ?t StateReady (w_now w))) ?i (priority t) now"
          using p Some tr w2 Inl assign_undo_put [of "put_task ?w1 ?i ?t" ?i ?t now]
          by (simp add: lease_assign.simps [of pick w now nano] Let_def) (simp add: put_task_def)
        with mv_bounce [OF _ refl t] p Some show ?thesis by (simp add: moves_one)
      next
        case (Inr node)
        obtain seq k where k: "id_next (w_seq w) ''lease'' nano = (seq, k)" by fastforce
        define l where "l = \<lparr>lease_id = k, lease_task_id = task_id t, lease_worker_id = node_id node,
            lease_task_version = version t + 1, lease_deadline = now + w_ttl w, lease_created_at = now\<rparr>"
        have l: "lease_id l = k" "lease_task_id l = ?i" "lease_task_version l = version t + 1"
          using inv_task_id [OF 1(2) t(1)] by (simp_all add: l_def)
        have "fst (lease_assign pick w now nano) =
            (put_task ?w1 ?i ?t)\<lparr>w_seq := seq, w_leases := lease_insert (w_leases w) l\<rparr>"
          using p Some tr w2 Inr k by (simp add: lease_assign.simps [of pick w now nano] Let_def l_def)
        with mv_lease [OF _ refl t 1(3) k l, where q = q] p Some show ?thesis by (simp add: moves_one)
      qed
    next
      case False
      have mv: "move fl ({}, w) ({}, ?w1)" using p Some False by (intro mv_pop_stale) simp_all
      have inv: "stack_inv ?w1" using move_inv [OF mv 1(2)] .
      have "moves fl ({}, ?w1) ({}, fst (lease_assign pick w now nano))"
      proof (cases "tasks_of w ?i")
        case None
        then show ?thesis using p Some
          by (simp add: lease_assign.simps [of pick w now nano] store_transition_def)
      next
        case (Some t)
        then have tr: "store_transition (w_store w) (w_now w) ?i StateReady StateLeased (- 1) = Inr None"
          using False by (simp add: store_transition_def)
        have "moves fl ({}, ?w1) ({}, fst (lease_assign pick ?w1 now nano))"
          using 1(1) [OF p [symmetric] \<open>oe = Some e\<close> tr refl] inv 1(3) by simp
        moreover have "lease_assign pick w now nano = lease_assign pick ?w1 now nano"
          using p \<open>oe = Some e\<close> tr by (simp add: lease_assign.simps [of pick w now nano])
        ultimately show ?thesis by simp
      qed
      with mv show ?thesis by (rule converse_rtranclp_into_rtranclp)
    qed
  qed
qed

lemma lease_renew_moves:
  assumes inv: "stack_inv w"
  shows "moves fl ({}, w) ({}, fst (lease_renew w k worker now))"
proof (cases "lt_leases (w_leases w) k")
  case (Some l)
  obtain t where t: "tasks_of w (lease_task_id l) = Some t"
    using leases_okD(3) [OF stack_invD(4) [OF inv] Some] by blast
  then have "task_id t = lease_task_id l" using inv_task_id [OF inv] by blast
  with mv_renew [OF Some, of fl "{}" "now + w_ttl w"] mv_unlease [OF Some, of fl "{}"] Some t show ?thesis
    by (auto simp: lease_renew_def store_get_def drop_lease_def intro: moves_one)
qed (simp add: lease_renew_def)

lemma lease_release_moves: "moves fl (H, w) (H, lease_release w k)"
proof (cases "lt_leases (w_leases w) k")
  case (Some l)
  from mv_unlease [OF this, of fl H] Some show ?thesis
    by (simp add: lease_release_def drop_lease_def moves_one)
qed (simp add: lease_release_def)

text \<open>Reaping: the tasks of the collected leases have no lease any more, and stay so.\<close>

definition all_unleased :: "'r stack \<Rightarrow> lease list \<Rightarrow> bool" where
  "all_unleased w ls \<longleftrightarrow> (\<forall>l \<in> set ls. unleased w (lease_task_id l))"

lemma unleased_drop: "unleased w i \<Longrightarrow> unleased (drop_lease w k j) i"
  by (auto simp: unleased_def lease_delete_def ran_def)

lemma reap_collect_moves:
  assumes "stack_inv w" and "all_unleased w ls" and "foldl (reap_collect now) (w_leases w, ls) its = (lt, ls')"
  shows "moves (True, P) ({}, w) ({}, w\<lparr>w_leases := lt\<rparr>) \<and> all_unleased (w\<lparr>w_leases := lt\<rparr>) ls'"
  using assms
proof (induction its arbitrary: w ls)
  case (Cons k its)
  show ?case
  proof (cases "\<exists>l. lt_leases (w_leases w) k = Some l \<and> lease_deadline l < now")
    case True
    then obtain l where l: "lt_leases (w_leases w) k = Some l" "lease_deadline l < now" by blast
    let ?w = "drop_lease w k (lease_task_id l)"
    have mv: "move (True, P) ({}, w) ({}, ?w)" using l(1) by (rule mv_unlease)
    have "all_unleased ?w (ls @ [l])"
      using Cons.prems(2) lease_deleted(2) [OF stack_invD(4) [OF Cons.prems(1)] l(1)]
      by (auto simp: all_unleased_def intro: unleased_drop)
    moreover have "foldl (reap_collect now) (w_leases ?w, ls @ [l]) its = (lt, ls')"
      using Cons.prems(3) l by (simp add: reap_collect_def)
    ultimately have "moves (True, P) ({}, ?w) ({}, ?w\<lparr>w_leases := lt\<rparr>) \<and> all_unleased (?w\<lparr>w_leases := lt\<rparr>) ls'"
      using Cons.IH [of ?w "ls @ [l]"] move_inv [OF mv Cons.prems(1)] by blast
    moreover have "?w\<lparr>w_leases := lt\<rparr> = w\<lparr>w_leases := lt\<rparr>" by (simp add: drop_lease_def)
    ultimately show ?thesis using mv by (metis converse_rtranclp_into_rtranclp)
  next
    case False
    then have "foldl (reap_collect now) (w_leases w, ls) its = (lt, ls')"
      using Cons.prems(3) by (auto simp: reap_collect_def split: option.splits)
    with Cons show ?thesis by blast
  qed
qed auto

lemma reap_one_moves:
  assumes inv: "stack_inv w" and free: "unleased w (lease_task_id l)"
  shows "moves (True, P) ({}, w) ({}, fst (reap_one now (w, n) l)) \<and> w_leases (fst (reap_one now (w, n) l)) = w_leases w"
proof (cases "\<exists>t. tasks_of w (lease_task_id l) = Some t \<and> state t = StateLeased \<and> version t = lease_task_version l")
  case True
  then obtain t where t: "tasks_of w (lease_task_id l) = Some t" "state t = StateLeased" "version t = lease_task_version l"
    by blast
  let ?i = "lease_task_id l"
  let ?w = "push_ready (put_task w ?i (moved t StateReady (w_now w))) ?i (priority t) now"
  have eq: "fst (reap_one now (w, n) l) =
      ?w\<lparr>w_metrics := (w_metrics w)\<lparr>mt_leases_expired := count_up (mt_leases_expired (w_metrics w))\<rparr>\<rparr>"
    using t inv_task_id [OF inv t(1)]
    by (simp add: reap_one_def store_get_def store_transition_def Let_def put_task_def moved_def push_ready_def)
  moreover have "move (True, P) ({}, w) ({}, ?w)" using t(1,2) free by (rule mv_requeue) simp
  moreover have "move (True, P) ({}, ?w) ({}, fst (reap_one now (w, n) l))" unfolding eq by (intro mv_frame) (simp add: same_core_def)
  ultimately show ?thesis by (auto intro: rtranclp.rtrancl_into_rtrancl)
next
  case False
  then have "fst (reap_one now (w, n) l) = w" by (auto simp: reap_one_def store_get_def split: option.splits)
  then show ?thesis by simp
qed

lemma lease_reap_moves:
  assumes inv: "stack_inv w"
  shows "moves (True, P) ({}, w) ({}, fst (lease_reap_expired w its now))"
proof -
  obtain lt ls where c: "foldl (reap_collect now) (w_leases w, []) its = (lt, ls)" by fastforce
  have "all_unleased w []" by (simp add: all_unleased_def)
  from reap_collect_moves [OF inv this c] have m: "moves (True, P) ({}, w) ({}, w\<lparr>w_leases := lt\<rparr>)"
    and u: "all_unleased (w\<lparr>w_leases := lt\<rparr>) ls" by simp_all
  have "moves (True, P) ({}, v) ({}, fst (foldl (reap_one now) (v, n) ls))" if "stack_inv v" "all_unleased v ls" for v n
    using that
  proof (induction ls arbitrary: v n)
    case (Cons l ls)
    obtain v1 n1 where f: "reap_one now (v, n) l = (v1, n1)" by fastforce
    have "unleased v (lease_task_id l)" using Cons.prems(2) by (simp add: all_unleased_def)
    from reap_one_moves [OF Cons.prems(1) this, where now = now and n = n] f
    have mv: "moves (True, P) ({}, v) ({}, v1)" and same: "w_leases v1 = w_leases v" by simp_all
    have "all_unleased v1 ls" using Cons.prems(2) same by (simp add: all_unleased_def unleased_def)
    from Cons.IH [OF moves_inv [OF mv Cons.prems(1)] this, of n1] mv f show ?case by simp
  qed simp
  from this [OF moves_inv [OF m inv] u, of "[]"] m c show ?thesis by (simp add: lease_reap_expired_def)
qed

end
