(* ===== verification/Operations.thy ===== *)
theory Operations
  imports Runs
begin

text \<open>
  The operations of the executor, the harness and the control plane as runs of moves. With
  \<open>Runs\<close> this covers every operation of the stack but \<open>Restore\<close>.
\<close>

section \<open>Results\<close>

text \<open>The steps of \<open>RecordResult\<close> that nothing refuses: the identifier and the record.\<close>

definition result_record :: "'r stack \<Rightarrow> lease \<Rightarrow> task \<Rightarrow> string \<Rightarrow> string \<Rightarrow> instant \<Rightarrow> instant \<Rightarrow> int \<Rightarrow> execution_record" where
  "result_record w l t status message started finished nano =
     \<lparr>rec_id = snd (id_next (w_seq w) ''exec'' nano), rec_task_id = task_id t, rec_attempt = attempt_count t,
      rec_worker_id = lease_worker_id l, rec_status = status, rec_started_at = started,
      rec_finished_at = finished, rec_message = message\<rparr>"

lemma result_record_simps [simp]:
  "rec_task_id (result_record w l t status message started finished nano) = task_id t"
  "rec_status (result_record w l t status message started finished nano) = status"
  by (simp_all add: result_record_def)

text \<open>What a recorded result leaves of the stack, by the three branches.\<close>

definition result_task :: "'r stack \<Rightarrow> lease \<Rightarrow> task \<Rightarrow> string \<Rightarrow> execution_record \<Rightarrow> instant \<Rightarrow> string \<Rightarrow> 'r stack" where
  "result_task w l t status rec finished stamp =
     (let i = task_id t; k = lease_id l; w1 = add_record w stamp rec; nxt = finished + w_retry_delay w in
      if status = ''success'' then drop_lease (put_task w1 i (moved t StateSucceeded (w_now w))) k i
      else if 0 < retries_left t
      then drop_lease (sched_schedule_retry
             (put_reindexed w1 i ((moved t StateReady (w_now w))
                \<lparr>retries_left := retries_left t - 1, next_run_at := nxt, last_attempt_at := w_now w\<rparr>))
             i nxt (priority t) finished) k i
      else drop_lease (put_task w1 i (moved t StateDead (w_now w))) k i)"

lemma holds_leaseI:
  "lease_current w i = Some c \<Longrightarrow> lease_id c = k \<Longrightarrow> tasks_of w i = Some t \<Longrightarrow> lease_task_version c = version t \<Longrightarrow>
   holds_lease w i k"
  by (simp add: holds_lease_def)

lemma holds_lease_state:
  assumes "holds_lease w i k" and "leases_ok w" and "tasks_of w i = Some t"
  shows "state t = StateLeased"
  using assms(1,2)
proof (rule holds_lease_found)
  fix l t' assume l: "lt_leases (w_leases w) k = Some l" "lease_task_id l = i" "tasks_of w i = Some t'"
    "lease_task_version l = version t'"
  with leases_okD(3) [OF assms(2) l(1)] assms(3) show ?thesis by (auto simp: lease_fits_def)
qed

text \<open>The counters after a result.\<close>

definition result_metrics :: "metrics \<Rightarrow> string \<Rightarrow> metrics" where
  "result_metrics m status =
     (if status = ''success''
      then m\<lparr>mt_results_recorded := count_up (mt_results_recorded m), mt_tasks_executed := count_up (mt_tasks_executed m)\<rparr>
      else m\<lparr>mt_results_recorded := count_up (mt_results_recorded m), mt_tasks_failed := count_up (mt_tasks_failed m)\<rparr>)"

text \<open>
  The result is refused unless the task exists and the lease is current and given for its
  present version; otherwise it is recorded.
\<close>

lemma record_result_unheld:
  "\<not> holds_lease w (lease_task_id l) (lease_id l) \<Longrightarrow> \<exists>e. record_result w l status message started finished nano stamp = (w, Inl e)"
  by (auto simp: record_result_def store_get_def holds_lease_def split: option.splits)

text \<open>The updates of a retried task, in the order of \<open>moved\<close>.\<close>

lemma retried_order:
  "t\<lparr>retries_left := r, state := st, next_run_at := nxt, last_attempt_at := la, version := v, updated_at := u\<rparr> =
   t\<lparr>state := st, version := v, updated_at := u, retries_left := r, next_run_at := nxt, last_attempt_at := la\<rparr>"
  by (cases t) simp

lemma record_result_held:
  assumes h: "holds_lease w (lease_task_id l) (lease_id l)" and inv: "stack_inv_with H w"
    and t: "tasks_of w (lease_task_id l) = Some t"
  shows "\<exists>t'. record_result w l status message started finished nano stamp =
    ((result_task (w\<lparr>w_seq := w_seq w + 1\<rparr>) l t status (result_record w l t status message started finished nano) finished stamp)
       \<lparr>w_metrics := result_metrics (w_metrics w) status\<rparr>, Inr t')"
proof -
  let ?i = "lease_task_id l"
  have ok: "leases_ok w" using stack_invD(4) [OF inv] .
  have id: "task_id t = ?i" using inv_task_id [OF inv t] .
  have st: "state t = StateLeased" using holds_lease_state [OF h ok t] .
  obtain l' where l': "lt_leases (w_leases w) (lease_id l) = Some l'" "lease_task_id l' = ?i"
    using holds_lease_found [OF h ok] by metis
  obtain c where c: "lease_current w ?i = Some c" "lease_id c = lease_id l" "lease_task_version c = version t"
    using h t by (auto simp: holds_lease_def split: option.splits)
  obtain i where i: "id_next (w_seq w) ''exec'' nano = (w_seq w + 1, i)"
    using fst_id_next [of "w_seq w" "''exec''" nano] by (cases "id_next (w_seq w) ''exec'' nano") simp
  show ?thesis
    using t c l' i
    by (auto simp: record_result_def store_get_def result_record_def result_task_def result_metrics_def Let_def id st retried_order
        result_success_def result_failure_def lease_release_def store_transition_def store_retry_def
        drop_lease_def put_task_def put_reindexed_def moved_def add_record_def sched_schedule_retry_def)
qed

lemma result_task_moves:
  assumes "tasks_of w i = Some t" and "state t = StateLeased" and "holds_lease w i (lease_id l)" and "task_id t = i"
    and "rec_task_id rec = i" and "rec_status rec = status"
  shows "move fl (H, w) (H, result_task w l t status rec finished stamp)"
  using assms mv_succeed [of w i t "lease_id l" rec fl H stamp "w_now w"]
    mv_retry [of w i t "lease_id l" rec fl H stamp "w_now w" "finished + w_retry_delay w" "priority t" finished]
    mv_die [of w i t "lease_id l" rec fl H stamp "w_now w"]
  by (simp add: result_task_def Let_def)

lemma holds_lease_seq [simp]: "holds_lease (w\<lparr>w_seq := g\<rparr>) i k = holds_lease w i k"
  by (simp add: holds_lease_def lease_current_def split: option.splits)

lemma record_result_moves:
  assumes inv: "stack_inv_with H w" and seq: "unat (w_seq w) + 1 < 2 ^ 64"
  shows "moves fl (H, w) (H, fst (record_result w l status message started finished nano stamp))"
proof (cases "holds_lease w (lease_task_id l) (lease_id l)")
  case True
  let ?i = "lease_task_id l" and ?w = "w\<lparr>w_seq := w_seq w + 1\<rparr>"
  obtain t where t: "tasks_of w ?i = Some t" using holds_lease_found [OF True stack_invD(4) [OF inv]] by metis
  let ?r = "result_record w l t status message started finished nano"
  let ?v = "result_task ?w l t status ?r finished stamp"
  note id = inv_task_id [OF inv t]
  define m where "m = result_metrics (w_metrics w) status"
  have m: "fst (record_result w l status message started finished nano stamp) = ?v\<lparr>w_metrics := m\<rparr>"
    using record_result_held [OF True inv t, of status message started finished nano stamp] m_def by auto
  have "move fl (H, w) (H, ?w)" using seq by (rule mv_seq)
  moreover have "move fl (H, ?w) (H, ?v)"
    using t holds_lease_state [OF True stack_invD(4) [OF inv] t] True id by (intro result_task_moves) simp_all
  moreover have "move fl (H, ?v) (H, ?v\<lparr>w_metrics := m\<rparr>)" by (intro mv_frame) (simp add: same_core_def)
  ultimately show ?thesis unfolding m
    by (intro converse_rtranclp_into_rtranclp [of "move fl" "(H, w)" "(H, ?w)"]
        converse_rtranclp_into_rtranclp [of "move fl" "(H, ?w)" "(H, ?v)"]) auto
next
  case False
  with record_result_unheld [OF False] show ?thesis by (metis fst_conv rtranclp.rtrancl_refl)
qed

section \<open>The executor\<close>

lemma executor_begin_moves:
  assumes "stack_inv w" and "unat (w_seq w) + 1 < 2 ^ 64"
  shows "moves fl ({}, w) ({}, fst (executor_begin pick w nano))"
proof -
  obtain w1 r where a: "lease_assign pick w (w_now w) nano = (w1, r)" by fastforce
  have m: "moves fl ({}, w) ({}, w1)" using lease_assign_moves [OF assms, of fl pick "w_now w" nano] a by simp
  have "fst (executor_begin pick w nano) \<in> {w1} \<union> range (lease_release w1)"
    using a by (auto simp: executor_begin_def split: sum.splits)
  with m lease_release_moves [of fl "{}" w1] show ?thesis by (auto intro: rtranclp_trans)
qed

lemma executor_finish_moves:
  assumes "stack_inv w" and "unat (w_seq w) + 1 < 2 ^ 64"
  shows "moves fl ({}, w) ({}, fst (executor_finish w l started outcome nano stamp))"
proof -
  obtain status message where o: "(case outcome of Inr m \<Rightarrow> (''success'', m) | Inl err \<Rightarrow> (''failure'', err)) = (status, message)"
    by fastforce
  obtain w1 r where a: "record_result w l status message started (w_now w) nano stamp = (w1, r)" by fastforce
  have m: "moves fl ({}, w) ({}, w1)"
    using record_result_moves [OF assms, of fl l status message started "w_now w" nano stamp] a by simp
  have "fst (executor_finish w l started outcome nano stamp) \<in> {w1} \<union> range (lease_release w1)"
    using a o by (auto simp: executor_finish_def Let_def split: sum.splits)
  with m lease_release_moves [of fl "{}" w1] show ?thesis by (auto intro: rtranclp_trans)
qed

section \<open>Registration\<close>

text \<open>A task as the builders make it: new, pending, with all its retries.\<close>

definition fresh_task :: "'r stack \<Rightarrow> task \<Rightarrow> bool" where
  "fresh_task w t \<longleftrightarrow> issued (w_seq w) ''task'' (task_id t) \<and> tasks_of w (task_id t) = None \<and>
     state t = StatePending \<and> retries_left t = max_retries t"

lemma next_id_fresh:
  assumes ids: "ids_ok w" and seq: "unat (w_seq w) + 1 < 2 ^ 64" and i: "id_next (w_seq w) ''task'' nano = (g, i)"
  shows "issued g ''task'' i" and "\<not> issued (w_seq w) ''task'' i" and "tasks_of w i = None"
proof -
  show "issued g ''task'' i" using issued_next [OF seq i] .
  show n: "\<not> issued (w_seq w) ''task'' i" using issued_fresh [of "w_seq w" "''task''" i nano] i by auto
  show "tasks_of w i = None" using ids n by (auto simp: ids_ok_def)
qed

lemma save_fresh_move:
  "fresh_task w t \<Longrightarrow> store_save (w_store w) now t = Inr s \<Longrightarrow> move fl (H, w) (H, sched_track (w\<lparr>w_store := s\<rparr>) t)"
  by (rule mv_register) (simp_all add: fresh_task_def)

lemma register_moves:
  assumes inv: "stack_inv_with H w" and seq: "unat (w_seq w) + 1 < 2 ^ 64"
    and t: "id_next (w_seq w) ''task'' nano = (g, task_id t)" "state t = StatePending" "retries_left t = max_retries t"
    and save: "store_save (w_store w) now t = Inr s"
  shows "moves fl (H, w) (H, sched_track (w\<lparr>w_seq := g, w_store := s\<rparr>) t)"
proof -
  let ?w = "w\<lparr>w_seq := g\<rparr>"
  have "g = w_seq w + 1" using fst_id_next [of "w_seq w" "''task''" nano] t(1) by simp
  then have "move fl (H, w) (H, ?w)" using mv_seq [OF seq, of fl H] by simp
  moreover have "fresh_task ?w t"
    using next_id_fresh [OF stack_invD(5) [OF inv] seq t(1)] t(2,3) by (simp add: fresh_task_def)
  then have "move fl (H, ?w) (H, sched_track (?w\<lparr>w_store := s\<rparr>) t)" using save by (intro save_fresh_move [where now = now]) simp_all
  ultimately show ?thesis by simp
qed

lemma harness_register_once_moves:
  assumes inv: "stack_inv w" and seq: "unat (w_seq w) + 1 < 2 ^ 64"
    and r: "harness_register_once w nano name at prio retries = Some (w', t)"
  shows "moves fl ({}, w) ({}, w')"
proof -
  obtain g i where i: "id_next (w_seq w) ''task'' nano = (g, i)" by fastforce
  from r show ?thesis
    using register_moves [OF inv seq, where now = "w_now w" and fl = fl] i
    by (auto simp: harness_register_once_def Let_def split: sum.splits)
qed

lemma harness_register_cron_moves:
  assumes inv: "stack_inv w" and seq: "unat (w_seq w) + 1 < 2 ^ 64"
    and r: "harness_register_cron w nano name expr prio retries = Some (w', t)"
  shows "moves fl ({}, w) ({}, w')"
proof -
  obtain g i where i: "id_next (w_seq w) ''task'' nano = (g, i)" by fastforce
  from r show ?thesis
    using register_moves [OF inv seq, where now = "w_now w" and fl = fl] i
    by (auto simp: harness_register_cron_def Let_def split: sum.splits)
qed

lemma build_task_result:
  assumes "build_task parse_time w nano req = (w', r)"
  shows "w' = w\<lparr>w_seq := w_seq w + 1\<rparr>"
    and "r = Inr t \<Longrightarrow> id_next (w_seq w) ''task'' nano = (w_seq w + 1, task_id t) \<and>
           state t = StatePending \<and> retries_left t = max_retries t"
proof -
  obtain i where i: "id_next (w_seq w) ''task'' nano = (w_seq w + 1, i)"
    using fst_id_next [of "w_seq w" "''task''" nano] by (cases "id_next (w_seq w) ''task'' nano") simp
  show "w' = w\<lparr>w_seq := w_seq w + 1\<rparr>"
    using assms i by (auto simp: build_task_def Let_def split: sum.splits option.splits if_splits)
  show "r = Inr t \<Longrightarrow> id_next (w_seq w) ''task'' nano = (w_seq w + 1, task_id t) \<and>
           state t = StatePending \<and> retries_left t = max_retries t"
    using assms i by (auto simp: build_task_def Let_def split: sum.splits option.splits if_splits)
qed

lemma audit_action_core: "same_core w (audit_action he w action target)"
  by (simp add: audit_action_def same_core_def)

lemma audit_action_moves: "moves fl x (H, w) \<Longrightarrow> moves fl x (H, audit_action he w action target)"
  by (rule rtranclp.rtrancl_into_rtrancl) (auto intro: mv_frame audit_action_core)

lemma api_register_task_moves:
  assumes inv: "stack_inv w" and seq: "unat (w_seq w) + 1 < 2 ^ 64"
  shows "moves fl ({}, w) ({}, fst (api_register_task parse_time he w nano decoded))"
proof (cases decoded)
  case (Some req)
  obtain w1 r where b: "build_task parse_time w nano req = (w1, r)" by fastforce
  note w1 = build_task_result(1) [OF b]
  have m: "moves fl ({}, w) ({}, w1)" unfolding w1 using mv_seq [OF seq, of fl "{}"] by (rule moves_one)
  show ?thesis
  proof (cases "\<exists>t s. r = Inr t \<and> store_save (w_store w1) (w_now w1) t = Inr s")
    case True
    then obtain t s where t: "r = Inr t" "store_save (w_store w1) (w_now w1) t = Inr s" by blast
    from build_task_result(2) [OF b t(1)] t(2)
    have "moves fl ({}, w) ({}, sched_track (w\<lparr>w_seq := w_seq w + 1, w_store := s\<rparr>) t)"
      by (intro register_moves [OF inv seq, where now = "w_now w"]) (auto simp: w1)
    from audit_action_moves [OF this] show ?thesis
      using Some b t by (simp add: api_register_task_def w1)
  next
    case False
    then have "fst (api_register_task parse_time he w nano decoded) = w1"
      using Some b by (auto simp: api_register_task_def split: sum.splits)
    with m show ?thesis by simp
  qed
qed (simp add: api_register_task_def)

subsection \<open>Batches\<close>

text \<open>Tasks that can be saved one after the other: new and pairwise different.\<close>

definition fresh_batch :: "'r stack \<Rightarrow> task list \<Rightarrow> bool" where
  "fresh_batch w ts \<longleftrightarrow> (\<forall>t \<in> set ts. fresh_task w t) \<and> distinct (map task_id ts)"

lemma seq_moves:
  "unat (w_seq w) + n < 2 ^ 64 \<Longrightarrow> moves fl (H, w) (H, w\<lparr>w_seq := w_seq w + of_nat n\<rparr>)"
proof (induction n)
  case (Suc n)
  let ?w = "w\<lparr>w_seq := w_seq w + of_nat n\<rparr>"
  have m: "moves fl (H, w) (H, ?w)" using Suc by simp
  have "unat (w_seq ?w) = unat (w_seq w) + n"
    using Suc.prems by (simp add: unat_word_ariths unat_of_nat)
  then have "move fl (H, ?w) (H, ?w\<lparr>w_seq := w_seq ?w + 1\<rparr>)" using Suc.prems by (intro mv_seq) simp
  with m show ?case by (auto simp: algebra_simps intro: rtranclp.rtrancl_into_rtrancl)
qed simp

lemma build_batch_result:
  assumes "build_batch parse_time w nanos reqs = (w', r)" and "unat (w_seq w) + length reqs < 2 ^ 64"
  shows "\<exists>n \<le> length reqs. w' = w\<lparr>w_seq := w_seq w + of_nat n\<rparr> \<and> unat (w_seq w') = unat (w_seq w) + n \<and>
    (\<forall>ts. r = Inr ts \<longrightarrow> distinct (map task_id ts) \<and>
       (\<forall>t \<in> set ts. issued (w_seq w') ''task'' (task_id t) \<and> \<not> issued (w_seq w) ''task'' (task_id t) \<and>
          state t = StatePending \<and> retries_left t = max_retries t))"
  using assms
proof (induction reqs arbitrary: w nanos w' r)
  case (Cons req reqs)
  obtain w1 r1 where b: "build_task parse_time w (nanos 0) req = (w1, r1)" by fastforce
  have seq: "unat (w_seq w) + 1 < 2 ^ 64" using Cons.prems(2) by simp
  note w1 = build_task_result(1) [OF b]
  have u1: "unat (w_seq w1) = unat (w_seq w) + 1" using unat_seq_next [OF seq] by (simp add: w1)
  show ?case
  proof (cases r1)
    case (Inl e)
    with Cons.prems(1) b u1 show ?thesis by (intro exI [of _ 1]) (auto simp: w1)
  next
    case (Inr t)
    obtain w2 r2 where b2: "build_batch parse_time w1 (\<lambda>k. nanos (Suc k)) reqs = (w2, r2)" by fastforce
    have room: "unat (w_seq w1) + length reqs < 2 ^ 64" using Cons.prems(2) u1 by simp
    note t = build_task_result(2) [OF b Inr]
    from Cons.IH [OF b2 room] obtain n where n: "n \<le> length reqs" "w2 = w1\<lparr>w_seq := w_seq w1 + of_nat n\<rparr>"
      "unat (w_seq w2) = unat (w_seq w1) + n"
      and ts: "\<And>ts. r2 = Inr ts \<Longrightarrow> distinct (map task_id ts) \<and>
       (\<forall>t \<in> set ts. issued (w_seq w2) ''task'' (task_id t) \<and> \<not> issued (w_seq w1) ''task'' (task_id t) \<and>
          state t = StatePending \<and> retries_left t = max_retries t)" by blast
    have w': "w' = w2" using Cons.prems(1) b b2 Inr by (auto split: sum.splits)
    have w2: "w2 = w\<lparr>w_seq := w_seq w + of_nat (Suc n)\<rparr>" "unat (w_seq w2) = unat (w_seq w) + Suc n"
      using n u1 by (simp_all add: w1)
    have iss: "issued (w_seq w1) ''task'' (task_id t)" "\<not> issued (w_seq w) ''task'' (task_id t)"
      using t issued_next [OF seq, of "''task''" "nanos 0" "w_seq w + 1" "task_id t"]
        issued_fresh [of "w_seq w" "''task''" "task_id t" "nanos 0"] by (auto simp: w1)
    have up: "issued (w_seq w2) ''task'' i" if "issued (w_seq w1) ''task'' i" for i
      using that by (rule issued_mono) (simp add: n(3))
    have old: "\<not> issued (w_seq w) ''task'' i" if "\<not> issued (w_seq w1) ''task'' i" for i
      using that issued_mono [of "w_seq w" "''task''" i "w_seq w1"] u1 by auto
    have "distinct (map task_id us) \<and>
       (\<forall>u \<in> set us. issued (w_seq w2) ''task'' (task_id u) \<and> \<not> issued (w_seq w) ''task'' (task_id u) \<and>
          state u = StatePending \<and> retries_left u = max_retries u)" if r: "r = Inr us" for us
    proof -
      obtain us' where us: "r2 = Inr us'" "us = t # us'"
        using r Cons.prems(1) b b2 Inr by (auto split: sum.splits)
      note ts = ts [OF us(1)]
      have "\<not> issued (w_seq w1) ''task'' (task_id u)" if "u \<in> set us'" for u using ts that by blast
      with iss(1) have "task_id t \<notin> task_id ` set us'" by (metis imageE)
      with ts t iss up old us(2) show ?thesis by simp
    qed
    then show ?thesis
      using n(1) w2 by (intro exI [of _ "Suc n"]) (simp add: w')
  qed
qed (intro exI [of _ 0], auto)

text \<open>Deleting the tasks that a refused batch has saved.\<close>

lemma delete_saved_Inr: "store_delete (w_store w) i = Inr s \<Longrightarrow> delete_saved w i = w\<lparr>w_store := s\<rparr>"
  by (simp add: delete_saved_def)

definition saved_pending :: "'r stack \<Rightarrow> string list \<Rightarrow> bool" where
  "saved_pending w is \<longleftrightarrow> distinct is \<and>
     (\<forall>i \<in> set is. case tasks_of w i of None \<Rightarrow> False | Some t \<Rightarrow> state t = StatePending \<and> retries_left t = max_retries t)"

lemma delete_saved_moves:
  "saved_pending w is \<Longrightarrow> set is \<inter> snd fl = {} \<Longrightarrow> moves fl (H, w) (H, foldl delete_saved w is)"
proof (induction "is" arbitrary: w)
  case (Cons i "is")
  obtain t where t: "tasks_of w i = Some t" "state t = StatePending" "retries_left t = max_retries t"
    using Cons.prems by (auto simp: saved_pending_def split: option.splits)
  obtain s where s: "store_delete (w_store w) i = Inr s" using t(1) by (auto simp: store_delete_def)
  let ?w = "w\<lparr>w_store := s\<rparr>"
  have "i \<notin> snd fl" using Cons.prems(2) by simp
  with t s have "move fl (H, w) (H, ?w)" by (rule mv_unregister)
  moreover have "saved_pending ?w is" using Cons.prems(1) deleted_tasks [OF s] by (auto simp: saved_pending_def)
  from Cons.IH [OF this] Cons.prems(2) have "moves fl (H, ?w) (H, foldl delete_saved w (i # is))"
    by (simp add: delete_saved_Inr [OF s])
  ultimately show ?case by (rule converse_rtranclp_into_rtranclp)
qed simp

lemma save_batch_moves:
  "fresh_batch w ts \<Longrightarrow> saved_pending w saved \<Longrightarrow> set saved \<inter> task_id ` set ts = {} \<Longrightarrow>
   set saved \<inter> snd fl = {} \<Longrightarrow> task_id ` set ts \<inter> snd fl = {} \<Longrightarrow> moves fl (H, w) (H, fst (save_batch w saved ts))"
proof (induction ts arbitrary: w saved)
  case (Cons t ts)
  show ?case
  proof (cases "store_save (w_store w) (w_now w) t")
    case (Inl e)
    with delete_saved_moves [OF Cons.prems(2,4)] show ?thesis by simp
  next
    case (Inr s)
    let ?w = "sched_track (w\<lparr>w_store := s\<rparr>) t"
    have t: "fresh_task w t" using Cons.prems(1) by (simp add: fresh_batch_def)
    have tasks: "tasks_of ?w = (tasks_of w)(task_id t \<mapsto> t\<lparr>version := 1, created_at := w_now w, updated_at := w_now w\<rparr>)"
      using saved_new_tasks [OF Inr] t by (simp add: fresh_task_def)
    have other: "task_id t \<notin> task_id ` set ts"
      using Cons.prems(1) by (simp add: fresh_batch_def)
    then have "task_id u \<noteq> task_id t" if "u \<in> set ts" for u using that by (metis image_eqI)
    then have "fresh_batch ?w ts" using Cons.prems(1) tasks by (simp add: fresh_batch_def fresh_task_def)
    moreover have "saved_pending ?w (saved @ [task_id t])"
      using Cons.prems(2,3) tasks t by (auto simp: saved_pending_def fresh_task_def)
    moreover have "set (saved @ [task_id t]) \<inter> task_id ` set ts = {}" using Cons.prems(3) other by auto
    ultimately have "moves fl (H, ?w) (H, fst (save_batch ?w (saved @ [task_id t]) ts))"
      using Cons.prems(4,5) by (intro Cons.IH) auto
    with save_fresh_move [OF t Inr, of fl H] Inr show ?thesis by (simp add: converse_rtranclp_into_rtranclp)
  qed
qed simp

lemma audit_fold_moves: "moves fl x (H, w) \<Longrightarrow> moves fl x (H, foldl (\<lambda>w i. audit_action he w a i) w is)"
  by (induction "is" arbitrary: w) (simp_all add: audit_action_moves)

lemma api_register_batch_moves:
  assumes inv: "stack_inv w" and seq: "\<And>reqs. decoded = Some reqs \<Longrightarrow> unat (w_seq w) + length reqs < 2 ^ 64"
    and keep: "snd fl \<subseteq> dom (tasks_of w)"
  shows "moves fl ({}, w) ({}, fst (api_register_batch parse_time he w nanos decoded))"
proof (cases "\<exists>reqs. decoded = Some reqs \<and> \<not> (reqs = [] \<or> cf_max_batch_size (he_cfg he) < int (length reqs))")
  case True
  then obtain reqs where d: "decoded = Some reqs" "\<not> (reqs = [] \<or> cf_max_batch_size (he_cfg he) < int (length reqs))"
    by blast
  obtain w1 r where b: "build_batch parse_time w nanos reqs = (w1, r)" by fastforce
  from build_batch_result [OF b seq [OF d(1)]] obtain n where n: "n \<le> length reqs"
    "w1 = w\<lparr>w_seq := w_seq w + of_nat n\<rparr>"
    and ts: "\<And>ts. r = Inr ts \<Longrightarrow> distinct (map task_id ts) \<and>
       (\<forall>t \<in> set ts. issued (w_seq w1) ''task'' (task_id t) \<and> \<not> issued (w_seq w) ''task'' (task_id t) \<and>
          state t = StatePending \<and> retries_left t = max_retries t)" by blast
  have m: "moves fl ({}, w) ({}, w1)" unfolding n(2) using n(1) seq [OF d(1)] by (intro seq_moves) simp
  show ?thesis
  proof (cases r)
    case (Inl e)
    with d b m show ?thesis by (simp add: api_register_batch_def)
  next
    case (Inr ts)
    have none: "tasks_of w1 (task_id t) = None" if "t \<in> set ts" for t
      using ts [OF Inr] that stack_invD(5) [OF inv] by (auto simp: ids_ok_def n(2))
    have fresh: "fresh_batch w1 ts" using ts [OF Inr] none by (simp add: fresh_batch_def fresh_task_def)
    have s: "moves fl ({}, w1) ({}, fst (save_batch w1 [] ts))"
      using fresh none keep by (intro save_batch_moves) (force simp: saved_pending_def n(2))+
    obtain w2 o2 where o2: "save_batch w1 [] ts = (w2, o2)" by fastforce
    from m s o2 have m2: "moves fl ({}, w) ({}, w2)" by simp
    show ?thesis
    proof (cases o2)
      case (Inr saved)
      have "fst (api_register_batch parse_time he w nanos decoded) =
          foldl (\<lambda>w i. audit_action he w ''register-batch'' i) w2 saved"
        using d b o2 \<open>r = Inr ts\<close> Inr by (simp add: api_register_batch_def)
      with audit_fold_moves [OF m2] show ?thesis by simp
    qed (use d b o2 Inr m2 in \<open>simp add: api_register_batch_def\<close>)
  qed
next
  case False
  then have "fst (api_register_batch parse_time he w nanos decoded) = w"
    by (auto simp: api_register_batch_def split: option.splits)
  then show ?thesis by simp
qed

section \<open>The control plane\<close>

lemma api_trigger_moves:
  assumes "stack_inv w"
  shows "moves fl ({}, w) ({}, fst (api_trigger_now he w decoded))"
  using sched_trigger_moves [OF assms, of fl _ "w_now w"]
  by (auto simp: api_trigger_now_def split: option.splits prod.splits intro!: audit_action_moves)
    (metis fst_conv)+

lemma api_cancel_moves: "moves fl ({}, w) ({}, fst (api_cancel he w decoded))"
  using sched_cancel_moves [of fl w]
  by (auto simp: api_cancel_def split: option.splits prod.splits intro!: audit_action_moves)
    (metis fst_conv)+

lemma api_update_cron_moves: "moves fl (H, w) (H, fst (api_update_cron he w decoded))"
proof (cases "\<exists>i expr sch t0 s. decoded = Some (i, expr) \<and> trim_space i \<noteq> '''' \<and> cron_parse expr = Inr sch \<and>
    tasks_of w i = Some t0 \<and> kind (trigger t0) = ''cron'' \<and>
    store_save (w_store w) (w_now w) (t0\<lparr>trigger := (trigger t0)\<lparr>cron_expr := expr\<rparr>,
      next_run_at := cron_next (w_loc w) sch (w_now w)\<rparr>) = Inr s")
  case True
  then obtain i expr sch t0 s where t: "decoded = Some (i, expr)" "trim_space i \<noteq> ''''" "cron_parse expr = Inr sch"
    "tasks_of w i = Some t0" "kind (trigger t0) = ''cron''"
    "store_save (w_store w) (w_now w) (t0\<lparr>trigger := (trigger t0)\<lparr>cron_expr := expr\<rparr>,
      next_run_at := cron_next (w_loc w) sch (w_now w)\<rparr>) = Inr s" by blast
  from mv_update_cron [OF t(4) refl t(6), of fl H]
  have "moves fl (H, w) (H, sched_refresh_cron (w\<lparr>w_store := s\<rparr>) (t0\<lparr>trigger := (trigger t0)\<lparr>cron_expr := expr\<rparr>,
      next_run_at := cron_next (w_loc w) sch (w_now w)\<rparr>))"
    by (simp add: sched_track_def sched_refresh_cron_def moves_one)
  from audit_action_moves [OF this] t show ?thesis by (simp add: api_update_cron_def store_get_def Let_def)
next
  case False
  then have "fst (api_update_cron he w decoded) = w"
    by (auto simp: api_update_cron_def store_get_def Let_def split: option.splits sum.splits)
  then show ?thesis by simp
qed

lemma registry_moves: "moves fl (H, w) (H, w\<lparr>w_registry := r\<rparr>)"
  by (rule moves_frame) (simp add: same_core_def)

lemma api_register_worker_moves: "moves fl (H, w) (H, fst (api_register_worker he w decoded))"
  by (auto simp: api_register_worker_def split: option.splits sum.splits intro!: audit_action_moves registry_moves)

lemma renew_all_moves: "stack_inv w \<Longrightarrow> moves fl ({}, w) ({}, foldl (renew_all worker now) w ls)"
proof (induction ls arbitrary: w)
  case (Cons l ls)
  let ?w = "renew_all worker now w l"
  have m: "moves fl ({}, w) ({}, ?w)" using lease_renew_moves [OF Cons.prems] by (simp add: renew_all_def)
  from rtranclp_trans [OF m Cons.IH [OF moves_inv [OF m Cons.prems]]] show ?case by simp
qed simp

lemma api_heartbeat_moves:
  assumes inv: "stack_inv w"
  shows "moves fl ({}, w) ({}, fst (api_heartbeat w its decoded))"
proof (cases "\<exists>i r. decoded = Some i \<and> trim_space i \<noteq> '''' \<and> registry_heartbeat (w_registry w) i (w_now w) = Inr r")
  case True
  then obtain i r where r: "decoded = Some i" "trim_space i \<noteq> ''''" "registry_heartbeat (w_registry w) i (w_now w) = Inr r"
    by blast
  let ?w = "w\<lparr>w_registry := r\<rparr>"
  have m: "moves fl ({}, w) ({}, ?w)" by (rule registry_moves)
  have "fst (api_heartbeat w its decoded) = foldl (renew_all i (w_now w)) ?w (lease_by_worker ?w its i)"
    using r by (simp add: api_heartbeat_def Let_def)
  with rtranclp_trans [OF m renew_all_moves [OF moves_inv [OF m inv]]] show ?thesis by simp
next
  case False
  then have "fst (api_heartbeat w its decoded) = w"
    by (auto simp: api_heartbeat_def split: option.splits sum.splits)
  then show ?thesis by simp
qed

lemma purge_filters: "\<exists>P. records_of (fst (foldl (purge_task cutoff) (r, n) its)) i = filter P (records_of r i)"
proof (induction its arbitrary: r n)
  case Nil
  show ?case by (intro exI [of _ "\<lambda>_. True"]) simp
next
  case (Cons j its)
  obtain r1 n1 where p: "purge_task cutoff (r, n) j = (r1, n1)" by fastforce
  then have "\<exists>P. records_of r1 i = filter P (records_of r i)"
    by (cases "i = j")
      (auto simp: purge_task_def records_of_def Let_def split: if_splits option.splits
        intro: exI [of _ "\<lambda>_. True"] exI [of _ "\<lambda>_. False"])
  then obtain P where P: "records_of r1 i = filter P (records_of r i)" ..
  from Cons.IH [of r1 n1] obtain Q where "records_of (fst (foldl (purge_task cutoff) (r1, n1) its)) i = filter Q (records_of r1 i)" ..
  with P p show ?case by (intro exI [of _ "\<lambda>x. P x \<and> Q x"]) (simp add: conj_commute)
qed

lemma purge_moves: "moves fl (H, w) (H, w\<lparr>w_records := fst (records_purge_before (w_records w) its cutoff)\<rparr>)"
  unfolding records_purge_before_def by (intro moves_one mv_purge purge_filters)

lemma api_purge_moves: "moves fl (H, w) (H, fst (api_purge_records parse_time format_time he w its decoded))"
  using purge_moves [of fl H w its]
  by (auto simp: api_purge_records_def split: option.splits prod.splits intro!: audit_action_moves) (metis fst_conv)

lemma main_heartbeat_moves: "moves fl (H, w) (H, main_heartbeat w)"
  by (auto simp: main_heartbeat_def split: sum.splits intro!: registry_moves)

lemma main_tick_moves:
  assumes inv: "stack_inv w"
  shows "moves (True, P) ({}, w) ({}, main_tick w its1 its2)"
proof -
  obtain w1 n where t: "sched_tick w its1 (w_now w) = (w1, n)" by fastforce
  obtain w2 rs where r: "lease_reap_expired w1 its2 (w_now w1) = (w2, rs)" by fastforce
  have m: "moves (True, P) ({}, w) ({}, w1)" using sched_tick_moves [OF inv, of "(True, P)" its1 "w_now w"] t by simp
  from rtranclp_trans [OF m lease_reap_moves [OF moves_inv [OF m inv]], of its2 "w_now w1"] t r
  show ?thesis by (simp add: main_tick_def)
qed

end
