(* ===== verification/System.thy ===== *)
theory System
  imports Operations
begin

text \<open>
  The system as a transition relation: one step per operation that the harness, the loops of
  the service or the control plane call, in any order, with any arguments, any iteration
  order of the maps, any reading of the wall clock and any clock advance in between. The
  execution of a task is split around its handler, so that anything can happen while the
  handler runs; a result may be reported for any lease at any time. \<open>Restore\<close> is left out,
  which replaces the tasks under the feet of the queues. The generator's counter must not
  wrap, which takes 2^64 identifiers.
\<close>

section \<open>Steps\<close>

definition room :: "'r stack \<Rightarrow> nat \<Rightarrow> bool" where
  "room w n \<longleftrightarrow> unat (w_seq w) + n < 2 ^ 64"

inductive sys_step :: "wiring \<Rightarrow> wiring \<Rightarrow> bool" where
  st_advance: "sys_step w (clock_advance w d)"
| st_tick: "sys_step w (fst (sched_tick w its now))"
| st_reap: "sys_step w (fst (lease_reap_expired w its now))"
| st_assign: "room w 1 \<Longrightarrow> sys_step w (fst (lease_assign registry_pick w now nano))"
| st_begin: "room w 1 \<Longrightarrow> sys_step w (fst (executor_begin registry_pick w nano))"
| st_finish: "room w 1 \<Longrightarrow> sys_step w (fst (executor_finish w l started outcome nano stamp))"
| st_result: "room w 1 \<Longrightarrow> sys_step w (fst (record_result w l status message started finished nano stamp))"
| st_renew: "sys_step w (fst (lease_renew w k worker now))"
| st_release: "sys_step w (lease_release w k)"
| st_trigger: "sys_step w (fst (sched_trigger_now w i now))"
| st_cancel: "sys_step w (fst (sched_cancel w i))"
| st_once: "room w 1 \<Longrightarrow> harness_register_once w nano name at prio retries = Some (w', t) \<Longrightarrow> sys_step w w'"
| st_cron: "room w 1 \<Longrightarrow> harness_register_cron w nano name expr prio retries = Some (w', t) \<Longrightarrow> sys_step w w'"
| st_api_register: "room w 1 \<Longrightarrow> sys_step w (fst (api_register_task parse_time he w nano decoded))"
| st_api_batch: "(case decoded of None \<Rightarrow> True | Some reqs \<Rightarrow> room w (length reqs)) \<Longrightarrow>
     sys_step w (fst (api_register_batch parse_time he w nanos decoded))"
| st_api_trigger: "sys_step w (fst (api_trigger_now he w req))"
| st_api_cancel: "sys_step w (fst (api_cancel he w req))"
| st_api_update_cron: "sys_step w (fst (api_update_cron he w upd))"
| st_api_worker: "sys_step w (fst (api_register_worker he w upd))"
| st_api_heartbeat: "sys_step w (fst (api_heartbeat w its req))"
| st_api_purge: "sys_step w (fst (api_purge_records parse_time format_time he w its req))"
| st_main_heartbeat: "sys_step w (main_heartbeat w)"

inductive sys_start :: "wiring \<Rightarrow> bool" where
  "sys_start (harness_new_with loc at ttl window delay)"
| "sys_start (main_wiring loc at)"

abbreviation sys_steps :: "wiring \<Rightarrow> wiring \<Rightarrow> bool" where
  "sys_steps \<equiv> sys_step\<^sup>*\<^sup>*"

inductive sys_reachable :: "wiring \<Rightarrow> bool" where
  "sys_start w0 \<Longrightarrow> sys_steps w0 w \<Longrightarrow> sys_reachable w"

section \<open>The steps are runs of moves\<close>

lemma clock_advance_moves: "moves fl (H, w) (H, clock_advance w d)"
  by (rule moves_frame) (simp add: same_core_def clock_advance_def)

text \<open>Every step but the reaper's makes no requeueing move; none deletes a task that was there.\<close>

lemma sys_step_cases:
  assumes "sys_step w w'" and inv: "stack_inv w" and keep: "P \<subseteq> dom (tasks_of w)"
  shows "moves (False, P) ({}, w) ({}, w') \<or> (\<exists>its now. w' = fst (lease_reap_expired w its now))"
  using assms(1)
proof cases
  case (st_reap its now)
  then show ?thesis by blast
next
  case (st_api_batch decoded parse_time he nanos)
  have "moves (False, P) ({}, w) ({}, fst (api_register_batch parse_time he w nanos decoded))"
    using st_api_batch(2) keep by (intro api_register_batch_moves [OF inv]) (simp_all add: room_def)
  with st_api_batch(1) show ?thesis by simp
qed (use inv in \<open>auto simp: room_def intro: clock_advance_moves sched_tick_moves lease_assign_moves executor_begin_moves
  executor_finish_moves record_result_moves lease_renew_moves lease_release_moves sched_trigger_moves sched_cancel_moves
  harness_register_once_moves harness_register_cron_moves api_register_task_moves api_trigger_moves api_cancel_moves
  api_update_cron_moves api_register_worker_moves api_heartbeat_moves api_purge_moves main_heartbeat_moves\<close>)

lemma move_allow: "move fl x y \<Longrightarrow> snd fl' \<subseteq> snd fl \<Longrightarrow> fst fl' \<Longrightarrow> move fl' x y"
  by (induction rule: move.induct) (rule move.intros; (assumption | blast))+

lemma moves_allow: "moves fl x y \<Longrightarrow> snd fl' \<subseteq> snd fl \<Longrightarrow> fst fl' \<Longrightarrow> moves fl' x y"
  by (rule mono_rtranclp [rule_format, of "move fl" "move fl'"]) (simp_all add: move_allow)

lemma sys_step_moves:
  assumes "sys_step w w'" and inv: "stack_inv w" and "P \<subseteq> dom (tasks_of w)"
  shows "moves (True, P) ({}, w) ({}, w')"
  using sys_step_cases [OF assms] lease_reap_moves [OF inv, of P] moves_allow [of "(False, P)" _ _ "(True, P)"] by auto

text \<open>Tasks that may not be deleted stay.\<close>

lemma move_keeps_dom:
  assumes "move fl (H, w) (H', w')" and inv: "store_inv (w_store w)"
  shows "snd fl \<inter> dom (tasks_of w) \<subseteq> dom (tasks_of w')"
  using assms(1)
proof cases
  case mv_frame
  then show ?thesis by (simp add: same_core_def)
next
  case (mv_register t now s)
  with saved_new_tasks [OF mv_register(7,4)] show ?thesis by auto
next
  case (mv_unregister i t s)
  with deleted_tasks [OF mv_unregister(6)] show ?thesis by auto
next
  case (mv_update_cron i t0 t nxt tr now s)
  with cron_saved_tasks(1) [OF inv mv_update_cron(3), of now nxt tr s] show ?thesis by auto
qed auto

lemma moves_keep_dom:
  assumes "moves fl (H, w) (H', w')" and "stack_inv_with H w"
  shows "snd fl \<inter> dom (tasks_of w) \<subseteq> dom (tasks_of w')"
  using assms(1)
proof (induction "(H', w')" arbitrary: H' w' rule: rtranclp_induct)
  case (step y)
  obtain H1 w1 where y: "y = (H1, w1)" by (cases y)
  have "stack_inv_with H1 w1" using moves_inv [OF step(1) [unfolded y] assms(2)] .
  from move_keeps_dom [OF step(2) [unfolded y] stack_invD(1) [OF this]] step(3) [OF y] show ?case by blast
qed simp

lemma sys_steps_moves:
  assumes "sys_steps w w'" and "stack_inv w" and "P \<subseteq> dom (tasks_of w)"
  shows "moves (True, P) ({}, w) ({}, w') \<and> stack_inv w' \<and> P \<subseteq> dom (tasks_of w')"
  using assms(1)
proof (induction rule: rtranclp_induct)
  case (step y z)
  then have m: "moves (True, P) ({}, w) ({}, y)" and inv: "stack_inv y" and dom: "P \<subseteq> dom (tasks_of y)" by simp_all
  note s = sys_step_moves [OF step(2) inv dom]
  from rtranclp_trans [OF m s] moves_inv [OF s inv] moves_keep_dom [OF s inv] dom show ?case by auto
qed (use assms in simp_all)

lemma stack_inv_new: "stack_inv (harness_new_with loc at ttl window delay)"
  by (auto simp: harness_new_with_def stack_inv_with_def lease_table_new_def sched_new_def store_inv_new [unfolded store_new_def] queues_ok_def rq.inv_new dq.inv_new
      rq.queued_new dq.queued_new has_state_def tracked_ok_def leases_ok_def ids_ok_def records_ok_alt records_fit_def
      budget_def successes_def records_of_def records_new_def store_new_def)

lemma stack_inv_frame: "stack_inv_with H w \<Longrightarrow> same_core w w' \<Longrightarrow> stack_inv_with H w'"
  using move_inv [OF mv_frame] by blast

lemma sys_start_inv: "sys_start w \<Longrightarrow> stack_inv w"
proof (induction rule: sys_start.induct)
  case (2 loc at)
  let ?w = "harness_new_with loc at (cf_lease_ttl config_default) (cf_heartbeat_window config_default) (cf_retry_delay config_default)"
  have "same_core ?w (main_wiring loc at)" by (simp add: main_wiring_def same_core_def Let_def split: sum.splits)
  with stack_inv_new show ?case by (rule stack_inv_frame)
qed (rule stack_inv_new)

lemma reachable_inv: "sys_reachable w \<Longrightarrow> stack_inv w"
  by (auto elim!: sys_reachable.cases dest: sys_start_inv sys_steps_moves [where P = "{}"])

lemma reachable_steps: "sys_reachable w \<Longrightarrow> sys_steps w w' \<Longrightarrow> sys_reachable w'"
  by (auto elim!: sys_reachable.cases intro: sys_reachable.intros rtranclp_trans)

lemma reachable_step: "sys_reachable w \<Longrightarrow> sys_step w w' \<Longrightarrow> sys_reachable w'"
  by (rule reachable_steps) auto

end
