(* ===== verification/Demo.thy ===== *)
theory Demo
  imports System
begin

text \<open>
  A small run of the service: its one worker, one task that is registered, becomes due, is
  leased and succeeds. The witnesses of the system's properties are taken along it. The
  identifiers are left as the calls that make them.
\<close>

definition demo_id :: string where
  "demo_id = snd (id_next 0 ''task'' 7)"

definition demo_key :: string where
  "demo_key = snd (id_next 1 ''lease'' 8)"

lemma demo_id_next: "id_next 0 ''task'' 7 = (1, demo_id)"
  by (rule prod_eqI) (simp_all add: demo_id_def)

lemma demo_key_next: "id_next 1 ''lease'' 8 = (2, demo_key)"
  by (rule prod_eqI) (simp_all add: demo_key_def)

lemma demo_id_nonempty: "demo_id \<noteq> ''''"
  by (simp add: demo_id_def id_next_def Let_def)

definition demo_job :: task where
  "demo_job = \<lparr>task_id = demo_id, task_name = ''job'', task_handler = ''echo'', payload = ''payload'', priority = 1,
     timeout = 5 * second_ns, max_retries = 2, retries_left = 2, state = StatePending, version = 0, next_run_at = 10,
     created_at = zero_time, updated_at = zero_time, last_attempt_at = zero_time, attempt_count = 0,
     trigger = \<lparr>kind = ''once'', run_at = 10, cron_expr = ''''\<rparr>\<rparr>"

definition demo_pending :: wiring where
  "demo_pending = fst (the (harness_register_once (main_wiring utc 0) 7 ''job'' 10 1 2))"

definition demo_ready_stack :: wiring where
  "demo_ready_stack = fst (sched_tick demo_pending [demo_id] 20)"

definition demo_leased :: wiring where
  "demo_leased = fst (lease_assign registry_pick demo_ready_stack 20 8)"

lemma main_wiring_fields:
  "tasks_of (main_wiring loc at) = Map.empty" "w_seq (main_wiring loc at) = 0"
  "ts_by_name (w_store (main_wiring loc at)) = Map.empty" "w_now (main_wiring loc at) = at"
  "w_next_fire (main_wiring loc at) = Map.empty" "w_ready (main_wiring loc at) = ready_new"
  "w_delayed (main_wiring loc at) = delayed_new"
  "w_leases (main_wiring loc at) = \<lparr>lt_leases = Map.empty, lt_by_task = Map.empty\<rparr>"
  "w_records (main_wiring loc at) = Map.empty" "w_ttl (main_wiring loc at) = 30 * second_ns"
  by (simp_all add: main_wiring_def harness_new_with_def lease_table_new_def sched_new_def store_new_def records_new_def config_default_def Let_def split: sum.splits)

lemma demo_registered:
  "harness_register_once (main_wiring utc 0) 7 ''job'' 10 1 2 = Some (demo_pending, demo_job)"
proof -
  have "\<exists>w. harness_register_once (main_wiring utc 0) 7 ''job'' 10 1 2 = Some (w, demo_job)"
    by (simp add: harness_register_once_def Let_def main_wiring_fields demo_id_next store_save_def demo_id_nonempty
        demo_job_def)
  then show ?thesis by (auto simp: demo_pending_def)
qed

lemma demo_pending_reachable: "sys_reachable demo_pending"
proof (rule sys_reachable.intros)
  show "sys_start (main_wiring utc 0)" by (rule sys_start.intros)
  show "sys_steps (main_wiring utc 0) demo_pending"
    by (rule r_into_rtranclp, rule st_once [OF _ demo_registered]) (simp add: room_def main_wiring_fields)
qed

lemma demo_ready_reachable: "sys_reachable demo_ready_stack"
  unfolding demo_ready_stack_def by (rule reachable_step [OF demo_pending_reachable]) (rule st_tick)

definition demo_born :: task where
  "demo_born = demo_job\<lparr>version := 1, created_at := 0, updated_at := 0\<rparr>"

lemma demo_pending_fields:
  "tasks_of demo_pending = [demo_id \<mapsto> demo_born]" "w_seq demo_pending = 1" "w_now demo_pending = 0"
  "w_next_fire demo_pending = [demo_id \<mapsto> 10]" "w_ready demo_pending = ready_new" "w_delayed demo_pending = delayed_new"
  "w_registry demo_pending = w_registry (main_wiring utc 0)" "w_leases demo_pending = w_leases (main_wiring utc 0)"
  "w_ttl demo_pending = w_ttl (main_wiring utc 0)" "w_records demo_pending = w_records (main_wiring utc 0)"
  by (simp_all add: demo_pending_def harness_register_once_def Let_def main_wiring_fields demo_id_next store_save_def
      demo_id_nonempty demo_job_def demo_born_def sched_track_def)

lemma demo_pending_names: "ts_by_name (w_store demo_pending) = [''job'' \<mapsto> demo_id]"
  by (simp add: demo_pending_def harness_register_once_def Let_def main_wiring_fields demo_id_next store_save_def
      demo_id_nonempty demo_job_def)

lemma demo_worker:
  "registry_pick (w_registry (main_wiring utc 0)) 20 =
   Inr \<lparr>node_id = ''worker-1'', node_address = ''localhost:18090'', last_heartbeat = 0, registered_at = 0, generation = 1\<rparr>"
  by (simp add: main_wiring_def main_worker_def harness_new_with_def registry_register_def registry_new_def registry_pick_def
      pick_node_def Let_def config_default_def second_ns_def)

definition demo_due :: task where
  "demo_due = moved demo_born StateReady 0"

lemma demo_ready_fields:
  "tasks_of demo_ready_stack = [demo_id \<mapsto> demo_due]" "w_seq demo_ready_stack = 1" "w_now demo_ready_stack = 0"
  "w_registry demo_ready_stack = w_registry (main_wiring utc 0)" "w_delayed demo_ready_stack = delayed_new"
  "w_ready demo_ready_stack = fst (ready_push ready_new demo_id 1 20)"
  "w_leases demo_ready_stack = w_leases (main_wiring utc 0)"
  "w_ttl demo_ready_stack = w_ttl (main_wiring utc 0)" "w_records demo_ready_stack = w_records (main_wiring utc 0)"
  by (simp_all add: demo_ready_stack_def sched_tick_def tick_due_def demo_pending_fields tick_pending_def tick_cron_def
      store_get_def store_mark_ready_def Let_def delayed_pop_due_def delayed_new_def delayed_pop_loop.simps
      demo_due_def demo_born_def demo_job_def moved_def push_ready_def)

definition demo_lease :: lease where
  "demo_lease = \<lparr>lease_id = demo_key, lease_task_id = demo_id, lease_worker_id = ''worker-1'', lease_task_version = 3,
     lease_deadline = 20 + 30 * second_ns, lease_created_at = 20\<rparr>"

lemma demo_pop:
  "ready_pop (fst (ready_push ready_new i p at)) =
   (ready_new, Some \<lparr>re_task_id = i, re_priority = p, re_enqueued_at = at, re_index = - 1\<rparr>)"
  by (simp add: ready_push_def ready_new_def ready_pop_def heap_push_def heap_pop_def ready_heap_def ready_heap_push_def
      ready_heap_pop_def ready_swap_def heap_up.simps heap_down_def heap_down_loop.simps Let_def)

lemma demo_assigned: "lease_assign registry_pick demo_ready_stack 20 8 = (demo_leased, Inr demo_lease)"
proof -
  have "\<exists>w. lease_assign registry_pick demo_ready_stack 20 8 = (w, Inr demo_lease)"
    by (simp add: lease_assign.simps [of registry_pick demo_ready_stack] demo_ready_fields demo_pop store_transition_def
        Let_def demo_due_def demo_born_def demo_job_def moved_def demo_worker demo_key_next demo_lease_def main_wiring_fields)
  then show ?thesis by (auto simp: demo_leased_def)
qed

lemma demo_leased_reachable: "sys_reachable demo_leased"
  unfolding demo_leased_def by (rule reachable_step [OF demo_ready_reachable]) (rule st_assign, simp add: room_def demo_ready_fields)

definition demo_held :: task where
  "demo_held = moved demo_due StateLeased 0"

lemma demo_leased_fields:
  "tasks_of demo_leased = [demo_id \<mapsto> demo_held]" "w_seq demo_leased = 2" "w_now demo_leased = 0"
  "w_ready demo_leased = ready_new" "w_leases demo_leased = \<lparr>lt_leases = [demo_key \<mapsto> demo_lease], lt_by_task = [demo_id \<mapsto> demo_key]\<rparr>"
  "w_records demo_leased = Map.empty" "w_delayed demo_leased = delayed_new"
  by (simp_all add: demo_leased_def lease_assign.simps [of registry_pick demo_ready_stack] demo_ready_fields demo_pop
      store_transition_def Let_def demo_held_def demo_due_def demo_born_def demo_job_def moved_def demo_worker demo_key_next
      demo_lease_def main_wiring_fields lease_insert_def)

lemma demo_holds: "holds_lease demo_leased demo_id demo_key"
  by (simp add: holds_lease_def lease_current_def demo_leased_fields demo_lease_def demo_held_def demo_due_def demo_born_def)

definition demo_done :: wiring where
  "demo_done = fst (record_result demo_leased demo_lease ''success'' ''ok'' 20 30 9 ''s'')"

lemma demo_recorded: "\<exists>t. record_result demo_leased demo_lease ''success'' ''ok'' 20 30 9 ''s'' = (demo_done, Inr t)"
proof -
  have l: "lease_task_id demo_lease = demo_id" "lease_id demo_lease = demo_key" by (simp_all add: demo_lease_def)
  have "tasks_of demo_leased (lease_task_id demo_lease) = Some demo_held" by (simp add: l demo_leased_fields)
  from record_result_held [OF _ reachable_inv [OF demo_leased_reachable] this, of "''success''" "''ok''" 20 30 9 "''s''"]
  show ?thesis using demo_holds by (auto simp: demo_done_def l)
qed

lemma demo_done_step: "sys_step demo_leased demo_done"
  unfolding demo_done_def by (rule st_result) (simp add: room_def demo_leased_fields)

lemma demo_done_steps: "sys_steps demo_leased demo_done"
  using demo_done_step by (rule r_into_rtranclp)

section \<open>A run with a cron task\<close>

text \<open>A task identifier is not blank, so the control plane can name the task.\<close>

lemma wide_spaces_heads: "w \<in> set wide_spaces \<Longrightarrow> hd w \<noteq> CHR ''t''"
  by (auto simp: wide_spaces_def)

lemma last_space_width_part:
  assumes "s \<noteq> []" and "hd s = CHR ''t''"
  shows "last_space_width s < length s"
proof (cases "ascii_space (last s)")
  case True
  then have "length s \<noteq> 1" using assms by (cases s) (auto simp: ascii_space_def)
  with True assms show ?thesis by (cases s) (auto simp: last_space_width_def)
next
  case False
  show ?thesis
  proof (cases "find (\<lambda>w. length w \<le> length s \<and> drop (length s - length w) s = w) wide_spaces")
    case (Some w)
    then have w: "w \<in> set wide_spaces" "length w \<le> length s" "drop (length s - length w) s = w"
      by (auto simp: find_Some_iff)
    then have "length w \<noteq> length s" using wide_spaces_heads [OF w(1)] assms(2) by auto
    with w(2) show ?thesis using False Some by (simp add: last_space_width_def)
  qed (use False assms(1) in \<open>simp add: last_space_width_def\<close>)
qed

lemma trim_right_keeps: "s \<noteq> [] \<Longrightarrow> hd s = CHR ''t'' \<Longrightarrow> trim_right s \<noteq> []"
proof (induction s rule: trim_right.induct)
  case (1 s)
  show ?case
  proof (cases "last_space_width s = 0")
    case False
    have t: "take (length s - last_space_width s) s \<noteq> []" using last_space_width_part [OF 1(2,3)] 1(2) by simp
    then have "hd (take (length s - last_space_width s) s) = CHR ''t''" using 1(3) by (metis hd_take take_eq_Nil neq0_conv)
    with 1(1) [OF False t] show ?thesis by (simp add: trim_right.simps [of s] False)
  qed (use 1 in \<open>simp add: trim_right.simps [of s]\<close>)
qed

lemma demo_id_not_blank: "trim_space demo_id \<noteq> ''''"
proof -
  obtain r where r: "demo_id = CHR ''t'' # r" by (simp add: demo_id_def id_next_def Let_def)
  have "space_width demo_id = 0"
    by (simp add: r space_width_def ascii_space_def wide_spaces_def)
  then have "trim_left demo_id = demo_id" by (simp add: trim_left.simps [of demo_id])
  then show ?thesis using trim_right_keeps [of demo_id] by (simp add: trim_space_def r)
qed

lemma every_minute:
  "cron_parse ''* * * * *'' =
   Inr \<lparr>sc_minute = [0..59], sc_hour = [0..23], sc_day_of_month = [1..31], sc_month = [1..12], sc_day_of_week = [0..6]\<rparr>"
proof -
  have "go_fields ''* * * * *'' = replicate 5 ''*''" by code_simp
  then show ?thesis by (simp add: cron_parse_def cron_parse_run_def with_field_def parse_field_def Let_def numeral_eq_Suc)
qed

definition cron_pending :: wiring where
  "cron_pending = fst (the (harness_register_cron (main_wiring utc 0) 7 ''job'' ''* * * * *'' 1 2))"

definition cron_ready :: wiring where
  "cron_ready = fst (sched_trigger_now cron_pending demo_id 20)"

definition cron_leased :: wiring where
  "cron_leased = fst (lease_assign registry_pick cron_ready 20 8)"

definition demo_env :: handler_env where
  "demo_env = \<lparr>he_cfg = config_default, he_operator = ''ops''\<rparr>"

definition cron_edited :: wiring where
  "cron_edited = fst (api_update_cron demo_env cron_leased (Some (demo_id, ''* * * * *'')))"

lemma cron_registered:
  "\<exists>t. harness_register_cron (main_wiring utc 0) 7 ''job'' ''* * * * *'' 1 2 = Some (cron_pending, t)"
proof -
  have "\<exists>w t. harness_register_cron (main_wiring utc 0) 7 ''job'' ''* * * * *'' 1 2 = Some (w, t)"
    by (simp add: harness_register_cron_def Let_def main_wiring_fields demo_id_next store_save_def demo_id_nonempty)
  then show ?thesis by (auto simp: cron_pending_def)
qed

definition cron_born :: task where
  "cron_born = demo_born\<lparr>next_run_at := sched_next_cron (main_wiring utc 0) ''* * * * *'' 0,
     trigger := \<lparr>kind = ''cron'', run_at = zero_time, cron_expr = ''* * * * *''\<rparr>\<rparr>"

lemma cron_pending_fields:
  "tasks_of cron_pending = [demo_id \<mapsto> cron_born]" "w_seq cron_pending = 1" "w_now cron_pending = 0"
  "ts_by_name (w_store cron_pending) = [''job'' \<mapsto> demo_id]"
  "w_ready cron_pending = ready_new" "w_registry cron_pending = w_registry (main_wiring utc 0)"
  "w_leases cron_pending = w_leases (main_wiring utc 0)" "w_ttl cron_pending = w_ttl (main_wiring utc 0)"
  by (simp_all add: cron_pending_def harness_register_cron_def Let_def main_wiring_fields demo_id_next store_save_def
      demo_id_nonempty demo_job_def demo_born_def cron_born_def sched_track_def)

lemma cron_pending_reachable: "sys_reachable cron_pending"
proof (rule sys_reachable.intros)
  show "sys_start (main_wiring utc 0)" by (rule sys_start.intros)
  obtain t where "harness_register_cron (main_wiring utc 0) 7 ''job'' ''* * * * *'' 1 2 = Some (cron_pending, t)"
    using cron_registered by blast
  then show "sys_steps (main_wiring utc 0) cron_pending"
    by (intro r_into_rtranclp) (rule st_cron [rotated], auto simp: room_def main_wiring_fields)
qed

lemma cron_ready_reachable: "sys_reachable cron_ready"
  unfolding cron_ready_def by (rule reachable_step [OF cron_pending_reachable]) (rule st_trigger)

lemma cron_ready_fields:
  "tasks_of cron_ready = [demo_id \<mapsto> moved cron_born StateReady 0]" "w_seq cron_ready = 1" "w_now cron_ready = 0"
  "ts_by_name (w_store cron_ready) = [''job'' \<mapsto> demo_id]"
  "w_ready cron_ready = fst (ready_push ready_new demo_id 1 20)" "w_registry cron_ready = w_registry (main_wiring utc 0)"
  "w_leases cron_ready = w_leases (main_wiring utc 0)" "w_ttl cron_ready = w_ttl (main_wiring utc 0)"
  by (simp_all add: cron_ready_def sched_trigger_now_def cron_pending_fields store_get_def store_mark_ready_def Let_def
      cron_born_def demo_born_def demo_job_def moved_def push_ready_def)

lemma cron_leased_reachable: "sys_reachable cron_leased"
  unfolding cron_leased_def by (rule reachable_step [OF cron_ready_reachable]) (rule st_assign, simp add: room_def cron_ready_fields)

lemma cron_leased_fields:
  "tasks_of cron_leased = [demo_id \<mapsto> moved (moved cron_born StateReady 0) StateLeased 0]"
  "ts_by_name (w_store cron_leased) = [''job'' \<mapsto> demo_id]" "w_seq cron_leased = 2"
  "w_leases cron_leased = \<lparr>lt_leases = [demo_key \<mapsto> demo_lease], lt_by_task = [demo_id \<mapsto> demo_key]\<rparr>"
  by (simp_all add: cron_leased_def lease_assign.simps [of registry_pick cron_ready] cron_ready_fields demo_pop
      store_transition_def Let_def cron_born_def demo_born_def demo_job_def moved_def demo_worker demo_key_next
      demo_lease_def main_wiring_fields lease_insert_def)

lemma cron_edit_accepted:
  "\<exists>t. api_update_cron demo_env cron_leased (Some (demo_id, ''* * * * *'')) = (cron_edited, Response 200 (TaskBody t))"
proof -
  have "\<exists>w t. api_update_cron demo_env cron_leased (Some (demo_id, ''* * * * *'')) = (w, Response 200 (TaskBody t))"
    by (simp add: api_update_cron_def demo_id_not_blank every_minute store_get_def cron_leased_fields Let_def
        store_save_def cron_born_def demo_born_def demo_job_def demo_id_nonempty)
  then show ?thesis by (auto simp: cron_edited_def)
qed

end
