(* ===== verification/LeaseSafety.thy ===== *)
theory LeaseSafety
  imports Demo
begin

text \<open>
  What leases guarantee over whole runs of the system: at most one lease per task, at most
  one result per lease, no result for a lease that was reaped, and the case in which a
  leased task is stranded.
\<close>

section \<open>Spent leases\<close>

text \<open>A lease that is not in the table any more; its identifier is not given out again.\<close>

definition spent :: "'r stack \<Rightarrow> string \<Rightarrow> bool" where
  "spent w k \<longleftrightarrow> issued (w_seq w) ''lease'' k \<and> lt_leases (w_leases w) k = None"

lemma move_spent:
  assumes "move fl (H, w) (H', w')" and s: "spent w k"
  shows "spent w' k"
  using assms(1)
proof cases
  case mv_frame
  with s show ?thesis by (simp add: spent_def same_core_def)
next
  case mv_seq
  with s show ?thesis by (auto simp: spent_def intro: issued_later)
next
  case (mv_lease rq e i t nano seq k' l now)
  have g: "seq = w_seq w + 1" using mv_lease(8) fst_id_next [of "w_seq w" "''lease''" nano] by simp
  have "k' \<noteq> k" using s mv_lease(8) issued_fresh [of "w_seq w" "''lease''" k nano] by (auto simp: spent_def)
  with s mv_lease g show ?thesis by (auto simp: spent_def lease_insert_def intro: issued_later)
next
  case (mv_renew k' l at)
  with s show ?thesis by (auto simp: spent_def)
qed (use s in \<open>auto simp: spent_def lease_delete_def\<close>)

lemma moves_spent:
  assumes "moves fl (H, w) (H', w')" and "spent w k"
  shows "spent w' k"
  using assms(1)
proof (induction "(H', w')" arbitrary: H' w' rule: rtranclp_induct)
  case (step y)
  then show ?case by (cases y) (auto intro: move_spent)
qed (rule assms(2))

lemma spent_refused:
  assumes "stack_inv_with H w" and "spent w (lease_id l)"
  shows "\<exists>e. record_result w l status message started finished nano stamp = (w, Inl e)"
proof (rule record_result_unheld, rule)
  assume "holds_lease w (lease_task_id l) (lease_id l)"
  then obtain l' where "lt_leases (w_leases w) (lease_id l) = Some l'"
    using holds_lease_found stack_invD(4) [OF assms(1)] by metis
  with assms(2) show False by (simp add: spent_def)
qed

lemma spent_forever:
  assumes r: "sys_reachable w" and s: "spent w (lease_id l)" and "sys_steps w w'"
  shows "\<exists>e. record_result w' l status message started finished nano stamp = (w', Inl e)"
proof -
  from sys_steps_moves [OF assms(3) reachable_inv [OF r], of "{}"]
  have m: "moves (True, {}) ({}, w) ({}, w')" and inv: "stack_inv w'" by simp_all
  from spent_refused [OF inv moves_spent [OF m s]] show ?thesis .
qed

text \<open>A lease in the table was issued, so taking it out spends it.\<close>

lemma deleted_spent:
  assumes "ids_ok w" and "lt_leases (w_leases w) k = Some l" and "unat (w_seq w) \<le> unat (w_seq w')"
    and "lt_leases (w_leases w') k = None"
  shows "spent w' k"
  using assms issued_mono [of "w_seq w" "''lease''" k "w_seq w'"] by (auto simp: spent_def ids_ok_def)

lemma result_spends:
  assumes inv: "stack_inv_with H w" and room: "room w 1"
    and r: "record_result w l status message started finished nano stamp = (w', Inr t')"
  shows "spent w' (lease_id l)"
proof -
  let ?i = "lease_task_id l"
  have h: "holds_lease w ?i (lease_id l)"
    using record_result_unheld [of w l status message started finished nano stamp] r by fastforce
  obtain l' t where l': "lt_leases (w_leases w) (lease_id l) = Some l'" and t: "tasks_of w ?i = Some t"
    using holds_lease_found [OF h stack_invD(4) [OF inv]] by metis
  have "lt_leases (w_leases w') (lease_id l) = None" and "w_seq w' = w_seq w + 1"
    using record_result_held [OF h inv t, of status message started finished nano stamp] r
    by (auto simp: result_task_def Let_def lease_delete_def)
  moreover have "unat (w_seq w + 1) = unat (w_seq w) + 1" using room by (simp add: room_def unat_seq_next)
  ultimately show ?thesis using deleted_spent [OF stack_invD(5) [OF inv] l', of w'] by simp
qed

section \<open>Reaping\<close>

lemma reap_collect_only_drops:
  "lt_leases (fst (foldl (reap_collect now) (lt, ls) its)) k \<in> {None, lt_leases lt k}"
proof (induction its arbitrary: lt ls)
  case (Cons j its)
  obtain lt1 ls1 where f: "reap_collect now (lt, ls) j = (lt1, ls1)" by fastforce
  then have "lt_leases lt1 k \<in> {None, lt_leases lt k}"
    by (auto simp: reap_collect_def lease_delete_def split: option.splits if_splits)
  with Cons.IH [of lt1 ls1] f show ?case by auto
qed simp

lemma reap_collect_takes:
  assumes "k \<in> set its" and "lt_leases lt k = Some l" and "lease_deadline l < now"
  shows "lt_leases (fst (foldl (reap_collect now) (lt, ls) its)) k = None"
  using assms(1,2)
proof (induction its arbitrary: lt ls)
  case (Cons j its)
  obtain lt1 ls1 where f: "reap_collect now (lt, ls) j = (lt1, ls1)" by fastforce
  have one: "lt_leases lt1 k = (if j = k then None else lt_leases lt k)" if "j = k \<or> lt_leases lt1 k \<noteq> None"
    using f that Cons.prems(2) assms(3)
    by (auto simp: reap_collect_def lease_delete_def split: option.splits if_splits)
  show ?case
  proof (cases "lt_leases lt1 k")
    case None
    with reap_collect_only_drops [where lt = lt1 and ls = ls1 and now = now and its = its and k = k] f
    show ?thesis by auto
  next
    case (Some l1)
    with one have "j \<noteq> k" "lt_leases lt1 k = Some l" using Cons.prems(2) by auto
    with Cons.IH [of lt1 ls1] Cons.prems(1) f show ?thesis by simp
  qed
qed simp

lemma reap_one_leases: "w_leases (fst (reap_one now (w, n) l)) = w_leases w \<and> w_seq (fst (reap_one now (w, n) l)) = w_seq w"
  by (auto simp: reap_one_def split: sum.splits option.splits prod.splits)

lemma reap_fold_leases:
  "w_leases (fst (foldl (reap_one now) (w, n) ls)) = w_leases w \<and> w_seq (fst (foldl (reap_one now) (w, n) ls)) = w_seq w"
proof (induction ls arbitrary: w n)
  case (Cons l ls)
  then show ?case using reap_one_leases [of now w n l] by (cases "reap_one now (w, n) l") simp
qed simp

lemma reap_spends:
  assumes inv: "stack_inv w" and "k \<in> set its" and "lt_leases (w_leases w) k = Some l" and "lease_deadline l < now"
  shows "spent (fst (lease_reap_expired w its now)) k"
proof -
  obtain lt ls where c: "foldl (reap_collect now) (w_leases w, []) its = (lt, ls)" by fastforce
  have "lt_leases lt k = None" using reap_collect_takes [OF assms(2-4), of "[]"] c by simp
  with deleted_spent [OF stack_invD(5) [OF inv] assms(3), of "fst (lease_reap_expired w its now)"] c
    reap_fold_leases [of now "w\<lparr>w_leases := lt\<rparr>" "[]" ls]
  show ?thesis by (simp add: lease_reap_expired_def)
qed

section \<open>Stranded tasks\<close>

text \<open>Leased, but no lease is for the present version.\<close>

definition no_lease_for :: "'r stack \<Rightarrow> string \<Rightarrow> int \<Rightarrow> bool" where
  "no_lease_for w i v \<longleftrightarrow> (\<forall>k l. lt_leases (w_leases w) k = Some l \<longrightarrow> lease_task_id l = i \<longrightarrow> lease_task_version l \<noteq> v)"

definition stranded :: "'r stack \<Rightarrow> string \<Rightarrow> bool" where
  "stranded w i \<longleftrightarrow>
     (case tasks_of w i of None \<Rightarrow> False
      | Some t \<Rightarrow> state t = StateCanceled \<or> state t = StateLeased \<and> no_lease_for w i (version t))"

lemma no_lease_forI:
  "no_lease_for w i v \<Longrightarrow> (\<And>k l. lt_leases (w_leases w') k = Some l \<Longrightarrow> lease_task_id l = i \<Longrightarrow>
     \<exists>k' l'. lt_leases (w_leases w) k' = Some l' \<and> lease_task_id l' = i \<and> lease_task_version l' = lease_task_version l) \<Longrightarrow>
   no_lease_for w' i v"
  unfolding no_lease_for_def by metis

lemma stranded_same:
  assumes "stranded w i" and "tasks_of w' i = tasks_of w i"
    and "\<And>k l. lt_leases (w_leases w') k = Some l \<Longrightarrow> lease_task_id l = i \<Longrightarrow>
      \<exists>k' l'. lt_leases (w_leases w) k' = Some l' \<and> lease_task_id l' = i \<and> lease_task_version l' = lease_task_version l"
  shows "stranded w' i"
  using assms no_lease_forI [of w i _ w'] unfolding stranded_def by (auto split: option.splits)

lemma stranded_unheld:
  assumes s: "stranded w i" and ok: "leases_ok w"
  shows "\<not> holds_lease w i k"
proof
  assume h: "holds_lease w i k"
  then obtain l t where l: "lt_leases (w_leases w) k = Some l" "lease_task_id l = i" "tasks_of w i = Some t"
    "lease_task_version l = version t" using holds_lease_found [OF h ok] by metis
  with s holds_lease_state [OF h ok l(3)] show False by (auto simp: stranded_def no_lease_for_def)
qed

text \<open>An edit of a leased task leaves its lease behind.\<close>

lemma edited_strands:
  assumes ok: "leases_ok w" and t: "tasks_of w i = Some t" "state t = StateLeased"
    and w': "tasks_of w' i = Some t'" "state t' = StateLeased" "version t' = version t + 1" "w_leases w' = w_leases w"
  shows "stranded w' i"
  using leases_okD(3) [OF ok] t w' by (force simp: stranded_def no_lease_for_def lease_fits_def)

lemma move_stranded:
  assumes "move fl (H, w) (H', w')" and calm: "\<not> fst fl" "i \<in> snd fl"
    and inv: "store_inv (w_store w)" and ok: "leases_ok w" and s: "stranded w i"
  shows "stranded w' i"
proof -
  note free = stranded_unheld [OF s ok]
  have st: "state t = StateLeased \<or> state t = StateCanceled" if "tasks_of w i = Some t" for t
    using s that by (auto simp: stranded_def)
  from assms(1) show ?thesis
  proof cases
    case mv_frame
    then show ?thesis by (intro stranded_same [OF s]) (auto simp: same_core_def)
  next
    case (mv_mark j t now p at)
    with st have "j \<noteq> i" by auto
    with mv_mark show ?thesis by (intro stranded_same [OF s]) auto
  next
    case (mv_reschedule j t now nxt)
    with st have "j \<noteq> i" by auto
    with mv_reschedule show ?thesis by (intro stranded_same [OF s]) auto
  next
    case (mv_bounce rq e j t now p at)
    then have "j \<noteq> i" using st [of t] by auto
    with mv_bounce show ?thesis by (intro stranded_same [OF s]) auto
  next
    case (mv_lease rq e j t nano seq k l now)
    then have "j \<noteq> i" using st [of t] by auto
    with mv_lease show ?thesis by (intro stranded_same [OF s]) (auto simp: lease_insert_def split: if_splits)
  next
    case (mv_renew k l at)
    then show ?thesis by (intro stranded_same [OF s]) (auto split: if_splits, blast)
  next
    case (mv_unlease k l)
    then show ?thesis by (intro stranded_same [OF s]) (auto simp: lease_delete_def split: if_splits)
  next
    case (mv_requeue j t now p at)
    with calm show ?thesis by simp
  next
    case (mv_succeed j t k rec stamp now)
    with free have "j \<noteq> i" by auto
    with mv_succeed show ?thesis by (intro stranded_same [OF s]) (auto simp: lease_delete_def split: if_splits)
  next
    case (mv_retry j t k rec nxt stamp now p at)
    with free have "j \<noteq> i" by auto
    with mv_retry show ?thesis by (intro stranded_same [OF s]) (auto simp: lease_delete_def split: if_splits)
  next
    case (mv_die j t k rec stamp now)
    with free have "j \<noteq> i" by auto
    with mv_die show ?thesis by (intro stranded_same [OF s]) (auto simp: lease_delete_def split: if_splits)
  next
    case (mv_cancel j t now)
    show ?thesis
    proof (cases "j = i")
      case True
      with mv_cancel show ?thesis by (simp add: stranded_def)
    next
      case False
      with mv_cancel show ?thesis by (intro stranded_same [OF s]) auto
    qed
  next
    case (mv_register t now s')
    have "task_id t \<noteq> i" using mv_register(4) s by (auto simp: stranded_def)
    with mv_register saved_new_tasks [OF mv_register(7,4)] show ?thesis by (intro stranded_same [OF s]) auto
  next
    case (mv_unregister j t s')
    with calm have "j \<noteq> i" by auto
    with mv_unregister deleted_tasks [OF mv_unregister(6)] show ?thesis by (intro stranded_same [OF s]) auto
  next
    case (mv_update_cron j t0 t nxt tr now s')
    note ts = cron_saved_tasks [OF inv mv_update_cron(3), of now nxt tr s']
    show ?thesis
    proof (cases "j = i")
      case True
      have "state t0 = StateLeased" using st [of t0] mv_update_cron ts(2) True by (auto simp: store_save_over)
      with mv_update_cron ts True show ?thesis
        by (intro edited_strands [OF ok, of i t0 w'
              "t0\<lparr>version := version t0 + 1, trigger := tr, next_run_at := nxt, updated_at := now\<rparr>"]) auto
    next
      case False
      with mv_update_cron ts show ?thesis by (intro stranded_same [OF s]) auto
    qed
  qed (intro stranded_same [OF s], auto)+
qed

lemma moves_stranded:
  assumes "moves fl (H, w) (H', w')" and "\<not> fst fl" "i \<in> snd fl" and "stack_inv_with H w" and "stranded w i"
  shows "stranded w' i"
  using assms(1)
proof (induction "(H', w')" arbitrary: H' w' rule: rtranclp_induct)
  case (step y)
  obtain H1 w1 where y: "y = (H1, w1)" by (cases y)
  have inv: "stack_inv_with H1 w1" using moves_inv [OF step(1) [unfolded y] assms(4)] .
  from move_stranded [OF step(2) [unfolded y] assms(2,3) stack_invD(1,4) [OF inv] step(3) [OF y]] show ?case .
qed (rule assms(5))

text \<open>The reaper passes a stranded task by: it takes the old lease, and finds another version.\<close>

lemma reap_collect_others:
  assumes "foldl (reap_collect now) (lt, ls) its = (lt', ls')"
    and "\<forall>l \<in> set ls. P l" and "\<And>k l. lt_leases lt k = Some l \<Longrightarrow> P l"
  shows "\<forall>l \<in> set ls'. P l"
  using assms
proof (induction its arbitrary: lt ls)
  case (Cons j its)
  obtain lt1 ls1 where f: "reap_collect now (lt, ls) j = (lt1, ls1)" by fastforce
  then have "\<forall>l \<in> set ls1. P l" and "\<And>k l. lt_leases lt1 k = Some l \<Longrightarrow> P l"
    using Cons.prems(2,3) by (auto simp: reap_collect_def lease_delete_def split: option.splits if_splits)
  from Cons.IH [OF _ this] f Cons.prems(1) show ?case by simp
qed auto

lemma reap_one_passes:
  assumes "lease_task_id l = i \<Longrightarrow> (case tasks_of w i of None \<Rightarrow> True | Some t \<Rightarrow> state t \<noteq> StateLeased \<or> version t \<noteq> lease_task_version l)"
  shows "tasks_of (fst (reap_one now (w, n) l)) i = tasks_of w i"
  using assms
  by (auto simp: reap_one_def store_get_def store_transition_def Let_def split: option.splits)

lemma reap_stranded:
  assumes s: "stranded w i"
  shows "stranded (fst (lease_reap_expired w its now)) i"
proof -
  obtain lt ls where c: "foldl (reap_collect now) (w_leases w, []) its = (lt, ls)" by fastforce
  define P where "P l \<longleftrightarrow> (lease_task_id l = i \<longrightarrow>
    (case tasks_of w i of None \<Rightarrow> True | Some t \<Rightarrow> state t \<noteq> StateLeased \<or> version t \<noteq> lease_task_version l))" for l :: lease
  have all: "P l" if "lt_leases (w_leases w) k = Some l" for k l
    using s that by (auto simp: P_def stranded_def no_lease_for_def split: option.splits) blast
  have "\<forall>l \<in> set ls. P l" by (rule reap_collect_others [OF c]) (simp, rule all)
  then have "tasks_of (fst (foldl (reap_one now) (v, n) ls)) i = tasks_of v i"
    if "tasks_of v i = tasks_of w i" for v n
    using that
  proof (induction ls arbitrary: v n)
    case (Cons l ls)
    obtain v1 n1 where f: "reap_one now (v, n) l = (v1, n1)" by fastforce
    have "tasks_of v1 i = tasks_of v i"
      using reap_one_passes [of l i v now n] Cons.prems f by (simp add: P_def)
    with Cons.IH [of v1 n1] Cons.prems f show ?case by simp
  qed simp
  from this [of "w\<lparr>w_leases := lt\<rparr>" "[]"]
  have tasks: "tasks_of (fst (lease_reap_expired w its now)) i = tasks_of w i"
    using c by (simp add: lease_reap_expired_def)
  have leases: "w_leases (fst (lease_reap_expired w its now)) = lt"
    using reap_fold_leases [of now "w\<lparr>w_leases := lt\<rparr>" "[]" ls] c by (simp add: lease_reap_expired_def)
  show ?thesis
  proof (rule stranded_same [OF s tasks])
    fix k l assume "lt_leases (w_leases (fst (lease_reap_expired w its now))) k = Some l" "lease_task_id l = i"
    then show "\<exists>k' l'. lt_leases (w_leases w) k' = Some l' \<and> lease_task_id l' = i \<and> lease_task_version l' = lease_task_version l"
      using reap_collect_only_drops [where now = now and lt = "w_leases w" and ls = "[]" and its = its and k = k] c leases
      by (intro exI [of _ k] exI [of _ l]) auto
  qed
qed

lemma sys_stranded:
  assumes "sys_reachable w" and "sys_steps w w'" and "stranded w i"
  shows "stranded w' i"
  using assms(2)
proof (induction rule: rtranclp_induct)
  case (step y z)
  have inv: "stack_inv y" using reachable_inv [OF reachable_steps [OF assms(1) step(1)]] .
  have "i \<in> dom (tasks_of y)" using step(3) by (auto simp: stranded_def split: option.splits)
  then have dom: "{i} \<subseteq> dom (tasks_of y)" by simp
  from sys_step_cases [OF step(2) inv dom] show ?case
  proof
    assume "moves (False, {i}) ({}, y) ({}, z)"
    from moves_stranded [OF this _ _ inv step(3)] show ?thesis by simp
  next
    assume "\<exists>its now. z = fst (lease_reap_expired y its now)"
    then show ?thesis using reap_stranded [OF step(3)] by blast
  qed
qed (rule assms(3))

section \<open>Properties\<close>

text \<open>
  C7. In a reachable stack a task has at most one lease, which \<open>Current\<close> returns; the task
  exists, and it is leased, or canceled since the lease was given; and a lease whose version
  is the task's means that the task is leased.
\<close>

theorem system_one_lease:
  assumes r: "sys_reachable w" and l: "lt_leases (w_leases w) k = Some l"
  shows "lease_id l = k \<and> lease_current w (lease_task_id l) = Some l \<and>
    (\<forall>k' l'. lt_leases (w_leases w) k' = Some l' \<and> lease_task_id l' = lease_task_id l \<longrightarrow> k' = k) \<and>
    (\<exists>t. tasks_of w (lease_task_id l) = Some t \<and> (state t = StateLeased \<or> state t = StateCanceled) \<and>
       (lease_task_version l = version t \<longrightarrow> state t = StateLeased))"
proof -
  note ok = stack_invD(4) [OF reachable_inv [OF r]]
  have "k' = k" if "lt_leases (w_leases w) k' = Some l'" "lease_task_id l' = lease_task_id l" for k' l'
    using leases_okD(2) [OF ok that(1)] leases_okD(2) [OF ok l] that(2) by simp
  moreover have "lease_current w (lease_task_id l) = Some l" using leases_okD(2) [OF ok l] l by (simp add: lease_current_def)
  ultimately show ?thesis using leases_okD(1,3) [OF ok l] by (fastforce simp: lease_fits_def)
qed

theorem system_one_lease_witness: "lease_current demo_leased demo_id = Some demo_lease"
  using system_one_lease [OF demo_leased_reachable, of demo_key demo_lease]
  by (simp add: demo_leased_fields demo_lease_def)

text \<open>
  C1. A lease yields at most one result: once \<open>RecordResult\<close> has accepted a result for a
  lease, every later report for it is refused and changes nothing, whatever happens in
  between; a task that is leased again is leased under another identifier.
\<close>

theorem result_accepted_once:
  assumes r: "sys_reachable w" and room: "room w 1"
    and first: "record_result w l status message started finished nano stamp = (w1, Inr t)"
    and later: "sys_steps w1 w2"
  shows "\<exists>e. record_result w2 l status' message' started' finished' nano' stamp' = (w2, Inl e)"
proof -
  have "sys_step w w1" using st_result [OF room, of l status message started finished nano stamp] first by simp
  from spent_forever [OF reachable_step [OF r this] _ later] result_spends [OF reachable_inv [OF r] room first]
  show ?thesis by blast
qed

theorem result_accepted_once_witness:
  "\<exists>e. record_result demo_done demo_lease ''failure'' ''late'' 20 40 10 ''s'' = (demo_done, Inl e)"
proof -
  obtain t where "record_result demo_leased demo_lease ''success'' ''ok'' 20 30 9 ''s'' = (demo_done, Inr t)"
    using demo_recorded by blast
  from result_accepted_once [OF demo_leased_reachable _ this, of demo_done] show ?thesis
    by (simp add: room_def demo_leased_fields)
qed

text \<open>
  C10. When \<open>ReapExpired\<close> walks over a lease whose deadline has passed, no result for that
  lease is accepted ever after: the worker that lost it cannot finish the task for the one
  that got it next.
\<close>

theorem reaped_lease_refused:
  assumes r: "sys_reachable w" and k: "lt_leases (w_leases w) (lease_id l) = Some l"
    and expired: "lease_deadline l < now" "lease_id l \<in> set its"
    and later: "sys_steps (fst (lease_reap_expired w its now)) w'"
  shows "\<exists>e. record_result w' l status message started finished nano stamp = (w', Inl e)"
  by (rule spent_forever [OF reachable_step [OF r st_reap] _ later])
    (rule reap_spends [OF reachable_inv [OF r] expired(2) k expired(1)])

theorem reaped_lease_refused_witness:
  "\<exists>e. record_result (fst (lease_reap_expired demo_leased [demo_key] (60 * second_ns))) demo_lease ''success'' ''ok'' 20 30 9 ''s'' =
     (fst (lease_reap_expired demo_leased [demo_key] (60 * second_ns)), Inl e)"
  by (rule reaped_lease_refused [OF demo_leased_reachable, of demo_lease "60 * second_ns" "[demo_key]"])
    (simp_all add: demo_leased_fields demo_lease_def second_ns_def)

text \<open>
  C13. \<open>UpdateCron\<close> on a task that is leased strands it: the new version fits no lease, so
  from then on every result for the task is refused, the reaper does not requeue it, and
  whatever the system does the task stays leased until it is canceled.
\<close>

theorem update_cron_strands_leased:
  assumes r: "sys_reachable w" and t: "tasks_of w i = Some t" "state t = StateLeased"
    and edit: "api_update_cron he w (Some (i, expr)) = (w1, Response 200 b)"
    and later: "sys_steps w1 w2"
  shows "(case tasks_of w2 i of None \<Rightarrow> False | Some t2 \<Rightarrow> state t2 = StateLeased \<or> state t2 = StateCanceled) \<and>
    (lease_task_id l = i \<longrightarrow> (\<exists>e. record_result w2 l status message started finished nano stamp = (w2, Inl e)))"
proof -
  have r1: "sys_reachable w1" using reachable_step [OF r st_api_update_cron [of w he "Some (i, expr)"]] edit by simp
  have id: "task_id t = i" using inv_task_id [OF reachable_inv [OF r] t(1)] .
  obtain sch where sch: "cron_parse expr = Inr sch" using edit by (auto simp: api_update_cron_def split: if_splits sum.splits)
  let ?t = "t\<lparr>trigger := (trigger t)\<lparr>cron_expr := expr\<rparr>, next_run_at := cron_next (w_loc w) sch (w_now w)\<rparr>"
  obtain s where s: "store_save (w_store w) (w_now w) ?t = Inr s"
    "w1 = audit_action he (sched_refresh_cron (w\<lparr>w_store := s\<rparr>) ?t) ''update-cron'' i"
    using edit t(1) sch id by (auto simp: api_update_cron_def store_get_def Let_def split: if_splits sum.splits)
  note saved = cron_saved_tasks(1) [OF stack_invD(1) [OF reachable_inv [OF r]] t(1) s(1)]
  have "w_leases w1 = w_leases w" by (simp add: s(2) audit_action_def sched_refresh_cron_def)
  moreover have u: "tasks_of w1 i = Some (t\<lparr>version := version t + 1, trigger := (trigger t)\<lparr>cron_expr := expr\<rparr>,
      next_run_at := cron_next (w_loc w) sch (w_now w), updated_at := w_now w\<rparr>)"
    by (simp add: s(2) audit_action_def sched_refresh_cron_def saved)
  ultimately have "stranded w1 i"
    using t(2) by (intro edited_strands [OF stack_invD(4) [OF reachable_inv [OF r]] t u]) simp_all
  note st = sys_stranded [OF r1 later this]
  have "\<exists>e. record_result w2 l status message started finished nano stamp = (w2, Inl e)" if "lease_task_id l = i"
    using stranded_unheld [OF st stack_invD(4) [OF reachable_inv [OF reachable_steps [OF r1 later]]]] that
    by (intro record_result_unheld) simp
  moreover have "case tasks_of w2 i of None \<Rightarrow> False | Some t2 \<Rightarrow> state t2 = StateLeased \<or> state t2 = StateCanceled"
    using st by (auto simp: stranded_def split: option.splits)
  ultimately show ?thesis by simp
qed

theorem update_cron_strands_leased_witness:
  "\<exists>e. record_result cron_edited demo_lease ''success'' ''ok'' 20 30 9 ''s'' = (cron_edited, Inl e)"
proof -
  obtain t where "api_update_cron demo_env cron_leased (Some (demo_id, ''* * * * *'')) = (cron_edited, Response 200 (TaskBody t))"
    using cron_edit_accepted by blast
  from update_cron_strands_leased [OF cron_leased_reachable _ _ this, of _ cron_edited demo_lease] show ?thesis
    by (simp add: cron_leased_fields demo_lease_def)
qed

end
