(* ===== verification/Lifecycle.thy ===== *)
theory Lifecycle
  imports Demo
begin

text \<open>
  The life of one task as an abstract machine, and the refinement: whatever the system does,
  each of its tasks only makes steps of that machine. What is true of the machine, such as
  that a final state is final, is then true of the system.
\<close>

section \<open>The abstract machine\<close>

text \<open>A task's state, the retries it has left and its version.\<close>

type_synonym life = "task_state \<times> int \<times> int"

inductive life_step :: "life \<Rightarrow> life \<Rightarrow> bool" where
  life_enqueue: "life_step (StatePending, r, v) (StateReady, r, v + 1)"
| life_assign: "life_step (StateReady, r, v) (StateLeased, r, v + 1)"
| life_requeue: "life_step (StateLeased, r, v) (StateReady, r, v + 1)"
| life_succeed: "life_step (StateLeased, r, v) (StateSucceeded, r, v + 1)"
| life_retry: "0 < r \<Longrightarrow> life_step (StateLeased, r, v) (StateReady, r - 1, v + 1)"
| life_die: "r \<le> 0 \<Longrightarrow> life_step (StateLeased, r, v) (StateDead, r, v + 1)"
| life_cancel: "\<not> terminal st \<Longrightarrow> life_step (st, r, v) (StateCanceled, r, v + 1)"
| life_edit: "st \<noteq> StateCanceled \<Longrightarrow> life_step (st, r, v) (st, r, v + 1)"

abbreviation life_steps :: "life \<Rightarrow> life \<Rightarrow> bool" where
  "life_steps \<equiv> life_step\<^sup>*\<^sup>*"

definition life_of :: "task \<Rightarrow> life" where
  "life_of t = (state t, retries_left t, version t)"

definition life_birth :: "task \<Rightarrow> life" where
  "life_birth t = (StatePending, max_retries t, 1)"

inductive_cases life_stepE: "life_step (st, r, v) l"

lemma life_two: "life_step x y \<Longrightarrow> life_step y z \<Longrightarrow> life_steps x z"
  by (meson converse_rtranclp_into_rtranclp r_into_rtranclp)

subsection \<open>Facts of the machine\<close>

text \<open>Versions count the steps, so a version is never seen twice in two different lives.\<close>

lemma life_step_version: "life_step (st, r, v) (st', r', v') \<Longrightarrow> v' = v + 1"
  by (auto elim: life_stepE)

lemma life_steps_version:
  "life_steps l l' \<Longrightarrow> snd (snd l) \<le> snd (snd l') \<and> (snd (snd l) = snd (snd l') \<longrightarrow> l = l')"
proof (induction rule: rtranclp_induct)
  case (step y z)
  then have "snd (snd z) = snd (snd y) + 1" by (cases y, cases z) (auto dest: life_step_version)
  with step show ?case by auto
qed simp

lemma life_steps_terminal:
  "life_steps l l' \<Longrightarrow> terminal (fst l) \<Longrightarrow> fst l' = fst l"
proof (induction rule: rtranclp_induct)
  case (step y z)
  then show ?case by (cases y, cases z) (auto simp: terminal_def elim: life_stepE split: if_splits)
qed simp

lemma life_steps_pending: "life_steps l l' \<Longrightarrow> fst l \<noteq> StatePending \<Longrightarrow> fst l' \<noteq> StatePending"
proof (induction rule: rtranclp_induct)
  case (step y z)
  then show ?case by (cases y, cases z) (auto elim: life_stepE)
qed simp

lemma life_steps_retries: "life_steps l l' \<Longrightarrow> fst (snd l') \<le> fst (snd l) \<and> (0 \<le> fst (snd l) \<longrightarrow> 0 \<le> fst (snd l'))"
proof (induction rule: rtranclp_induct)
  case (step y z)
  then show ?case by (cases y, cases z) (auto elim: life_stepE)
qed simp

section \<open>The refinement\<close>

lemma life_of_moved [simp]: "life_of (moved t st at) = (st, retries_left t, version t + 1)"
  by (simp add: life_of_def)

lemma life_of_upd [simp]:
  "life_of (t\<lparr>next_run_at := x, updated_at := y\<rparr>) = life_of t"
  "life_of (t\<lparr>version := v, trigger := tr, next_run_at := x, updated_at := y\<rparr>) = (state t, retries_left t, v)"
  "life_of (t\<lparr>version := v, created_at := x, updated_at := y\<rparr>) = (state t, retries_left t, v)"
  "life_of ((moved t st at)\<lparr>retries_left := n, next_run_at := x, last_attempt_at := y\<rparr>) = (st, n, version t + 1)"
  by (simp_all add: life_of_def)

text \<open>One move, seen from a task \<open>i\<close> that is there before: its life goes on.\<close>

definition lives_on :: "task \<Rightarrow> task option \<Rightarrow> bool" where
  "lives_on t mt = (case mt of None \<Rightarrow> False | Some t' \<Rightarrow> max_retries t' = max_retries t \<and> life_steps (life_of t) (life_of t'))"

lemma lives_on_refl [simp]: "lives_on t (Some t)"
  by (simp add: lives_on_def)

lemma lives_onI: "max_retries t' = max_retries t \<Longrightarrow> life_step (life_of t) (life_of t') \<Longrightarrow> lives_on t (Some t')"
  by (simp add: lives_on_def)

lemma move_life:
  assumes "move fl (H, w) (H', w')" and inv: "store_inv (w_store w)" and t: "tasks_of w i = Some t"
  shows "lives_on t (tasks_of w' i) \<or> i \<notin> snd fl \<and> tasks_of w' i = None"
proof -
  have same: ?thesis if "tasks_of w' i = tasks_of w i" using that t by simp
  from assms(1) show ?thesis
  proof cases
    case mv_frame
    then show ?thesis by (intro same) (simp add: same_core_def)
  next
    case (mv_mark j u now p at)
    with t show ?thesis by (cases "j = i") (auto intro!: lives_onI simp: life_of_def life_step.intros)
  next
    case (mv_reschedule j u now nxt)
    with t show ?thesis by (cases "j = i") (auto simp: lives_on_def)
  next
    case (mv_bounce rq e j u now p at)
    with t life_two [OF life_assign life_requeue] show ?thesis
      by (cases "j = i") (auto simp: lives_on_def life_of_def algebra_simps)
  next
    case (mv_lease rq e j u nano seq k l now)
    with t show ?thesis by (cases "j = i") (auto intro!: lives_onI simp: life_of_def life_step.intros)
  next
    case (mv_requeue j u now p at)
    with t show ?thesis by (cases "j = i") (auto intro!: lives_onI simp: life_of_def life_step.intros)
  next
    case (mv_succeed j u k rec stamp now)
    with t show ?thesis by (cases "j = i") (auto intro!: lives_onI simp: life_of_def life_step.intros)
  next
    case (mv_retry j u k rec nxt stamp now p at)
    with t show ?thesis by (cases "j = i") (auto intro!: lives_onI simp: life_of_def life_step.intros)
  next
    case (mv_die j u k rec stamp now)
    with t show ?thesis by (cases "j = i") (auto intro!: lives_onI simp: life_of_def life_step.intros)
  next
    case (mv_cancel j u now)
    with t show ?thesis by (cases "j = i") (auto intro!: lives_onI simp: life_of_def life_step.intros)
  next
    case (mv_register u now s)
    with t saved_new_tasks [OF mv_register(7,4)] show ?thesis by (intro same) auto
  next
    case (mv_unregister j u s)
    with t deleted_tasks [OF mv_unregister(6)] show ?thesis by (cases "j = i") auto
  next
    case (mv_update_cron j t0 u nxt tr now s)
    note ts = cron_saved_tasks [OF inv mv_update_cron(3), of now nxt tr s]
    have "state t0 \<noteq> StateCanceled"
      using mv_update_cron ts(2) by (auto simp: store_save_over)
    with mv_update_cron ts t show ?thesis
      by (cases "j = i") (auto intro!: lives_onI simp: life_of_def life_step.intros)
  qed (simp_all add: t)
qed

lemma lives_on_trans: "lives_on t (Some u) \<Longrightarrow> lives_on u mt \<Longrightarrow> lives_on t mt"
  by (auto simp: lives_on_def split: option.splits)

lemma lives_onE:
  assumes "lives_on t mt"
  obtains t' where "mt = Some t'" "max_retries t' = max_retries t" "life_steps (life_of t) (life_of t')"
  using assms by (auto simp: lives_on_def split: option.splits)

lemma moves_life:
  assumes "moves fl (H, w) (H', w')" and "stack_inv_with H w" and "i \<in> snd fl" and t: "tasks_of w i = Some t"
  shows "lives_on t (tasks_of w' i)"
  using assms(1)
proof (induction "(H', w')" arbitrary: H' w' rule: rtranclp_induct)
  case (step y)
  obtain H1 w1 where y: "y = (H1, w1)" by (cases y)
  have inv: "stack_inv_with H1 w1" using moves_inv [OF step(1) [unfolded y] assms(2)] .
  obtain u where u: "tasks_of w1 i = Some u" "lives_on t (Some u)"
    using step(3) [OF y] lives_onE by metis
  from move_life [OF step(2) [unfolded y] stack_invD(1) [OF inv] u(1)] assms(3) lives_on_trans [OF u(2)]
  show ?case by blast
qed (simp add: t)

text \<open>Every task has come from its birth: pending, with all its retries, at version one.\<close>

definition born :: "task option \<Rightarrow> bool" where
  "born mt = (case mt of None \<Rightarrow> True | Some t \<Rightarrow> life_steps (life_birth t) (life_of t))"

lemma born_later: "born (Some t) \<Longrightarrow> lives_on t mt \<Longrightarrow> born mt"
  by (auto simp: born_def lives_on_def life_birth_def split: option.splits)

lemma move_born:
  assumes "move fl (H, w) (H', w')" and inv: "store_inv (w_store w)" and b: "born (tasks_of w i)"
  shows "born (tasks_of w' i)"
proof (cases "tasks_of w i")
  case (Some t)
  with move_life [OF assms(1) inv Some] b born_later [of t] show ?thesis by (auto simp: born_def)
next
  case None
  from assms(1) show ?thesis
  proof cases
    case mv_frame
    with None show ?thesis by (simp add: same_core_def born_def)
  next
    case (mv_register u now s)
    with None saved_new_tasks [OF mv_register(7,4)] show ?thesis
      by (auto simp: born_def life_birth_def life_of_def)
  next
    case (mv_unregister j u s)
    with None deleted_tasks [OF mv_unregister(6)] show ?thesis by (simp add: born_def)
  next
    case (mv_update_cron j t0 u nxt tr now s)
    with None cron_saved_tasks(1) [OF inv mv_update_cron(3), of now nxt tr s] show ?thesis by (auto simp: born_def)
  qed (use None in \<open>auto simp: born_def\<close>)
qed

lemma moves_born:
  assumes "moves fl (H, w) (H', w')" and "stack_inv_with H w" and "\<And>i. born (tasks_of w i)"
  shows "born (tasks_of w' i)"
  using assms(1)
proof (induction "(H', w')" arbitrary: H' w' rule: rtranclp_induct)
  case (step y)
  obtain H1 w1 where y: "y = (H1, w1)" by (cases y)
  have inv: "stack_inv_with H1 w1" using moves_inv [OF step(1) [unfolded y] assms(2)] .
  from move_born [OF step(2) [unfolded y] stack_invD(1) [OF inv] step(3) [OF y]] show ?case .
qed (rule assms(3))

lemma start_empty: "sys_start w \<Longrightarrow> tasks_of w = Map.empty"
  by (induction rule: sys_start.induct)
    (simp_all add: harness_new_with_def store_new_def main_wiring_def Let_def split: sum.splits)

lemma reachable_born:
  assumes "sys_reachable w"
  shows "born (tasks_of w i)"
proof -
  from assms obtain w0 where w0: "sys_start w0" "sys_steps w0 w" by (auto elim: sys_reachable.cases)
  have "moves (True, {}) ({}, w0) ({}, w)" using sys_steps_moves [OF w0(2) sys_start_inv [OF w0(1)], of "{}"] by simp
  from moves_born [OF this sys_start_inv [OF w0(1)]] show ?thesis by (simp add: born_def start_empty [OF w0(1)])
qed

lemma steps_lives_on:
  assumes "sys_reachable w" and "sys_steps w w'" and t: "tasks_of w i = Some t"
  shows "lives_on t (tasks_of w' i)"
proof -
  note inv = reachable_inv [OF assms(1)]
  have "moves (True, {i}) ({}, w) ({}, w')" using sys_steps_moves [OF assms(2) inv, of "{i}"] t by auto
  from moves_life [OF this inv _ t] show ?thesis by simp
qed

section \<open>Ticks leave a task alone that has been fired\<close>

lemma tick_cron_other [simp]: "j \<noteq> i \<Longrightarrow> tasks_of (tick_cron w i u now) j = tasks_of w j"
  by (auto simp: tick_cron_def store_set_next_run_def sched_set_next_fire_def Let_def split: sum.splits option.splits)

lemma tick_pending_untouched: "j \<noteq> i \<Longrightarrow> tasks_of (fst (tick_pending now (w, n) i)) j = tasks_of w j"
  by (auto simp: tick_pending_def store_get_def store_mark_ready_def Let_def split: option.splits)

lemma tick_pending_other:
  assumes "\<not> has_state w j StatePending"
  shows "tasks_of (fst (tick_pending now (w, n) i)) j = tasks_of w j"
proof (cases "i = j")
  case True
  with assms show ?thesis by (auto simp: tick_pending_def store_get_def has_state_def split: option.splits)
next
  case False
  then show ?thesis by (intro tick_pending_untouched) simp
qed

lemma tick_delayed_tasks [simp]: "tasks_of (fst (tick_delayed now (w, n) e)) = tasks_of w"
  by (auto simp: tick_delayed_def split: sum.splits)

lemma tick_delayed_loop_tasks: "tasks_of (fst (foldl (tick_delayed now) (w, n) es)) = tasks_of w"
proof (induction es arbitrary: w n)
  case (Cons e es)
  then show ?case using tick_delayed_tasks [of now w n e] by (cases "tick_delayed now (w, n) e") simp
qed simp

lemma tick_leaves:
  assumes "\<not> has_state w j StatePending"
  shows "tasks_of (fst (sched_tick w its now)) j = tasks_of w j"
proof -
  have p: "tasks_of (fst (foldl (tick_pending now) (v, n) is)) j = tasks_of v j"
    if "\<not> has_state v j StatePending" for v n "is"
    using that
  proof (induction "is" arbitrary: v n)
    case (Cons i "is")
    obtain v1 n1 where f: "tick_pending now (v, n) i = (v1, n1)" by fastforce
    then have same: "tasks_of v1 j = tasks_of v j" using tick_pending_other [OF Cons.prems, of now n i] by simp
    with Cons.prems have "\<not> has_state v1 j StatePending" by (simp add: has_state_def)
    from Cons.IH [OF this] f same show ?case by simp
  qed simp
  obtain w1 n1 where w1: "foldl (tick_pending now) (w, 0) (tick_due w its now) = (w1, n1)" by fastforce
  obtain q es where q: "delayed_pop_due (w_delayed w1) now = (q, es)" by fastforce
  from p [OF assms, of 0 "tick_due w its now"] tick_delayed_loop_tasks [of now "w1\<lparr>w_delayed := q\<rparr>" n1 es] w1 q
  show ?thesis by (simp add: sched_tick_def)
qed

section \<open>Properties\<close>

text \<open>
  C3. The system refines the life of a task: whatever steps are taken from a reachable stack,
  a task that is there stays there, keeps its retry limit, and goes through a sequence of
  steps of the abstract machine.
\<close>

theorem system_refines_lifecycle:
  assumes "sys_reachable w" and "sys_steps w w'" and "tasks_of w i = Some t"
  shows "\<exists>t'. tasks_of w' i = Some t' \<and> max_retries t' = max_retries t \<and> life_steps (life_of t) (life_of t')"
  using steps_lives_on [OF assms] by (auto elim: lives_onE)

theorem system_refines_lifecycle_witness:
  "\<exists>t'. tasks_of demo_done demo_id = Some t' \<and> max_retries t' = 2 \<and> life_steps (StateLeased, 2, 3) (life_of t')"
proof -
  have t: "tasks_of demo_leased demo_id = Some demo_held" by (simp add: demo_leased_fields)
  have "max_retries demo_held = 2" "life_of demo_held = (StateLeased, 2, 3)"
    by (simp_all add: demo_held_def demo_due_def demo_born_def demo_job_def)
  with system_refines_lifecycle [OF demo_leased_reachable demo_done_steps t] show ?thesis by simp
qed

text \<open>
  C12. Every task of a reachable stack is well formed: it is stored under its id, its version
  is at least one, its remaining retries are between zero and the limit (when that is not
  negative), all of them are there while it is pending, and none when it is dead.
\<close>

theorem system_tasks_typed:
  assumes r: "sys_reachable w" and t: "tasks_of w i = Some t"
  shows "task_id t = i \<and> 1 \<le> version t \<and> retries_left t \<le> max_retries t \<and>
    (0 \<le> max_retries t \<longrightarrow> 0 \<le> retries_left t) \<and>
    (state t = StatePending \<longrightarrow> retries_left t = max_retries t) \<and> (state t = StateDead \<longrightarrow> retries_left t \<le> 0)"
proof -
  have b: "life_steps (life_birth t) (life_of t)" using reachable_born [OF r, of i] t by (simp add: born_def)
  have "(fst l' = StatePending \<longrightarrow> fst (snd l') = m) \<and> (fst l' = StateDead \<longrightarrow> fst (snd l') \<le> 0)"
    if "life_steps (StatePending, m, 1) l'" for l' m
    using that
  proof (induction rule: rtranclp_induct)
    case (step y z)
    then show ?case by (cases y, cases z) (auto elim: life_stepE)
  qed simp
  from this [of "max_retries t" "life_of t"] b life_steps_version [OF b] life_steps_retries [OF b]
    inv_task_id [OF reachable_inv [OF r] t]
  show ?thesis by (simp add: life_birth_def life_of_def)
qed

theorem system_tasks_typed_witness: "task_id demo_held = demo_id \<and> (1::int) \<le> 3 \<and> retries_left demo_held = 2"
  using system_tasks_typed [OF demo_leased_reachable, of demo_id demo_held]
  by (simp add: demo_leased_fields demo_held_def demo_due_def demo_born_def demo_job_def)

text \<open>
  C19. What is final is final: a task that succeeded, was canceled or is dead keeps that
  state whatever the system does; and a task that has left the pending state never returns
  to it, and no later tick changes it. In particular a task with a cron trigger is fired by
  the scheduler at most once.
\<close>

theorem system_fires_once:
  assumes "sys_reachable w" and "sys_steps w w'" and "tasks_of w i = Some t" and "state t \<noteq> StatePending"
  shows "case tasks_of w' i of None \<Rightarrow> False
    | Some t' \<Rightarrow> state t' \<noteq> StatePending \<and> (terminal (state t) \<longrightarrow> state t' = state t) \<and>
        tasks_of (fst (sched_tick w' its now)) i = Some t'"
proof -
  obtain t' where t': "tasks_of w' i = Some t'" "life_steps (life_of t) (life_of t')"
    using steps_lives_on [OF assms(1-3)] by (auto elim: lives_onE)
  have "state t' \<noteq> StatePending" using life_steps_pending [OF t'(2)] assms(4) by (simp add: life_of_def)
  moreover have "terminal (state t) \<longrightarrow> state t' = state t" using life_steps_terminal [OF t'(2)] by (simp add: life_of_def)
  moreover have "tasks_of (fst (sched_tick w' its now)) i = tasks_of w' i"
    using calculation(1) t'(1) by (intro tick_leaves) simp
  ultimately show ?thesis using t'(1) by simp
qed

theorem system_fires_once_witness:
  "case tasks_of demo_done demo_id of None \<Rightarrow> False
   | Some t' \<Rightarrow> tasks_of (fst (sched_tick demo_done [demo_id] 99)) demo_id = Some t'"
proof -
  have t: "tasks_of demo_leased demo_id = Some demo_held" "state demo_held \<noteq> StatePending"
    by (simp_all add: demo_leased_fields demo_held_def)
  from system_fires_once [OF demo_leased_reachable demo_done_steps t, of "[demo_id]" 99]
  show ?thesis by (auto split: option.splits)
qed

text \<open>
  C11. In every stack that runs of whole operations reach, executions are bounded: a task has at
  most one record more than its retry limit, and at most one record of a success, which it has
  only when it has succeeded. (Interleaved at the granularity of the locks, operations can go
  beyond both bounds, as two races of the theory \<open>Races\<close> show.)
\<close>

theorem system_records_bounded:
  assumes r: "sys_reachable w" and t: "tasks_of w i = Some t"
  shows "int (length (records_list (w_records w) i)) \<le> max 0 (max_retries t) + 1 \<and>
    successes (records_list (w_records w) i) \<le> (if state t = StateSucceeded then 1 else 0)"
proof -
  have f: "records_fit (Some t) (records_of (w_records w) i)"
    using records_fitD [OF stack_invD(6) [OF reachable_inv [OF r]], of i] t by simp
  have perm: "mset (records_list (w_records w) i) = mset (records_of (w_records w) i)"
    by (simp add: records_list_def)
  have "length (records_list (w_records w) i) = length (records_of (w_records w) i)"
    using perm by (metis size_mset)
  moreover have "successes (records_list (w_records w) i) = successes (records_of (w_records w) i)"
    unfolding successes_def using perm by (metis mset_filter size_mset)
  moreover have "int (length (records_of (w_records w) i)) \<le> max 0 (max_retries t) + 1"
    using f by (auto simp: records_fit_def budget_def split: if_splits)
  ultimately show ?thesis using f by (auto simp: records_fit_def)
qed

theorem system_records_bounded_witness: "length (records_list (w_records demo_leased) demo_id) \<le> 3"
  using system_records_bounded [OF demo_leased_reachable, of demo_id demo_held]
  by (simp add: demo_leased_fields demo_held_def demo_due_def demo_born_def demo_job_def)

end
