(* ===== verification/Progress.thy ===== *)
theory Progress
  imports Lifecycle
begin

text \<open>
  What the service achieves: a tick makes exactly the due tasks ready, \<open>Assign\<close> gives the
  next ready task to a live worker, and the worker's loop completes every task that was due.
\<close>

section \<open>The queues of a reachable stack\<close>

lemma inv_queued_ready:
  assumes "stack_inv w" and "i \<in> ready_queued (w_ready w)"
  obtains t where "tasks_of w i = Some t" "state t = StateReady" "task_id t = i"
proof -
  have "has_state w i StateReady" using queues_okD(3) [OF stack_invD(2) [OF assms(1)] assms(2)] .
  with inv_task_id [OF assms(1)] that show ?thesis by (auto simp: has_state_def split: option.splits)
qed

lemma inv_pop:
  assumes "stack_inv w" and "ready_pop (w_ready w) = (q, Some e)"
  obtains t where "tasks_of w (re_task_id e) = Some t" "state t = StateReady" "task_id t = re_task_id e"
    "re_task_id e \<in> ready_queued (w_ready w)" "ready_queued q = ready_queued (w_ready w) - {re_task_id e}"
proof -
  note p = popped_ready [OF assms(2) queues_okD(1) [OF stack_invD(2) [OF assms(1)]]]
  from inv_queued_ready [OF assms(1) p(2)] p that show ?thesis by blast
qed

lemma inv_pop_none:
  assumes "stack_inv w"
  shows "snd (ready_pop (w_ready w)) = None \<longleftrightarrow> ready_queued (w_ready w) = {}"
  using rq.pop_None [OF queues_okD(1) [OF stack_invD(2) [OF assms]]] .

section \<open>The tick\<close>

lemma tick_pending_queue:
  assumes "ready_inv (w_ready w)"
  shows "ready_inv (w_ready (fst (tick_pending now (w, n) i)))"
    and "ready_queued (w_ready w) \<subseteq> ready_queued (w_ready (fst (tick_pending now (w, n) i)))"
    and "w_delayed (fst (tick_pending now (w, n) i)) = w_delayed w"
proof -
  have c: "w_ready (tick_cron v j u now) = w_ready v \<and> w_delayed (tick_cron v j u now) = w_delayed v"
    for v :: "'a stack" and j u
    by (auto simp: tick_cron_def Let_def sched_set_next_fire_def split: sum.splits)
  show "ready_inv (w_ready (fst (tick_pending now (w, n) i)))"
    "ready_queued (w_ready w) \<subseteq> ready_queued (w_ready (fst (tick_pending now (w, n) i)))"
    "w_delayed (fst (tick_pending now (w, n) i)) = w_delayed w"
    using assms by (auto simp: tick_pending_def c rq.inv_push rq.queued_push split: sum.splits prod.splits)
qed

lemma tick_pending_fires:
  assumes t: "tasks_of w i = Some t" "state t = StatePending" "task_id t = i" and inv: "ready_inv (w_ready w)"
  shows "has_state (fst (tick_pending now (w, n) i)) i StateReady" and "i \<in> ready_queued (w_ready (fst (tick_pending now (w, n) i)))"
proof -
  have c: "w_ready (tick_cron v j u now) = w_ready v" for v :: "'a stack" and j u
    by (auto simp: tick_cron_def Let_def sched_set_next_fire_def split: sum.splits)
  have s: "has_state (tick_cron v i u now) i StateReady" if "has_state v i StateReady" for v :: "'a stack" and u
    using that
    by (auto simp: tick_cron_def Let_def sched_set_next_fire_def store_set_next_run_def has_state_def split: sum.splits option.splits)
  show "has_state (fst (tick_pending now (w, n) i)) i StateReady"
    using t by (simp add: tick_pending_def store_get_def store_mark_ready_def Let_def) (rule s, simp add: has_state_def)
  show "i \<in> ready_queued (w_ready (fst (tick_pending now (w, n) i)))"
    using t inv by (simp add: tick_pending_def store_get_def store_mark_ready_def Let_def c rq.queued_push)
qed

lemma tick_pending_fold:
  assumes "ready_inv (w_ready w)" and "i \<in> ready_queued (w_ready w)" and "has_state w i StateReady"
  shows "i \<in> ready_queued (w_ready (fst (foldl (tick_pending now) (w, n) is)))"
    and "has_state (fst (foldl (tick_pending now) (w, n) is)) i StateReady"
proof -
  have "i \<in> ready_queued (w_ready (fst (foldl (tick_pending now) (w, n) is))) \<and>
      has_state (fst (foldl (tick_pending now) (w, n) is)) i StateReady"
    using assms
  proof (induction "is" arbitrary: w n)
    case (Cons j "is")
    obtain w1 n1 where f: "tick_pending now (w, n) j = (w1, n1)" by fastforce
    have "\<not> has_state w i StatePending" using Cons.prems(3) by (auto simp: has_state_def split: option.splits)
    then have "has_state w1 i StateReady"
      using tick_pending_other [of w i now n j] f Cons.prems(3) by (simp add: has_state_def)
    with Cons.IH [of w1 n1] tick_pending_queue [OF Cons.prems(1), of now n j] Cons.prems(2) f show ?case by auto
  qed simp
  then show "i \<in> ready_queued (w_ready (fst (foldl (tick_pending now) (w, n) is)))"
    and "has_state (fst (foldl (tick_pending now) (w, n) is)) i StateReady" by simp_all
qed

lemma tick_pending_step:
  assumes "stack_inv w"
  shows "stack_inv (fst (tick_pending now (w, n) i))"
  using moves_inv [OF tick_pending_moves [OF assms, of "(True, {})"] assms] .

text \<open>The tasks of the ids walked over that are pending become ready and are queued; no other task changes.\<close>

lemma tick_loop_inv:
  assumes "stack_inv w"
  shows "stack_inv (fst (foldl (tick_pending now) (w, n) is)) \<and>
      w_delayed (fst (foldl (tick_pending now) (w, n) is)) = w_delayed w \<and>
      ready_queued (w_ready w) \<subseteq> ready_queued (w_ready (fst (foldl (tick_pending now) (w, n) is)))"
  using assms
proof (induction "is" arbitrary: w n)
  case (Cons j "is")
  obtain w1 n1 where f: "tick_pending now (w, n) j = (w1, n1)" by fastforce
  have "stack_inv w1" using tick_pending_step [OF Cons.prems, of now n j] f by simp
  from Cons.IH [OF this, of n1] tick_pending_queue [OF queues_okD(1) [OF stack_invD(2) [OF Cons.prems]], of now n j] f
  show ?case by auto
qed simp

lemma tick_loop_other: "i \<notin> set is \<Longrightarrow> tasks_of (fst (foldl (tick_pending now) (w, n) is)) i = tasks_of w i"
proof (induction "is" arbitrary: w n)
  case (Cons j "is")
  obtain w1 n1 where f: "tick_pending now (w, n) j = (w1, n1)" by fastforce
  then have "tasks_of w1 i = tasks_of w i" using tick_pending_untouched [of i j now w n] Cons.prems by auto
  with Cons.IH [of w1 n1] Cons.prems f show ?case by simp
qed simp

lemma tick_loop_fires:
  assumes "stack_inv w" and "i \<in> set is" and "has_state w i StatePending"
  shows "has_state (fst (foldl (tick_pending now) (w, n) is)) i StateReady \<and>
      i \<in> ready_queued (w_ready (fst (foldl (tick_pending now) (w, n) is)))"
  using assms
proof (induction "is" arbitrary: w n)
  case (Cons j "is")
  obtain w1 n1 where f: "tick_pending now (w, n) j = (w1, n1)" by fastforce
  have inv: "stack_inv w1" using tick_pending_step [OF Cons.prems(1), of now n j] f by simp
  note rinv = queues_okD(1) [OF stack_invD(2)]
  show ?case
  proof (cases "j = i")
    case True
    obtain t where t: "tasks_of w i = Some t" "state t = StatePending" "task_id t = i"
      using Cons.prems(3) inv_task_id [OF Cons.prems(1)] by (auto simp: has_state_def split: option.splits)
    from tick_pending_fires [OF t rinv [OF Cons.prems(1)], of now n] f True tick_pending_fold [OF rinv [OF inv], of i now n1 "is"]
    show ?thesis by simp
  next
    case False
    then have "tasks_of w1 i = tasks_of w i" using tick_pending_untouched [of i j now w n] f by auto
    with Cons.prems(2,3) False Cons.IH [OF inv] f show ?thesis by (simp add: has_state_def)
  qed
qed simp

text \<open>The loop over the due entries of the delayed queue.\<close>

lemma tick_delayed_loop:
  assumes "ready_inv (w_ready w)"
  shows "ready_queued (w_ready w) \<subseteq> ready_queued (w_ready (fst (foldl (tick_delayed now) (w, n) es))) \<and>
    (\<forall>i \<in> de_task_id ` set es. has_state w i StateReady \<longrightarrow>
       (\<forall>t. tasks_of w i = Some t \<longrightarrow> task_id t = i) \<longrightarrow>
       i \<in> ready_queued (w_ready (fst (foldl (tick_delayed now) (w, n) es))))"
  using assms
proof (induction es arbitrary: w n)
  case (Cons e es)
  obtain w1 n1 where f: "tick_delayed now (w, n) e = (w1, n1)" by fastforce
  have tasks: "tasks_of w1 = tasks_of w" using tick_delayed_tasks [of now w n e] f by simp
  have q: "ready_inv (w_ready w1)" "ready_queued (w_ready w) \<subseteq> ready_queued (w_ready w1)"
    using f Cons.prems by (auto simp: tick_delayed_def rq.inv_push rq.queued_push split: sum.splits if_splits)
  have here: "de_task_id e \<in> ready_queued (w_ready w1)"
    if "has_state w (de_task_id e) StateReady" "\<forall>t. tasks_of w (de_task_id e) = Some t \<longrightarrow> task_id t = de_task_id e"
    using that f Cons.prems
    by (auto simp: tick_delayed_def store_get_def has_state_def rq.queued_push split: option.splits)
  from Cons.IH [OF q(1), of n1] q(2) here f show ?case by (auto simp: has_state_def tasks)
qed simp

lemma tick_due_iff:
  assumes "tracked_ok w" and "dom (w_next_fire w) \<subseteq> set its" and "tasks_of w i = Some t" and "state t = StatePending"
  shows "i \<in> set (tick_due w its now) \<longleftrightarrow> next_run_at t \<le> now"
  using assms by (fastforce simp: tick_due_def tracked_ok_def dom_def)

section \<open>Assignment\<close>

lemma assign_ready:
  assumes inv: "stack_inv w" and pop: "ready_pop (w_ready w) = (q, Some e)"
    and t: "tasks_of w (re_task_id e) = Some t" "state t = StateReady"
  shows "case lease_assign pick w now nano of (w', r) \<Rightarrow>
    case pick (w_registry w) now of
      Inl err \<Rightarrow> r = Inl (WorkerError err) \<and> w_ready w' = fst (ready_push q (re_task_id e) (priority t) now) \<and>
        tasks_of w' = (tasks_of w)(re_task_id e \<mapsto> moved (moved t StateLeased (w_now w)) StateReady (w_now w))
    | Inr node \<Rightarrow>
        (let l = \<lparr>lease_id = snd (id_next (w_seq w) ''lease'' nano), lease_task_id = re_task_id e,
                  lease_worker_id = node_id node, lease_task_version = version t + 1,
                  lease_deadline = now + w_ttl w, lease_created_at = now\<rparr>
         in r = Inr l \<and> w' = (put_task (w\<lparr>w_ready := q\<rparr>) (re_task_id e) (moved t StateLeased (w_now w)))
              \<lparr>w_seq := w_seq w + 1, w_leases := lease_insert (w_leases w) l\<rparr>)"
proof -
  have id: "task_id t = re_task_id e" using inv_task_id [OF inv t(1)] .
  obtain k where k: "id_next (w_seq w) ''lease'' nano = (w_seq w + 1, k)"
    using fst_id_next [of "w_seq w" "''lease''" nano] by (cases "id_next (w_seq w) ''lease'' nano") simp
  show ?thesis
    using t pop
    by (auto simp: lease_assign.simps [of pick w] store_transition_def Let_def k id assign_undo_def push_ready_def
        moved_def put_task_def split: sum.splits)
qed

section \<open>The worker's loop\<close>

text \<open>One turn with a live worker and a queued task: the task succeeds and leaves the queue.\<close>

lemma main_work_turn:
  assumes inv: "stack_inv w" and pop: "ready_pop (w_ready w) = (q, Some e)"
    and live: "registry_pick (w_registry w) (w_now w) = Inr node" and room: "room w 2"
  shows "has_state (main_work w na nb stamp) (re_task_id e) StateSucceeded"
    and "j \<noteq> re_task_id e \<Longrightarrow> tasks_of (main_work w na nb stamp) j = tasks_of w j"
    and "w_ready (main_work w na nb stamp) = q" and "w_registry (main_work w na nb stamp) = w_registry w"
    and "w_now (main_work w na nb stamp) = w_now w" and "w_seq (main_work w na nb stamp) = w_seq w + 2"
    and "stack_inv (main_work w na nb stamp)"
proof -
  let ?i = "re_task_id e"
  obtain t where t: "tasks_of w ?i = Some t" "state t = StateReady" "task_id t = ?i"
    using inv_pop [OF inv pop] by metis
  define l where "l = \<lparr>lease_id = snd (id_next (w_seq w) ''lease'' na), lease_task_id = ?i,
    lease_worker_id = node_id node, lease_task_version = version t + 1,
    lease_deadline = w_now w + w_ttl w, lease_created_at = w_now w\<rparr>"
  define w1 where "w1 = (put_task (w\<lparr>w_ready := q\<rparr>) ?i (moved t StateLeased (w_now w)))
    \<lparr>w_seq := w_seq w + 1, w_leases := lease_insert (w_leases w) l\<rparr>"
  have a: "lease_assign registry_pick w (w_now w) na = (w1, Inr l)"
    using assign_ready [OF inv pop t(1,2), where pick = registry_pick and now = "w_now w" and nano = na] live
    by (auto simp: Let_def w1_def l_def split: prod.splits)
  have one: "room w 1" "room w1 1"
    using room unat_seq_next [of "w_seq w"] by (simp_all add: room_def w1_def)
  have inv1: "stack_inv w1"
    using moves_inv [OF lease_assign_moves [OF inv, of "(True, {})" registry_pick "w_now w" na] inv] a one(1) by (simp add: room_def)
  have t1: "tasks_of w1 ?i = Some (moved t StateLeased (w_now w))" by (simp add: w1_def)
  have b: "executor_begin registry_pick w na = (w1, Inr (l, moved t StateLeased (w_now w)))"
    using a t1 by (simp add: executor_begin_def store_get_def l_def)
  have h: "holds_lease w1 (lease_task_id l) (lease_id l)"
    by (simp add: holds_lease_def lease_current_def w1_def lease_insert_def l_def)
  obtain m where m: "executor_run_next registry_pick w (Some echo_handler) na nb stamp =
      executor_finish w1 l (w_now w1) (Inr m) nb stamp"
    using b by (simp add: executor_run_next_def echo_handler_def)
  let ?r = "result_record w1 l (moved t StateLeased (w_now w)) ''success'' m (w_now w1) (w_now w1) nb"
  let ?w = "(result_task (w1\<lparr>w_seq := w_seq w1 + 1\<rparr>) l (moved t StateLeased (w_now w)) ''success'' ?r (w_now w1) stamp)
    \<lparr>w_metrics := result_metrics (w_metrics w1) ''success''\<rparr>"
  obtain u where "record_result w1 l ''success'' m (w_now w1) (w_now w1) nb stamp = (?w, Inr u)"
    using record_result_held [OF h inv1, of "moved t StateLeased (w_now w)" "''success''" m "w_now w1" "w_now w1" nb stamp] t1
    by (auto simp: l_def)
  then have f: "main_work w na nb stamp = ?w" by (simp add: main_work_def m executor_finish_def)
  show "has_state (main_work w na nb stamp) ?i StateSucceeded"
    "j \<noteq> ?i \<Longrightarrow> tasks_of (main_work w na nb stamp) j = tasks_of w j"
    "w_ready (main_work w na nb stamp) = q" "w_registry (main_work w na nb stamp) = w_registry w"
    "w_now (main_work w na nb stamp) = w_now w" "w_seq (main_work w na nb stamp) = w_seq w + 2"
    by (simp_all add: f result_task_def Let_def t(3) w1_def has_state_def add_record_def drop_lease_def)
  have "main_work w na nb stamp = fst (executor_finish w1 l (w_now w1) (Inr m) nb stamp)" by (simp add: main_work_def m)
  with moves_inv [OF executor_finish_moves [OF inv1, of "(True, {})" l "w_now w1" "Inr m" nb stamp] inv1] one(2)
  show "stack_inv (main_work w na nb stamp)" by (simp add: room_def)
qed

text \<open>With nothing queued a turn does nothing.\<close>

lemma main_work_idle:
  assumes "stack_inv w" and "ready_queued (w_ready w) = {}"
  shows "main_work w n1 n2 stamp = w"
proof -
  obtain q oe where p: "ready_pop (w_ready w) = (q, oe)" by fastforce
  have "oe = None" using inv_pop_none [OF assms(1)] assms(2) p by simp
  moreover have "q = w_ready w"
    using rq.pop_empty [OF queues_okD(1) [OF stack_invD(2) [OF assms(1)]] assms(2)] p by simp
  ultimately show ?thesis
    using p by (simp add: main_work_def executor_run_next_def executor_begin_def lease_assign.simps [of registry_pick w])
qed

text \<open>Turns of the loop, each some time after the one before.\<close>

fun work_turns :: "wiring \<Rightarrow> (duration \<times> int \<times> int \<times> string) list \<Rightarrow> wiring" where
  "work_turns w [] = w"
| "work_turns w ((d, n1, n2, stamp) # turns) = work_turns (main_work (clock_advance w d) n1 n2 stamp) turns"

lemma pick_earlier:
  assumes "registry_pick r u = Inr n" and "now \<le> u"
  shows "\<exists>n'. registry_pick r now = Inr n'"
proof -
  have "worker_live r now n" using rp.pick_live [OF assms(1)] assms(2) by (auto simp: worker_live_def)
  from rp.pick_some_live [OF this] show ?thesis by blast
qed

lemma advance_simps [simp]:
  "tasks_of (clock_advance w d) = tasks_of w" "w_ready (clock_advance w d) = w_ready w" "w_seq (clock_advance w d) = w_seq w"
  "w_registry (clock_advance w d) = w_registry w" "w_now (clock_advance w d) = w_now w + d"
  by (simp_all add: clock_advance_def)

lemma stack_inv_advance: "stack_inv w \<Longrightarrow> stack_inv (clock_advance w d)"
  by (rule stack_inv_frame) (simp_all add: same_core_def clock_advance_def)

lemma work_turns_keep:
  assumes "stack_inv w" and "i \<notin> ready_queued (w_ready w)"
    and "\<forall>x \<in> set turns. 0 \<le> fst x"
    and "registry_pick (w_registry w) (w_now w + sum_list (map fst turns)) = Inr node" and "room w (2 * length turns)"
  shows "tasks_of (work_turns w turns) i = tasks_of w i"
  using assms
proof (induction turns arbitrary: w node)
  case (Cons x turns)
  obtain d n1 n2 stamp where x: "x = (d, n1, n2, stamp)" by (cases x)
  let ?v = "clock_advance w d"
  have sum: "0 \<le> sum_list (map fst turns)" using Cons.prems(3) by (intro sum_list_nonneg) auto
  obtain node' where live: "registry_pick (w_registry ?v) (w_now ?v) = Inr node'"
    using pick_earlier [OF Cons.prems(4), of "w_now w + d"] sum by (auto simp: x)
  have inv: "stack_inv ?v" using stack_inv_advance [OF Cons.prems(1)] .
  obtain q oe where p: "ready_pop (w_ready ?v) = (q, oe)" by fastforce
  let ?w = "main_work ?v n1 n2 stamp"
  show ?case
  proof (cases oe)
    case None
    then have "?w = ?v" using inv_pop_none [OF inv] p by (intro main_work_idle [OF inv]) simp
    with Cons.IH [of ?v node] Cons.prems inv show ?thesis by (simp add: x room_def algebra_simps)
  next
    case (Some e)
    have room: "room ?v 2" using Cons.prems(5) by (simp add: room_def)
    note turn = main_work_turn [OF inv p [unfolded Some] live room, where na = n1 and nb = n2 and stamp = stamp]
    obtain e_in: "re_task_id e \<in> ready_queued (w_ready w)" and q: "ready_queued q = ready_queued (w_ready w) - {re_task_id e}"
      using inv_pop [OF inv p [unfolded Some]] by auto
    have "unat (w_seq w + 2) = unat (w_seq w) + 2" using Cons.prems(5) by (simp add: room_def unat_word_ariths)
    moreover have "i \<noteq> re_task_id e" using e_in Cons.prems(2) by auto
    then have "tasks_of ?w i = tasks_of w i" using turn(2) by simp
    ultimately show ?thesis using Cons.IH [of ?w node] Cons.prems turn q e_in
      by (simp add: x room_def algebra_simps)
  qed
qed simp

lemma work_turns_serve:
  assumes "stack_inv w" and "i \<in> ready_queued (w_ready w)" and "ready_len (w_ready w) \<le> length turns"
    and "\<forall>x \<in> set turns. 0 \<le> fst x"
    and "registry_pick (w_registry w) (w_now w + sum_list (map fst turns)) = Inr node" and "room w (2 * length turns)"
  shows "has_state (work_turns w turns) i StateSucceeded"
  using assms
proof (induction turns arbitrary: w node)
  case Nil
  then have "ready_queued (w_ready w) = {}"
    using rq.len_zero_iff [OF queues_okD(1) [OF stack_invD(2) [OF Nil(1)]]] by simp
  with Nil(2) show ?case by simp
next
  case (Cons x turns)
  obtain d n1 n2 stamp where x: "x = (d, n1, n2, stamp)" by (cases x)
  let ?v = "clock_advance w d"
  have sum: "0 \<le> sum_list (map fst turns)" using Cons.prems(4) by (intro sum_list_nonneg) auto
  obtain node' where live: "registry_pick (w_registry ?v) (w_now ?v) = Inr node'"
    using pick_earlier [OF Cons.prems(5), of "w_now w + d"] sum by (auto simp: x)
  have inv: "stack_inv ?v" using stack_inv_advance [OF Cons.prems(1)] .
  have rinv: "ready_inv (w_ready w)" using queues_okD(1) [OF stack_invD(2) [OF Cons.prems(1)]] .
  obtain q oe where p: "ready_pop (w_ready ?v) = (q, oe)" by fastforce
  have "oe \<noteq> None" using inv_pop_none [OF inv] p Cons.prems(2) by auto
  then obtain e where e: "oe = Some e" by blast
  let ?w = "main_work ?v n1 n2 stamp"
  have room: "room ?v 2" using Cons.prems(6) by (simp add: room_def)
  note turn = main_work_turn [OF inv p [unfolded e] live room, where na = n1 and nb = n2 and stamp = stamp]
  have q: "ready_queued q = ready_queued (w_ready w) - {re_task_id e}"
    using inv_pop [OF inv p [unfolded e]] by auto
  have len: "Suc (ready_len q) = ready_len (w_ready w)" using rq.pop_len [OF rinv, of e] p e by simp
  have seq: "unat (w_seq w + 2) = unat (w_seq w) + 2" using Cons.prems(6) by (simp add: room_def unat_word_ariths)
  have later: "registry_pick (w_registry ?w) (w_now ?w + sum_list (map fst turns)) = Inr node"
    "room ?w (2 * length turns)" "\<forall>x \<in> set turns. 0 \<le> fst x"
    using Cons.prems(4-6) turn seq by (simp_all add: x room_def algebra_simps)
  show ?case
  proof (cases "i = re_task_id e")
    case True
    have "i \<notin> ready_queued (w_ready ?w)" using q turn(3) True by simp
    from work_turns_keep [OF turn(7) this later(3,1,2)] turn(1) True show ?thesis by (simp add: x has_state_def)
  next
    case False
    with Cons.IH [OF turn(7) _ _ later(3,1,2)] q turn(3) Cons.prems(2,3) len show ?thesis by (simp add: x)
  qed
qed

text \<open>What one tick does to one task.\<close>

lemma tick_outcome:
  assumes inv: "stack_inv w" and its: "dom (w_next_fire w) \<subseteq> set its" and t: "tasks_of w i = Some t"
    and tick: "sched_tick w its now = (w', n)"
  shows "(state t = StatePending \<and> next_run_at t \<le> now \<longrightarrow>
      has_state w' i StateReady \<and> i \<in> ready_queued (w_ready w')) \<and>
    (\<not> (state t = StatePending \<and> next_run_at t \<le> now) \<longrightarrow> tasks_of w' i = Some t) \<and>
    (\<forall>at. state t = StateReady \<and> delayed_due (w_delayed w) i = Some at \<and> at \<le> now \<longrightarrow> i \<in> ready_queued (w_ready w'))"
proof -
  let ?due = "tick_due w its now"
  obtain w1 n1 where w1: "foldl (tick_pending now) (w, 0) ?due = (w1, n1)" by fastforce
  obtain q es where q: "delayed_pop_due (w_delayed w1) now = (q, es)" by fastforce
  let ?w2 = "w1\<lparr>w_delayed := q\<rparr>"
  have w': "foldl (tick_delayed now) (?w2, n1) es = (w', n)" using tick w1 q by (simp add: sched_tick_def)
  from tick_loop_inv [OF inv, of now 0 ?due] w1
  have inv1: "stack_inv w1" and same: "w_delayed w1 = w_delayed w" by simp_all
  have tasks: "tasks_of w' = tasks_of w1" using tick_delayed_loop_tasks [of now ?w2 n1 es] w' by simp
  have rinv: "ready_inv (w_ready ?w2)" using queues_okD(1) [OF stack_invD(2) [OF inv1]] by simp
  note loop = tick_delayed_loop [OF rinv, of now n1 es]
  have due: "i \<in> set ?due \<longleftrightarrow> next_run_at t \<le> now" if "state t = StatePending"
    using tick_due_iff [OF stack_invD(3) [OF inv] its t that] .
  have fires: "has_state w' i StateReady \<and> i \<in> ready_queued (w_ready w')" if "state t = StatePending \<and> next_run_at t \<le> now"
    using tick_loop_fires [OF inv, of i ?due now 0] due that t w1 loop w' tasks by (auto simp: has_state_def)
  have rest: "tasks_of w' i = Some t" if "\<not> (state t = StatePending \<and> next_run_at t \<le> now)"
  proof (cases "state t = StatePending")
    case True
    with that due have "i \<notin> set ?due" by simp
    from tick_loop_other [OF this, of now w 0] t w1 tasks show ?thesis by simp
  next
    case False
    with tick_leaves [of w i its now] t tick show ?thesis by simp
  qed
  have retried: "i \<in> ready_queued (w_ready w')"
    if d: "state t = StateReady" "delayed_due (w_delayed w) i = Some at" "at \<le> now" for at
  proof -
    have "i \<in> de_task_id ` set es"
      using dq.popped_set [OF queues_okD(2) [OF stack_invD(2) [OF inv1]], of now] d(2,3) same q by auto
    moreover have "tasks_of w1 i = Some t" using rest d(1) tasks by simp
    ultimately show ?thesis using loop w' d(1) inv_task_id [OF inv1, of i] by (auto simp: has_state_def)
  qed
  from fires rest retried show ?thesis by blast
qed

section \<open>Properties\<close>

text \<open>
  C2. No task is lost and none is queued by mistake: in a reachable stack every id in the
  ready queue is a ready task, every ready task is in the ready queue or in the delayed
  queue, and the scheduler's index has the fire time of every pending task.
\<close>

theorem system_no_task_lost:
  assumes r: "sys_reachable w"
  shows "(\<forall>i \<in> ready_queued (w_ready w). has_state w i StateReady) \<and>
    (\<forall>i. has_state w i StateReady \<longrightarrow> i \<in> ready_queued (w_ready w) \<union> delayed_queued (w_delayed w)) \<and>
    (\<forall>i t. tasks_of w i = Some t \<and> state t = StatePending \<longrightarrow> w_next_fire w i = Some (next_run_at t))"
  using stack_invD(2,3) [OF reachable_inv [OF r]] by (auto simp: queues_ok_def tracked_ok_def)

theorem system_no_task_lost_witness: "ready_queued (w_ready demo_ready_stack) = {demo_id} \<and> has_state demo_ready_stack demo_id StateReady"
proof -
  have q: "ready_queued (w_ready demo_ready_stack) = {demo_id}"
    by (simp add: demo_ready_fields rq.queued_push rq.inv_new rq.queued_new)
  with system_no_task_lost [OF demo_ready_reachable] show ?thesis by simp
qed

text \<open>
  C8. A tick makes exactly the due tasks ready: every pending task whose time has come is
  ready and in the ready queue afterwards, every other task is unchanged, and every ready
  task whose retry time has come is in the ready queue too, whatever order the map of fire
  times is walked in.
\<close>

theorem tick_enqueues_due:
  assumes r: "sys_reachable w" and its: "dom (w_next_fire w) \<subseteq> set its" and t: "tasks_of w i = Some t"
    and tick: "sched_tick w its now = (w', n)"
  shows "(state t = StatePending \<and> next_run_at t \<le> now \<longrightarrow>
      has_state w' i StateReady \<and> i \<in> ready_queued (w_ready w')) \<and>
    (\<not> (state t = StatePending \<and> next_run_at t \<le> now) \<longrightarrow> tasks_of w' i = Some t) \<and>
    (\<forall>at. state t = StateReady \<and> delayed_due (w_delayed w) i = Some at \<and> at \<le> now \<longrightarrow> i \<in> ready_queued (w_ready w'))"
  by (rule tick_outcome [OF reachable_inv [OF r] its t tick])

theorem tick_enqueues_due_witness:
  "has_state demo_ready_stack demo_id StateReady \<and> demo_id \<in> ready_queued (w_ready demo_ready_stack)"
proof -
  obtain n where "sched_tick demo_pending [demo_id] 20 = (demo_ready_stack, n)"
    by (cases "sched_tick demo_pending [demo_id] 20") (simp add: demo_ready_stack_def)
  from tick_enqueues_due [OF demo_pending_reachable _ _ this, of demo_id demo_born] show ?thesis
    by (simp add: demo_pending_fields demo_born_def demo_job_def)
qed

text \<open>
  C9. \<open>Assign\<close> on a reachable stack: with nothing queued it reports that no task is ready;
  with a live worker it leases one queued task, which leaves the queue, to a worker that is
  live, under a lease that is current, fits the task's version and ends a TTL later; with
  tasks but no live worker it reports that and the same tasks are still queued and ready.
\<close>

theorem assign_outcomes:
  assumes r: "sys_reachable w" and a: "lease_assign registry_pick w now nano = (w', res)"
  shows "case res of
      Inl err \<Rightarrow>
        (err = ErrNoReadyTask \<and> ready_queued (w_ready w) = {} \<and> w' = w \<or>
         err = WorkerError ErrNoWorker \<and> (\<forall>n. \<not> worker_live (w_registry w) now n) \<and>
           ready_queued (w_ready w') = ready_queued (w_ready w) \<and> ready_queued (w_ready w) \<noteq> {} \<and>
           (\<forall>i \<in> ready_queued (w_ready w'). has_state w' i StateReady))
    | Inr l \<Rightarrow>
        lease_task_id l \<in> ready_queued (w_ready w) \<and>
        ready_queued (w_ready w') = ready_queued (w_ready w) - {lease_task_id l} \<and>
        has_state w' (lease_task_id l) StateLeased \<and> holds_lease w' (lease_task_id l) (lease_id l) \<and>
        lease_deadline l = now + w_ttl w \<and> (\<exists>n. worker_live (w_registry w) now n \<and> node_id n = lease_worker_id l)"
proof -
  note inv = reachable_inv [OF r]
  note rinv = queues_okD(1) [OF stack_invD(2) [OF inv]]
  obtain q oe where p: "ready_pop (w_ready w) = (q, oe)" by fastforce
  show ?thesis
  proof (cases oe)
    case None
    then have e: "ready_queued (w_ready w) = {}" using inv_pop_none [OF inv] p by simp
    moreover have "q = w_ready w" using rq.pop_empty [OF rinv e] p by simp
    ultimately show ?thesis using a p None by (auto simp: lease_assign.simps [of registry_pick w])
  next
    case (Some e)
    note pop = p [unfolded Some]
    obtain t where t: "tasks_of w (re_task_id e) = Some t" "state t = StateReady" "task_id t = re_task_id e"
      "re_task_id e \<in> ready_queued (w_ready w)" "ready_queued q = ready_queued (w_ready w) - {re_task_id e}"
      using inv_pop [OF inv pop] .
    note res = assign_ready [OF inv pop t(1,2), where pick = registry_pick and now = now and nano = nano]
    show ?thesis
    proof (cases "registry_pick (w_registry w) now")
      case (Inl err)
      then have err: "err = ErrNoWorker" "\<forall>n. \<not> worker_live (w_registry w) now n" using rp.pick_none [OF Inl] by auto
      have qi: "ready_inv q" using popped_ready(1) [OF pop rinv] .
      have ts: "tasks_of w' = (tasks_of w)(re_task_id e \<mapsto> moved (moved t StateLeased (w_now w)) StateReady (w_now w))"
        and qs: "ready_queued (w_ready w') = ready_queued (w_ready w)" and re: "res = Inl (WorkerError err)"
        using res a Inl t(4,5) by (auto simp: rq.queued_push [OF qi])
      have "\<forall>i \<in> ready_queued (w_ready w). has_state w i StateReady" using queues_okD(3) [OF stack_invD(2) [OF inv]] by blast
      then have "\<forall>i \<in> ready_queued (w_ready w). has_state w' i StateReady" by (simp add: ts has_state_def)
      with err re qs t(4) show ?thesis by auto
    next
      case (Inr node)
      from rp.pick_live [OF Inr] have "\<exists>n. worker_live (w_registry w) now n \<and> node_id n = node_id node" by blast
      with res a Inr t(4,5) show ?thesis
        by (auto simp: Let_def has_state_def holds_lease_def lease_current_def lease_insert_def)
    qed
  qed
qed

theorem assign_outcomes_witness: "holds_lease demo_leased demo_id demo_key \<and> has_state demo_leased demo_id StateLeased"
  using assign_outcomes [OF demo_ready_reachable demo_assigned] by (simp add: demo_lease_def)

text \<open>
  C4. The service completes what is due: when a tick has run and a worker stays live, then
  after as many turns of the worker's loop as tasks are queued, however much time passes
  between them, every task that was pending and due has succeeded.
\<close>

theorem service_completes_due:
  assumes r: "sys_reachable w" and its: "dom (w_next_fire w) \<subseteq> set its"
    and due: "tasks_of w i = Some t" "state t = StatePending" "next_run_at t \<le> now"
    and tick: "sched_tick w its now = (w1, n)" and turns: "ready_len (w_ready w1) \<le> length turns"
    and time: "\<forall>x \<in> set turns. 0 \<le> fst x"
    and live: "registry_pick (w_registry w1) (w_now w1 + sum_list (map fst turns)) = Inr node"
    and room: "room w1 (2 * length turns)"
  shows "has_state (work_turns w1 turns) i StateSucceeded"
proof -
  note inv = reachable_inv [OF r]
  let ?due = "tick_due w its now"
  obtain v n1 where v: "foldl (tick_pending now) (w, 0) ?due = (v, n1)" by fastforce
  obtain q es where q: "delayed_pop_due (w_delayed v) now = (q, es)" by fastforce
  have w1: "foldl (tick_delayed now) (v\<lparr>w_delayed := q\<rparr>, n1) es = (w1, n)" using tick v q by (simp add: sched_tick_def)
  have "i \<in> set ?due" using tick_due_iff [OF stack_invD(3) [OF inv] its due(1,2)] due(3) by simp
  from tick_loop_fires [OF inv this, of now 0] due v have "i \<in> ready_queued (w_ready v)" by simp
  moreover have "stack_inv v" using tick_loop_inv [OF inv, of now 0 ?due] v by simp
  then have "ready_inv (w_ready (v\<lparr>w_delayed := q\<rparr>))" using queues_okD(1) [OF stack_invD(2)] by force
  ultimately have queued: "i \<in> ready_queued (w_ready w1)"
    using tick_delayed_loop [of "v\<lparr>w_delayed := q\<rparr>" now n1 es] w1 by auto
  have "stack_inv w1" using reachable_inv [OF reachable_step [OF r st_tick [of w its now]]] tick by simp
  from work_turns_serve [OF this queued turns time live room] show ?thesis .
qed

theorem service_completes_due_witness:
  "has_state (work_turns demo_ready_stack [(5, 8, 9, ''s'')]) demo_id StateSucceeded"
proof -
  obtain n where t: "sched_tick demo_pending [demo_id] 20 = (demo_ready_stack, n)"
    by (cases "sched_tick demo_pending [demo_id] 20") (simp add: demo_ready_stack_def)
  obtain node where "registry_pick (w_registry (main_wiring utc 0)) 5 = Inr node" using pick_earlier [OF demo_worker, of 5] by auto
  with service_completes_due [OF demo_pending_reachable _ _ _ _ t, of demo_id demo_born "[(5, 8, 9, ''s'')]" node]
  show ?thesis
    by (simp add: demo_pending_fields demo_born_def demo_job_def demo_ready_fields room_def ready_push_def ready_new_def
        ready_len_def heap_push_def ready_heap_def ready_heap_push_def heap_up.simps Let_def)
qed

end
