(* ===== verification/ApiSafety.thy ===== *)
theory ApiSafety
  imports Progress
begin

text \<open>
  What the control plane promises on top of the scheduler: a batch is registered as a whole
  or not at all, a registered task respects the documented bounds, and what a restore from a
  snapshot leaves undone.
\<close>

section \<open>Batches\<close>

lemma delete_saved_tasks: "tasks_of (delete_saved w i) = (tasks_of w)(i := None)"
  by (auto simp: delete_saved_def store_delete_def split: option.splits)

lemma delete_all_tasks: "tasks_of (foldl delete_saved w is) = (\<lambda>i. if i \<in> set is then None else tasks_of w i)"
proof (induction "is" arbitrary: w)
  case (Cons i "is")
  show ?case by (simp add: Cons.IH delete_saved_tasks fun_eq_iff)
qed simp

lemma delete_saved_frame [simp]:
  "w_now (delete_saved w i) = w_now w" "w_ready (delete_saved w i) = w_ready w"
  by (simp_all add: delete_saved_def split: sum.splits)

lemma delete_all_frame: "w_now (foldl delete_saved w is) = w_now w \<and> w_ready (foldl delete_saved w is) = w_ready w"
  by (induction "is" arbitrary: w) simp_all

text \<open>A refused batch leaves the tasks as they were; an accepted one has added its tasks and nothing else.\<close>

definition added_task :: "'r stack \<Rightarrow> instant \<Rightarrow> task \<Rightarrow> bool" where
  "added_task w now t \<longleftrightarrow> tasks_of w (task_id t) = Some (t\<lparr>version := 1, created_at := now, updated_at := now\<rparr>) \<and>
     w_next_fire w (task_id t) = Some (next_run_at t)"

lemma save_batch_refused:
  "fresh_batch w ts \<Longrightarrow> save_batch w saved ts = (w', Inl e) \<Longrightarrow>
   tasks_of w' = (\<lambda>i. if i \<in> set saved then None else tasks_of w i) \<and> w_ready w' = w_ready w"
proof (induction ts arbitrary: w saved)
  case (Cons t ts)
  show ?case
  proof (cases "store_save (w_store w) (w_now w) t")
    case (Inl e')
    with Cons.prems(2) delete_all_tasks [of w saved] delete_all_frame [of w saved] show ?thesis by auto
  next
    case (Inr s)
    let ?w = "sched_track (w\<lparr>w_store := s\<rparr>) t"
    have t: "fresh_task w t" using Cons.prems(1) by (simp add: fresh_batch_def)
    have tasks: "tasks_of ?w = (tasks_of w)(task_id t \<mapsto> t\<lparr>version := 1, created_at := w_now w, updated_at := w_now w\<rparr>)"
      using saved_new_tasks [OF Inr] t by (simp add: fresh_task_def)
    have "task_id t \<notin> task_id ` set ts" using Cons.prems(1) by (simp add: fresh_batch_def)
    then have "task_id u \<noteq> task_id t" if "u \<in> set ts" for u using that by (metis image_eqI)
    then have "fresh_batch ?w ts" using Cons.prems(1) tasks by (simp add: fresh_batch_def fresh_task_def)
    from Cons.IH [OF this, of "saved @ [task_id t]"] Cons.prems(2) Inr t tasks show ?thesis
      by (auto simp: fresh_task_def fun_eq_iff)
  qed
qed simp

lemma save_batch_accepted:
  "fresh_batch w ts \<Longrightarrow> save_batch w saved ts = (w', Inr ids) \<Longrightarrow>
   ids = saved @ map task_id ts \<and> (\<forall>t \<in> set ts. added_task w' (w_now w) t) \<and>
   (\<forall>i. i \<notin> task_id ` set ts \<longrightarrow> tasks_of w' i = tasks_of w i \<and> w_next_fire w' i = w_next_fire w i) \<and> w_ready w' = w_ready w"
proof (induction ts arbitrary: w saved)
  case (Cons t ts)
  obtain s where s: "store_save (w_store w) (w_now w) t = Inr s" using Cons.prems(2) by (auto split: sum.splits)
  let ?w = "sched_track (w\<lparr>w_store := s\<rparr>) t"
  have t: "fresh_task w t" using Cons.prems(1) by (simp add: fresh_batch_def)
  have tasks: "tasks_of ?w = (tasks_of w)(task_id t \<mapsto> t\<lparr>version := 1, created_at := w_now w, updated_at := w_now w\<rparr>)"
    using saved_new_tasks [OF s] t by (simp add: fresh_task_def)
  have out: "task_id t \<notin> task_id ` set ts" using Cons.prems(1) by (simp add: fresh_batch_def)
  then have "task_id u \<noteq> task_id t" if "u \<in> set ts" for u using that by (metis image_eqI)
  then have "fresh_batch ?w ts" using Cons.prems(1) tasks by (simp add: fresh_batch_def fresh_task_def)
  from Cons.IH [OF this, of "saved @ [task_id t]"] Cons.prems(2) s
  have ih: "ids = saved @ map task_id (t # ts)" "\<forall>u \<in> set ts. added_task w' (w_now w) u"
    "\<forall>i. i \<notin> task_id ` set ts \<longrightarrow> tasks_of w' i = tasks_of ?w i \<and> w_next_fire w' i = w_next_fire ?w i" "w_ready w' = w_ready w"
    by simp_all
  from ih(3) out tasks have "added_task w' (w_now w) t" by (simp add: added_task_def)
  with ih tasks show ?case by simp
qed simp

lemma build_batch_fresh:
  assumes inv: "stack_inv w" and room: "room w (length reqs)" and b: "build_batch parse_time w nanos reqs = (w1, r)"
  shows "\<exists>g. w1 = w\<lparr>w_seq := g\<rparr>" and "r = Inr ts \<Longrightarrow> fresh_batch w1 ts"
proof -
  from build_batch_result [OF b] room obtain n where n: "w1 = w\<lparr>w_seq := w_seq w + of_nat n\<rparr>"
    and ts: "\<And>ts. r = Inr ts \<Longrightarrow> distinct (map task_id ts) \<and>
       (\<forall>t \<in> set ts. issued (w_seq w1) ''task'' (task_id t) \<and> \<not> issued (w_seq w) ''task'' (task_id t) \<and>
          state t = StatePending \<and> retries_left t = max_retries t)" by (auto simp: room_def)
  from n show "\<exists>g. w1 = w\<lparr>w_seq := g\<rparr>" by blast
  assume r: "r = Inr ts"
  have "tasks_of w1 (task_id t) = None" if "t \<in> set ts" for t
    using ts [OF r] that stack_invD(5) [OF inv] by (auto simp: ids_ok_def n)
  with ts [OF r] show "fresh_batch w1 ts" by (simp add: fresh_batch_def fresh_task_def)
qed

text \<open>Every built task has passed the validation, in order.\<close>

lemma build_task_valid: "build_task parse_time w nano req = (w1, Inr t) \<Longrightarrow> validate_task (Some t) (w_now w) = None"
  by (auto simp: build_task_def Let_def split: prod.splits sum.splits option.splits if_splits)

lemma build_batch_valid:
  "build_batch parse_time w nanos reqs = (w1, Inr ts) \<Longrightarrow>
   length ts = length reqs \<and> (\<forall>t \<in> set ts. validate_task (Some t) (w_now w) = None)"
proof (induction reqs arbitrary: w nanos ts)
  case (Cons req reqs)
  obtain w2 t where b: "build_task parse_time w (nanos 0) req = (w2, Inr t)" 
    using Cons.prems by (auto split: prod.splits sum.splits)
  obtain ts' where ts: "build_batch parse_time w2 (\<lambda>k. nanos (Suc k)) reqs = (w1, Inr ts')" "ts = t # ts'"
    using Cons.prems b by (auto split: prod.splits sum.splits)
  have "w_now w2 = w_now w" using build_task_result(1) [OF b] by simp
  with Cons.IH [OF ts(1)] ts(2) build_task_valid [OF b] show ?case by simp
qed simp

text \<open>
  A timeout is multiplied into nanoseconds without a check: two requests whose timeouts
  differ by 2^58 milliseconds, nine million years, build the same task.
\<close>

lemma timeout_wraps:
  "build_task parse_time w nano (req\<lparr>rr_timeout_ms := ms + 2 ^ 58\<rparr>) = build_task parse_time w nano (req\<lparr>rr_timeout_ms := ms\<rparr>)"
proof -
  have "(x + 15625 * 2 ^ 64 + 2 ^ 63) mod 2 ^ 64 = (x + 2 ^ 63) mod 2 ^ 64" for x :: int
    using mod_mult_self1 [of "x + 2 ^ 63" 15625 "2 ^ 64"] by (simp add: algebra_simps)
  then have "wrap64 (ms * 10 ^ 6 + 15625 * 2 ^ 64) = wrap64 (ms * 10 ^ 6)" by (simp only: wrap64_def)
  then have "wrap64 ((ms + 2 ^ 58) * 10 ^ 6) = wrap64 (ms * 10 ^ 6)" by (simp add: algebra_simps)
  then show ?thesis by (simp add: build_task_def)
qed

section \<open>Restoring\<close>

text \<open>Ticks of the scheduler, each with its iteration order and time.\<close>

fun tick_run :: "'r stack \<Rightarrow> (string list \<times> instant) list \<Rightarrow> 'r stack" where
  "tick_run w [] = w"
| "tick_run w ((its, now) # ticks) = tick_run (fst (sched_tick w its now)) ticks"

lemma tick_pending_fire:
  "j \<noteq> i \<Longrightarrow> w_next_fire (fst (tick_pending now (w, n) i)) j = w_next_fire w j"
  by (auto simp: tick_pending_def tick_cron_def sched_set_next_fire_def Let_def split: sum.splits prod.splits)

lemma tick_loop_fire: "i \<notin> set is \<Longrightarrow> w_next_fire (fst (foldl (tick_pending now) (w, n) is)) i = w_next_fire w i"
proof (induction "is" arbitrary: w n)
  case (Cons j "is")
  obtain w1 n1 where f: "tick_pending now (w, n) j = (w1, n1)" by fastforce
  with tick_pending_fire [of i j now w n] Cons show ?case by auto
qed simp

lemma tick_delayed_fire: "w_next_fire (fst (foldl (tick_delayed now) (w, n) es)) = w_next_fire w"
proof (induction es arbitrary: w n)
  case (Cons e es)
  obtain w1 n1 where f: "tick_delayed now (w, n) e = (w1, n1)" by fastforce
  then have "w_next_fire w1 = w_next_fire w" by (auto simp: tick_delayed_def split: sum.splits if_splits)
  with Cons.IH [of w1 n1] f show ?case by simp
qed simp

text \<open>A task without a fire time is not touched by a tick and gets none.\<close>

lemma tick_untracked:
  assumes "w_next_fire w i = None"
  shows "tasks_of (fst (sched_tick w its now)) i = tasks_of w i" and "w_next_fire (fst (sched_tick w its now)) i = None"
proof -
  obtain w1 n1 where w1: "foldl (tick_pending now) (w, 0) (tick_due w its now) = (w1, n1)" by fastforce
  obtain q es where q: "delayed_pop_due (w_delayed w1) now = (q, es)" by fastforce
  have out: "i \<notin> set (tick_due w its now)" using assms by (simp add: tick_due_def)
  have t: "fst (sched_tick w its now) = fst (foldl (tick_delayed now) (w1\<lparr>w_delayed := q\<rparr>, n1) es)"
    using w1 q by (simp add: sched_tick_def)
  show "tasks_of (fst (sched_tick w its now)) i = tasks_of w i"
    using tick_loop_other [OF out, of now w 0] w1 by (simp add: t tick_delayed_loop_tasks)
  show "w_next_fire (fst (sched_tick w its now)) i = None"
    using tick_loop_fire [OF out, of now w 0] w1 assms by (simp add: t tick_delayed_fire)
qed

lemma tick_run_untracked: "w_next_fire w i = None \<Longrightarrow> tasks_of (tick_run w ticks) i = tasks_of w i"
proof (induction w ticks rule: tick_run.induct)
  case (2 w its now ticks)
  from 2(1) tick_untracked [OF 2(2), of its now] show ?case by simp
qed simp

section \<open>One registration\<close>

lemma api_registered:
  assumes inv: "stack_inv w" and room: "room w 1"
    and r: "api_register_task parse_time he w nano (Some req) = (w', Response 200 (TaskBody t))"
  shows "added_task w' (w_now w) t" and "\<exists>w1. build_task parse_time w nano req = (w1, Inr t)"
proof -
  obtain w1 res where b: "build_task parse_time w nano req = (w1, res)" by fastforce
  with r obtain s where t: "res = Inr t" and s: "store_save (w_store w1) (w_now w1) t = Inr s"
    and w': "w' = audit_action he (sched_track (w1\<lparr>w_store := s\<rparr>) t) ''register'' (task_id t)"
    by (auto simp: api_register_task_def split: sum.splits)
  show "\<exists>w1. build_task parse_time w nano req = (w1, Inr t)" using b t by blast
  have "build_batch parse_time w (\<lambda>_. nano) [req] = (w1, Inr [t])" using b t by simp
  with build_batch_fresh(2) [OF inv, of "[req]"] room have "fresh_batch w1 [t]" by simp
  from save_batch_accepted [OF this, of "[]" "sched_track (w1\<lparr>w_store := s\<rparr>) t" "[task_id t]"] s
  have "added_task (sched_track (w1\<lparr>w_store := s\<rparr>) t) (w_now w1) t" by simp
  then show "added_task w' (w_now w) t"
    using build_task_result(1) [OF b] by (simp add: w' added_task_def audit_action_def)
qed

lemma built_cron:
  assumes "build_task parse_time w nano req = (w1, Inr t)" and "tb_kind (rr_trigger req) = ''cron''"
    and "cron_parse (tb_cron (rr_trigger req)) = Inr sch"
  shows "next_run_at t = cron_next (w_loc w) sch (w_now w) \<and> state t = StatePending"
  using assms by (auto simp: build_task_def Let_def split: prod.splits option.splits)

section \<open>Concrete requests\<close>

definition demo_request :: register_request where
  "demo_request = \<lparr>rr_name = ''n'', rr_handler = ''h'', rr_payload = '''', rr_priority = 3, rr_timeout_ms = 20, rr_max_retry = 2,
     rr_trigger = \<lparr>tb_kind = ''once'', tb_run_at = ''soon'', tb_cron = ''''\<rparr>\<rparr>"

definition demo_snapshot :: snapshot where
  "demo_snapshot = \<lparr>sn_version = 1, sn_tasks = [demo_born], sn_records = []\<rparr>"

lemma demo_built:
  "\<exists>t. build_task (\<lambda>_. Some 50) demo_pending 3 demo_request = (demo_pending\<lparr>w_seq := 2\<rparr>, Inr t) \<and> task_name t = ''n''"
proof -
  have trim: "trim_space ''n'' = ''n''" "trim_space ''h'' = ''h''" by code_simp+
  obtain k where k: "id_next 1 ''task'' 3 = (2, k)"
    using fst_id_next [of 1 "''task''" 3] by (cases "id_next 1 ''task'' 3") simp
  have "wrap64 20000000 = 20000000" by (simp add: wrap64_def)
  then show ?thesis
    by (simp add: build_task_def demo_request_def trim Let_def validate_task_def demo_pending_fields day_ns_def k)
qed

lemma demo_batch_accepted:
  "\<exists>w' bd. api_register_batch (\<lambda>_. Some 50) demo_env demo_pending (\<lambda>_. 3) (Some [demo_request]) = (w', Response 200 bd)"
proof -
  obtain t where t: "build_task (\<lambda>_. Some 50) demo_pending 3 demo_request = (demo_pending\<lparr>w_seq := 2\<rparr>, Inr t)" "task_name t = ''n''"
    using demo_built by blast
  then have b: "build_batch (\<lambda>_. Some 50) demo_pending (\<lambda>_. 3) [demo_request] = (demo_pending\<lparr>w_seq := 2\<rparr>, Inr [t])" by simp
  have room: "room demo_pending (length [demo_request])" by (simp add: room_def demo_pending_fields)
  have inv: "stack_inv demo_pending" by (rule reachable_inv [OF demo_pending_reachable])
  have "fresh_batch (demo_pending\<lparr>w_seq := 2\<rparr>) [t]" by (rule build_batch_fresh(2) [OF inv room b refl])
  then have new: "tasks_of demo_pending (task_id t) = None" by (simp add: fresh_batch_def fresh_task_def)
  have "task_id t \<noteq> ''''" using build_task_result(2) [OF t(1) refl] by (auto simp: id_next_def Let_def)
  with new t(2) obtain s where "store_save (w_store demo_pending) 0 t = Inr s"
    by (auto simp: store_save_def Let_def demo_pending_names)
  with b show ?thesis by (simp add: api_register_batch_def demo_env_def config_default_def demo_pending_fields)
qed

text \<open>A request for every 30 February, at midnight.\<close>

definition leap_request :: register_request where
  "leap_request = demo_request\<lparr>rr_trigger := \<lparr>tb_kind = ''cron'', tb_run_at = '''', tb_cron = ''0 0 30 2 *''\<rparr>\<rparr>"

definition leap_schedule :: schedule where
  "leap_schedule = \<lparr>sc_minute = [0], sc_hour = [0], sc_day_of_month = [30], sc_month = [2], sc_day_of_week = [0..6]\<rparr>"

lemma leap_parsed: "cron_parse ''0 0 30 2 *'' = Inr leap_schedule"
proof -
  have fields: "go_fields ''0 0 30 2 *'' = [''0'', ''0'', ''30'', ''2'', ''*'']" by code_simp
  have loop: "step_loop v v 1 = Some [v]" if "0 \<le> v" "v \<le> 59" for v using that step_loop_fits [of 1 v v] by simp
  show ?thesis
    by (simp add: cron_parse_def cron_parse_run_def with_field_def parse_field_def Let_def fields part_range_def
        part_step_def base_range_def go_index_def atoi_def is_digit_def decimal_def digit_value_def in_int64_def loop
        leap_schedule_def)
qed

lemma leap_never_fires: "\<not> fires_at leap_schedule u"
  by (rule impossible_dates_never_fire) (simp add: leap_schedule_def longest_month_def)

lemma leap_registered:
  "\<exists>w' t. api_register_task (\<lambda>_. None) demo_env (main_wiring utc 0) 3 (Some leap_request) = (w', Response 200 (TaskBody t)) \<and>
     dom (w_next_fire w') = {task_id t}"
proof -
  have trim: "trim_space ''n'' = ''n''" "trim_space ''h'' = ''h''" "trim_space ''0 0 30 2 *'' \<noteq> ''''" by code_simp+
  obtain k where k: "id_next 0 ''task'' 3 = (1, k)"
    using fst_id_next [of 0 "''task''" 3] by (cases "id_next 0 ''task'' 3") simp
  then have ne: "k \<noteq> ''''" by (auto simp: id_next_def Let_def)
  have "wrap64 20000000 = 20000000" by (simp add: wrap64_def)
  then obtain t where t: "build_task (\<lambda>_. None) (main_wiring utc 0) 3 leap_request = ((main_wiring utc 0)\<lparr>w_seq := 1\<rparr>, Inr t)"
    "task_id t = k"
    by (simp add: build_task_def leap_request_def demo_request_def trim Let_def validate_task_def leap_parsed day_ns_def k
        main_wiring_fields)
  moreover from ne t(2) obtain s where "store_save (w_store (main_wiring utc 0)) 0 t = Inr s"
    by (simp add: store_save_def Let_def main_wiring_fields)
  ultimately show ?thesis
    by (simp add: api_register_task_def main_wiring_fields audit_action_def sched_track_def)
qed

section \<open>Properties\<close>

text \<open>
  C18. A batch is all or nothing: when \<open>RegisterBatch\<close> answers with an error, the stored
  tasks and the ready queue are as before; when it answers 200, the response lists one new
  identifier per request, every listed task has passed the validation, is stored pending at
  version one and is indexed by its fire time, and no other task has changed.
\<close>

theorem batch_all_or_nothing:
  assumes r: "sys_reachable w" and room: "room w (length reqs)"
    and b: "api_register_batch parse_time he w nanos (Some reqs) = (w', Response c bd)"
  shows "(c \<noteq> 200 \<longrightarrow> tasks_of w' = tasks_of w \<and> w_ready w' = w_ready w) \<and>
    (c = 200 \<longrightarrow> (\<exists>ts. length ts = length reqs \<and> bd = IdsBody ''registered'' (map task_id ts) \<and> distinct (map task_id ts) \<and>
       (\<forall>t \<in> set ts. tasks_of w (task_id t) = None \<and> validate_task (Some t) (w_now w) = None \<and> added_task w' (w_now w) t) \<and>
       (\<forall>i. i \<notin> task_id ` set ts \<longrightarrow> tasks_of w' i = tasks_of w i)))"
proof (cases "reqs = [] \<or> cf_max_batch_size (he_cfg he) < int (length reqs)")
  case True
  with b show ?thesis by (auto simp: api_register_batch_def)
next
  case False
  obtain w1 res where w1: "build_batch parse_time w nanos reqs = (w1, res)" by fastforce
  obtain g where g: "w1 = w\<lparr>w_seq := g\<rparr>" using build_batch_fresh(1) [OF reachable_inv [OF r] room w1] by blast
  show ?thesis
  proof (cases res)
    case (Inl e)
    with b False w1 g show ?thesis by (auto simp: api_register_batch_def)
  next
    case (Inr ts)
    have fresh: "fresh_batch w1 ts" using build_batch_fresh(2) [OF reachable_inv [OF r] room w1 Inr] .
    obtain w2 o2 where o2: "save_batch w1 [] ts = (w2, o2)" by fastforce
    show ?thesis
    proof (cases o2)
      case (Inl e)
      with save_batch_refused [OF fresh, of "[]" w2 e] o2 b False w1 \<open>res = Inr ts\<close> g show ?thesis
        by (auto simp: api_register_batch_def)
    next
      case (Inr ids)
      from save_batch_accepted [OF fresh, of "[]" w2 ids] o2 Inr g
      have acc: "ids = map task_id ts" "\<forall>t \<in> set ts. added_task w2 (w_now w) t"
        "\<forall>i. i \<notin> task_id ` set ts \<longrightarrow> tasks_of w2 i = tasks_of w i" by simp_all
      have audit: "tasks_of (foldl (\<lambda>w i. audit_action he w ''register-batch'' i) v is) = tasks_of v \<and>
          w_next_fire (foldl (\<lambda>w i. audit_action he w ''register-batch'' i) v is) = w_next_fire v" for v "is"
        by (induction "is" arbitrary: v) (simp_all add: audit_action_def)
      have w': "w' = foldl (\<lambda>w i. audit_action he w ''register-batch'' i) w2 ids" "c = 200" "bd = IdsBody ''registered'' ids"
        using b False w1 \<open>res = Inr ts\<close> o2 Inr by (simp_all add: api_register_batch_def)
      have "added_task w' (w_now w) t" if "t \<in> set ts" for t
        using acc(2) that audit [of w2 ids] by (simp add: added_task_def w'(1))
      moreover have "tasks_of w (task_id t) = None" if "t \<in> set ts" for t
        using fresh that by (simp add: fresh_batch_def fresh_task_def g)
      ultimately show ?thesis
        using w' acc audit [of w2 ids] fresh build_batch_valid [of parse_time w nanos reqs w1 ts] w1 \<open>res = Inr ts\<close>
        by (intro conjI impI exI [of _ ts]) (simp_all add: fresh_batch_def)
    qed
  qed
qed

theorem batch_all_or_nothing_witness:
  "\<exists>w' bd ts. api_register_batch (\<lambda>_. Some 50) demo_env demo_pending (\<lambda>_. 3) (Some [demo_request]) = (w', Response 200 bd) \<and>
     bd = IdsBody ''registered'' (map task_id ts) \<and> length ts = 1 \<and> (\<forall>t \<in> set ts. added_task w' 0 t)"
proof -
  obtain w' bd where r: "api_register_batch (\<lambda>_. Some 50) demo_env demo_pending (\<lambda>_. 3) (Some [demo_request]) = (w', Response 200 bd)"
    using demo_batch_accepted by blast
  have "room demo_pending (length [demo_request])" by (simp add: room_def demo_pending_fields)
  from batch_all_or_nothing [OF demo_pending_reachable this r] r show ?thesis by (auto simp: demo_pending_fields)
qed

text \<open>
  C21. A restore does not schedule what it restores: it rebuilds the store only, so a restored
  task whose fire time the scheduler did not already know is never fired, whatever ticks
  follow and however long ago it was due.
\<close>

theorem restored_task_never_fires:
  assumes restore: "api_restore w stamp (Some snap) = (w', Response 200 bd)" and unknown: "w_next_fire w i = None"
    and t: "tasks_of w' i = Some t"
  shows "tasks_of (tick_run w' ticks) i = Some t"
proof -
  have "w_next_fire w' = w_next_fire w" using restore by (auto simp: api_restore_def split: prod.splits option.splits)
  with tick_run_untracked [of w' i ticks] unknown t show ?thesis by simp
qed

theorem restored_task_never_fires_witness:
  "\<exists>w' bd t. api_restore (main_wiring utc 0) '''' (Some demo_snapshot) = (w', Response 200 bd) \<and>
     tasks_of (tick_run w' [([demo_id], 20), ([demo_id], 30)]) demo_id = Some t \<and> state t = StatePending \<and> next_run_at t = 10"
proof -
  obtain w' bd where r: "api_restore (main_wiring utc 0) '''' (Some demo_snapshot) = (w', Response 200 bd)"
    "tasks_of w' demo_id = Some demo_born"
    by (auto simp: api_restore_def store_import_def demo_snapshot_def store_save_def store_reset_def demo_born_def demo_job_def
        demo_id_nonempty main_wiring_fields Let_def)
  from restored_task_never_fires [OF r(1) _ r(2), of "[([demo_id], 20), ([demo_id], 30)]"] r show ?thesis
    by (intro exI [of _ w'] exI [of _ bd] exI [of _ demo_born]) (simp add: main_wiring_fields demo_born_def demo_job_def)
qed

text \<open>
  C34. A cron task whose schedule never fires, like one for 30 February, is run all the same: once
  registered, its fire time is the instant eight years ahead that \<open>Next\<close> makes up; a tick before
  that leaves it as it is, and a tick from then on makes it ready and queues it.
\<close>

theorem impossible_cron_runs:
  assumes r: "sys_reachable w" and room: "room w 1"
    and reg: "api_register_task parse_time he w nano (Some req) = (w', Response 200 (TaskBody t))"
    and cron: "tb_kind (rr_trigger req) = ''cron''" "cron_parse (tb_cron (rr_trigger req)) = Inr sch"
    and never: "\<forall>u. \<not> fires_at sch u"
    and tick: "dom (w_next_fire w') \<subseteq> set its" "sched_tick w' its now = (w'', n)"
  shows "next_run_at t = add_years (w_loc w) (w_now w) 8 \<and> added_task w' (w_now w) t \<and>
    (if add_years (w_loc w) (w_now w) 8 \<le> now
     then has_state w'' (task_id t) StateReady \<and> task_id t \<in> ready_queued (w_ready w'')
     else tasks_of w'' (task_id t) = tasks_of w' (task_id t))"
proof -
  note added = api_registered [OF reachable_inv [OF r] room reg]
  have next_run: "next_run_at t = add_years (w_loc w) (w_now w) 8" "state t = StatePending"
    using added(2) built_cron [OF _ cron] cron_next_never [of sch] never by auto
  have "w' = fst (api_register_task parse_time he w nano (Some req))" using reg by simp
  then have "sys_reachable w'" using reachable_step [OF r st_api_register [OF room]] by simp
  note out = tick_outcome [OF reachable_inv [OF this] tick(1) _ tick(2), of "task_id t"]
  show ?thesis using added(1) next_run out by (auto simp: added_task_def)
qed

theorem impossible_cron_runs_witness:
  "\<exists>w' t. api_register_task (\<lambda>_. None) demo_env (main_wiring utc 0) 3 (Some leap_request) = (w', Response 200 (TaskBody t)) \<and>
     has_state (fst (sched_tick w' [task_id t] (add_years utc 0 8))) (task_id t) StateReady"
proof -
  obtain w' t where reg: "api_register_task (\<lambda>_. None) demo_env (main_wiring utc 0) 3 (Some leap_request) = (w', Response 200 (TaskBody t))"
    and dom: "dom (w_next_fire w') = {task_id t}" using leap_registered by blast
  have reach: "sys_reachable (main_wiring utc 0)" using sys_reachable.intros [OF sys_start.intros(2) rtranclp.rtrancl_refl] .
  have room: "room (main_wiring utc 0) 1" by (simp add: room_def main_wiring_fields)
  have cron: "tb_kind (rr_trigger leap_request) = ''cron''" "cron_parse (tb_cron (rr_trigger leap_request)) = Inr leap_schedule"
    by (simp_all add: leap_request_def leap_parsed)
  have never: "\<forall>u. \<not> fires_at leap_schedule u" using leap_never_fires by blast
  obtain w'' n where tick: "sched_tick w' [task_id t] (add_years utc 0 8) = (w'', n)" by fastforce
  have "w_loc (main_wiring utc 0) = utc" by (simp add: main_wiring_def harness_new_with_def Let_def split: sum.splits)
  with impossible_cron_runs [OF reach room reg cron never _ tick] dom reg tick show ?thesis
    by (auto simp: main_wiring_fields)
qed

end
