(* ===== verification/Router.thy ===== *)
theory Router
  imports Api
begin

text \<open>
  \<open>internal/api/router.go\<close>: the table of patterns that \<open>Routes\<close> registers, and what the mux of
  \<open>net/http\<close> does with it (as documented since Go 1.22): a path that is not clean is
  redirected; of the patterns that match the method and the path the most specific is
  served; when the path matches for other methods only the answer is 405. Paths are taken
  without percent escapes, and methods other than CONNECT, which is not redirected.
\<close>

section \<open>The code\<close>

datatype endpoint =
    RegisterTask | RegisterBatch | TriggerNow | CancelTask | UpdateCron | ListTasks | GetTask | GetRecords
  | RegisterWorker | Heartbeat | ListWorkers | TakeSnapshot | RestoreSnapshot | PurgeRecords

datatype segment = Lit string | Wild

datatype verdict = Serve endpoint | Redirected | MethodNotAllowed | NotFound

type_synonym pattern = "string \<times> segment list \<times> endpoint"

definition routes :: "pattern list" where
  "routes =
     [(''POST'', [Lit ''api'', Lit ''tasks'', Lit ''register''], RegisterTask),
      (''POST'', [Lit ''api'', Lit ''tasks'', Lit ''register-batch''], RegisterBatch),
      (''POST'', [Lit ''api'', Lit ''tasks'', Lit ''trigger''], TriggerNow),
      (''POST'', [Lit ''api'', Lit ''tasks'', Lit ''cancel''], CancelTask),
      (''POST'', [Lit ''api'', Lit ''tasks'', Lit ''update-cron''], UpdateCron),
      (''GET'', [Lit ''api'', Lit ''tasks''], ListTasks),
      (''GET'', [Lit ''api'', Lit ''tasks'', Wild], GetTask),
      (''GET'', [Lit ''api'', Lit ''tasks'', Lit ''records'', Wild], GetRecords),
      (''POST'', [Lit ''api'', Lit ''workers'', Lit ''register''], RegisterWorker),
      (''POST'', [Lit ''api'', Lit ''workers'', Lit ''heartbeat''], Heartbeat),
      (''GET'', [Lit ''api'', Lit ''workers''], ListWorkers),
      (''GET'', [Lit ''api'', Lit ''snapshot''], TakeSnapshot),
      (''POST'', [Lit ''api'', Lit ''snapshot'', Lit ''restore''], RestoreSnapshot),
      (''POST'', [Lit ''api'', Lit ''records'', Lit ''purge''], PurgeRecords)]"

text \<open>A wildcard stands for one segment that is not empty.\<close>

fun seg_matches :: "segment \<Rightarrow> string \<Rightarrow> bool" where
  "seg_matches (Lit l) s \<longleftrightarrow> s = l"
| "seg_matches Wild s \<longleftrightarrow> s \<noteq> ''''"

definition path_matches :: "string list \<Rightarrow> pattern \<Rightarrow> bool" where
  "path_matches segs = (\<lambda>(m, p, e). list_all2 seg_matches p segs)"

definition method_matches :: "string \<Rightarrow> pattern \<Rightarrow> bool" where
  "method_matches method = (\<lambda>(m, p, e). m = method \<or> m = ''GET'' \<and> method = ''HEAD'')"

definition as_specific :: "pattern \<Rightarrow> pattern \<Rightarrow> bool" where
  "as_specific = (\<lambda>(m, p, e) (m', p', e'). list_all2 (\<lambda>a b. b = Wild \<or> a = b) p p')"

definition unclean :: "string list \<Rightarrow> bool" where
  "unclean segs \<longleftrightarrow> '''' \<in> set (butlast segs) \<or> ''.'' \<in> set segs \<or> ''..'' \<in> set segs"

definition route :: "string \<Rightarrow> string \<Rightarrow> verdict" where
  "route method path =
     (let segs = tl (go_split (CHR ''/'') path);
          here = filter (path_matches segs) routes;
          able = filter (method_matches method) here
      in if unclean segs then Redirected
         else case find (\<lambda>p. list_all (as_specific p) able) able of
                Some (_, _, e) \<Rightarrow> Serve e
              | None \<Rightarrow> if here = [] then NotFound else MethodNotAllowed)"

section \<open>Splitting a path\<close>

lemma go_split_part: "CHR ''/'' \<notin> set i \<Longrightarrow> go_split (CHR ''/'') i = [i]"
  by (induction i) auto

lemma split_task_path:
  assumes "CHR ''/'' \<notin> set i"
  shows "tl (go_split (CHR ''/'') (''/api/tasks/'' @ i)) = [''api'', ''tasks'', i]"
    and "tl (go_split (CHR ''/'') (''/api/tasks/records/'' @ i)) = [''api'', ''tasks'', ''records'', i]"
  using go_split_part [OF assms] by simp_all

text \<open>No pattern is shadowed by another.\<close>

fun sample_path :: "segment list \<Rightarrow> string" where
  "sample_path [] = ''''"
| "sample_path (Lit l # p) = CHR ''/'' # l @ sample_path p"
| "sample_path (Wild # p) = ''/x'' @ sample_path p"

lemma routes_all_served: "\<forall>(m, p, e) \<in> set routes. route m (sample_path p) = Serve e"
  by code_simp

section \<open>Properties\<close>

text \<open>
  C22. A task of any identifier that a path can hold is reached under that identifier, by its
  own path and by that of its records, also when it is called like another route; posting
  to it finds the five actions only.
\<close>

theorem route_reaches_task:
  assumes "i \<noteq> ''''" and "CHR ''/'' \<notin> set i" and "i \<noteq> ''.''" and "i \<noteq> ''..''"
  shows "route ''GET'' (''/api/tasks/'' @ i) = Serve GetTask \<and> path_id ''/api/tasks/'' (''/api/tasks/'' @ i) = Some i \<and>
    route ''GET'' (''/api/tasks/records/'' @ i) = Serve GetRecords \<and>
    path_id ''/api/tasks/records/'' (''/api/tasks/records/'' @ i) = Some i \<and>
    route ''POST'' (''/api/tasks/'' @ i) =
      (if i = ''register'' then Serve RegisterTask else if i = ''register-batch'' then Serve RegisterBatch
       else if i = ''trigger'' then Serve TriggerNow else if i = ''cancel'' then Serve CancelTask
       else if i = ''update-cron'' then Serve UpdateCron else MethodNotAllowed)"
proof -
  have "route ''GET'' (''/api/tasks/'' @ i) = Serve GetTask"
    unfolding route_def Let_def split_task_path [OF assms(2)] using assms
    by (simp add: routes_def path_matches_def method_matches_def as_specific_def unclean_def)
  moreover have "route ''GET'' (''/api/tasks/records/'' @ i) = Serve GetRecords"
    unfolding route_def Let_def split_task_path [OF assms(2)] using assms
    by (simp add: routes_def path_matches_def method_matches_def as_specific_def unclean_def)
  moreover have "route ''POST'' (''/api/tasks/'' @ i) =
      (if i = ''register'' then Serve RegisterTask else if i = ''register-batch'' then Serve RegisterBatch
       else if i = ''trigger'' then Serve TriggerNow else if i = ''cancel'' then Serve CancelTask
       else if i = ''update-cron'' then Serve UpdateCron else MethodNotAllowed)"
    unfolding route_def Let_def split_task_path [OF assms(2)] using assms
    by (simp add: routes_def path_matches_def method_matches_def as_specific_def unclean_def)
  ultimately show ?thesis using assms by (simp add: path_id_def trim_prefix_def)
qed

theorem route_reaches_task_witness:
  "route ''GET'' ''/api/tasks/register'' = Serve GetTask \<and> route ''POST'' ''/api/tasks/task-1-ab'' = MethodNotAllowed"
  using route_reaches_task [of "''register''"] route_reaches_task [of "''task-1-ab''"] by simp

end
