(* ===== verification/Threads.thy ===== *)
theory Threads
  imports Main
begin

text \<open>
  Concurrent operations in general. A goroutine is a tree of actions: each action is what the
  code does under one acquisition of a mutex (or one atomic add), and what follows depends
  on the state it found. Loops may go on for ever, so the tree may be infinite. A pool of
  such programs runs by interleaving their actions.

  The locale at the end is for programs that guard their changes by version numbers: what
  they claim to have changed, no two of them claim.
\<close>

section \<open>Programs\<close>

codatatype ('s, 'a) prog =
    Done 'a
  | Act "'s \<Rightarrow> 's" "'s \<Rightarrow> ('s, 'a) prog"

text \<open>An action with a result, and an action on the state alone.\<close>

definition act :: "('s \<Rightarrow> 's \<times> 'b) \<Rightarrow> ('b \<Rightarrow> ('s, 'a) prog) \<Rightarrow> ('s, 'a) prog" where
  "act a k = Act (\<lambda>s. fst (a s)) (\<lambda>s. k (snd (a s)))"

definition upd :: "('s \<Rightarrow> 's) \<Rightarrow> ('s, 'a) prog \<Rightarrow> ('s, 'a) prog" where
  "upd f p = Act f (\<lambda>s. p)"

definition ask :: "('s \<Rightarrow> 'b) \<Rightarrow> ('b \<Rightarrow> ('s, 'a) prog) \<Rightarrow> ('s, 'a) prog" where
  "ask q k = Act (\<lambda>s. s) (\<lambda>s. k (q s))"

primcorec and_then :: "('s, 'a) prog \<Rightarrow> ('a \<Rightarrow> ('s, 'b) prog) \<Rightarrow> ('s, 'b) prog" where
  "and_then p k = (case p of Done x \<Rightarrow> k x | Act f g \<Rightarrow> Act f (\<lambda>s. and_then (g s) k))"

lemma and_then_simps [simp]:
  "and_then (Done x) k = k x"
  "and_then (Act f g) k = Act f (\<lambda>s. and_then (g s) k)"
  by (simp_all add: and_then.code)

lemma and_then_forms [simp]:
  "and_then (act a h) k = act a (\<lambda>x. and_then (h x) k)"
  "and_then (upd f p) k = upd f (and_then p k)"
  "and_then (ask q h) k = ask q (\<lambda>x. and_then (h x) k)"
  by (simp_all add: act_def upd_def ask_def)

section \<open>Running alone\<close>

inductive finishes :: "('s, 'a) prog \<Rightarrow> 's \<Rightarrow> 's \<Rightarrow> 'a \<Rightarrow> bool" where
  fin_done: "finishes (Done x) s s x"
| fin_act: "finishes (g s) (f s) s' x \<Longrightarrow> finishes (Act f g) s s' x"

inductive_simps finishes_simps [simp]: "finishes (Done x) s s' y" "finishes (Act f g) s s' y"

lemma finishes_forms [simp]:
  "finishes (act a k) s s' x \<longleftrightarrow> finishes (k (snd (a s))) (fst (a s)) s' x"
  "finishes (upd f p) s s' x \<longleftrightarrow> finishes p (f s) s' x"
  "finishes (ask q k) s s' x \<longleftrightarrow> finishes (k (q s)) s s' x"
  by (simp_all add: act_def upd_def ask_def)

lemma finishes_and_then:
  "finishes p s s1 x \<Longrightarrow> finishes (k x) s1 s2 y \<Longrightarrow> finishes (and_then p k) s s2 y"
  by (induction p s s1 x rule: finishes.induct) simp_all

text \<open>A program that runs alone can end in one way only.\<close>

lemma finishes_unique: "finishes p s s1 x \<Longrightarrow> finishes p s s2 y \<Longrightarrow> s2 = s1 \<and> y = x"
  by (induction p s s1 x rule: finishes.induct) simp_all

section \<open>Interleaving\<close>

text \<open>
  One step of a pool: a thread does its next action, a new thread starts, or something
  outside the pool changes the state.
\<close>

inductive interleave ::
  "('s \<Rightarrow> 's \<Rightarrow> bool) \<Rightarrow> (('s, 'a) prog \<Rightarrow> bool) \<Rightarrow> 's \<times> ('s, 'a) prog list \<Rightarrow> 's \<times> ('s, 'a) prog list \<Rightarrow> bool"
  for rely ops where
  il_turn: "k < length ps \<Longrightarrow> ps ! k = Act f g \<Longrightarrow> interleave rely ops (s, ps) (f s, ps[k := g s])"
| il_start: "ops p \<Longrightarrow> interleave rely ops (s, ps) (s, ps @ [p])"
| il_outside: "rely s s' \<Longrightarrow> interleave rely ops (s, ps) (s', ps)"

inductive_cases interleaveE: "interleave rely ops (s, ps) c"

abbreviation interleaves ::
  "('s \<Rightarrow> 's \<Rightarrow> bool) \<Rightarrow> (('s, 'a) prog \<Rightarrow> bool) \<Rightarrow> 's \<times> ('s, 'a) prog list \<Rightarrow> 's \<times> ('s, 'a) prog list \<Rightarrow> bool"
  where "interleaves rely ops \<equiv> (interleave rely ops)\<^sup>*\<^sup>*"

text \<open>A schedule: whose turn it is. Turns of a thread that is done do nothing.\<close>

definition take_turn :: "nat \<Rightarrow> 's \<times> ('s, 'a) prog list \<Rightarrow> 's \<times> ('s, 'a) prog list" where
  "take_turn k c = (case c of (s, ps) \<Rightarrow>
     if k < length ps then case ps ! k of Done x \<Rightarrow> (s, ps) | Act f g \<Rightarrow> (f s, ps[k := g s]) else (s, ps))"

definition turns :: "nat list \<Rightarrow> 's \<times> ('s, 'a) prog list \<Rightarrow> 's \<times> ('s, 'a) prog list" where
  "turns ks c = foldl (\<lambda>c k. take_turn k c) c ks"

lemma turns_simps [simp]: "turns [] c = c" "turns (k # ks) c = turns ks (take_turn k c)"
  by (simp_all add: turns_def)

lemma take_turn_interleaves: "interleaves rely ops c (take_turn k c)"
  by (auto simp: take_turn_def split: prod.split prog.split intro: il_turn r_into_rtranclp)

lemma turns_interleave: "interleaves rely ops c (turns ks c)"
proof (induction ks arbitrary: c)
  case (Cons k ks)
  from rtranclp_trans [OF take_turn_interleaves Cons.IH] show ?case by simp
qed simp

lemma start_interleaves: "\<forall>p \<in> set ps. ops p \<Longrightarrow> interleaves rely ops (s, qs) (s, qs @ ps)"
proof (induction ps arbitrary: qs)
  case (Cons p ps)
  then have "interleave rely ops (s, qs) (s, qs @ [p])" by (simp add: il_start)
  with Cons.IH [of "qs @ [p]"] Cons.prems show ?case by (auto intro: converse_rtranclp_into_rtranclp)
qed simp

section \<open>Running a schedule\<close>

text \<open>Some turns of one thread.\<close>

fun own_turns :: "nat \<Rightarrow> 's \<times> ('s, 'a) prog \<Rightarrow> 's \<times> ('s, 'a) prog" where
  "own_turns 0 c = c"
| "own_turns (Suc n) (s, Done x) = (s, Done x)"
| "own_turns (Suc n) (s, Act f g) = own_turns n (f s, g s)"

lemma own_turns_forms [simp]:
  "own_turns (Suc n) (s, act a k) = own_turns n (fst (a s), k (snd (a s)))"
  "own_turns (Suc n) (s, upd f p) = own_turns n (f s, p)"
  "own_turns (Suc n) (s, ask q k) = own_turns n (s, k (q s))"
  by (simp_all add: act_def upd_def ask_def)

lemma own_turns_done [simp]: "own_turns n (s, Done x) = (s, Done x)"
  by (cases n) simp_all

lemma own_turns_interleave:
  assumes "k < length ps" and "own_turns n (s, ps ! k) = (s', p)"
  shows "interleaves rely ops (s, ps) (s', ps[k := p])"
  using assms
proof (induction n arbitrary: s ps)
  case 0
  then show ?case using list_update_id [of ps k] by simp
next
  case (Suc n)
  show ?case
  proof (cases "ps ! k")
    case (Done x)
    with Suc.prems(2) have "s' = s" "p = ps ! k" by simp_all
    then show ?thesis by simp
  next
    case (Act f g)
    then have "own_turns n (f s, ps[k := g s] ! k) = (s', p)" using Suc.prems by simp
    from Suc.IH [OF _ this] Suc.prems(1) have "interleaves rely ops (f s, ps[k := g s]) (s', ps[k := p])" by simp
    with il_turn [OF Suc.prems(1) Act, of rely ops s] show ?thesis by (rule converse_rtranclp_into_rtranclp)
  qed
qed

section \<open>Version guards\<close>

definition grows :: "('s \<Rightarrow> 'k \<Rightarrow> int option) \<Rightarrow> 's \<Rightarrow> 's \<Rightarrow> bool" where
  "grows ver s s' \<longleftrightarrow> (\<forall>k v. ver s k = Some v \<longrightarrow> (\<exists>v'. ver s' k = Some v' \<and> v \<le> v'))"

text \<open>The versions that a change reaches by raising an earlier one.\<close>

definition raised :: "('s \<Rightarrow> 'k \<Rightarrow> int option) \<Rightarrow> 's \<Rightarrow> 's \<Rightarrow> ('k \<times> int) set" where
  "raised ver s s' = {(k, v). \<exists>u. ver s k = Some u \<and> u < v \<and> ver s' k = Some v}"

lemma grows_refl: "ver s' = ver s \<Longrightarrow> grows ver s s'"
  by (simp add: grows_def)

lemma raised_same: "ver s' = ver s \<Longrightarrow> raised ver s s' = {}"
  by (auto simp: raised_def)

text \<open>
  A guarded program never lowers a version in an admissible state, and ends with a result
  that claims only versions it has raised itself; \<open>B\<close> holds those raised so far.
\<close>

coinductive guarded ::
  "('s \<Rightarrow> bool) \<Rightarrow> ('s \<Rightarrow> 'k \<Rightarrow> int option) \<Rightarrow> ('a \<Rightarrow> ('k \<times> int) set) \<Rightarrow> ('s, 'a) prog \<Rightarrow> ('k \<times> int) set \<Rightarrow> bool"
  for ok ver claims where
  g_done: "claims x \<subseteq> B \<Longrightarrow> guarded ok ver claims (Done x) B"
| g_act: "(\<And>s. ok s \<Longrightarrow> ok (f s) \<and> grows ver s (f s) \<and> guarded ok ver claims (g s) (B \<union> raised ver s (f s))) \<Longrightarrow>
    guarded ok ver claims (Act f g) B"

inductive_simps guarded_simps: "guarded ok ver claims (Done x) B" "guarded ok ver claims (Act f g) B"

lemma guarded_mono: "guarded ok ver claims p B \<Longrightarrow> B \<subseteq> C \<Longrightarrow> guarded ok ver claims p C"
proof (coinduction arbitrary: p B C rule: guarded.coinduct)
  case guarded
  show ?case
  proof (cases p)
    case (Act f g)
    have "\<exists>q D. g s = q \<and> C \<union> raised ver s (f s) = D \<and> (\<exists>B'. guarded ok ver claims q B' \<and> B' \<subseteq> D)" if "ok s" for s
      using guarded that by (auto simp: Act guarded_simps)
    with guarded show ?thesis by (fastforce simp: Act guarded_simps)
  qed (use guarded in \<open>auto simp: guarded_simps\<close>)
qed

lemma guarded_and_then:
  assumes "guarded ok ver claims p B" and "\<And>x C. claims x \<subseteq> C \<Longrightarrow> guarded ok ver claims' (k x) C"
  shows "guarded ok ver claims' (and_then p k) B"
  using assms(1)
proof (coinduction arbitrary: p B rule: guarded.coinduct)
  case guarded
  show ?case
  proof (cases p)
    case (Done x)
    with guarded assms(2) have "guarded ok ver claims' (k x) B" by (simp add: guarded_simps)
    then show ?thesis using Done by (cases "k x") (fastforce simp: guarded_simps)+
  next
    case (Act f g)
    with guarded show ?thesis by (fastforce simp: guarded_simps)
  qed
qed

text \<open>The actions that change no version, and the one that does.\<close>

lemma guarded_act:
  assumes "\<And>s. ok s \<Longrightarrow> ok (fst (a s)) \<and> grows ver s (fst (a s)) \<and>
    guarded ok ver claims (k (snd (a s))) (B \<union> raised ver s (fst (a s)))"
  shows "guarded ok ver claims (act a k) B"
  using assms by (simp add: act_def guarded_simps)

lemma guarded_ask: "(\<And>s. ok s \<Longrightarrow> guarded ok ver claims (k (q s)) B) \<Longrightarrow> guarded ok ver claims (ask q k) B"
  by (simp add: ask_def guarded_simps grows_refl raised_same)

lemma guarded_upd:
  "(\<And>s. ok s \<Longrightarrow> ok (f s)) \<Longrightarrow> (\<And>s. ver (f s) = ver s) \<Longrightarrow> guarded ok ver claims p B \<Longrightarrow> guarded ok ver claims (upd f p) B"
  by (simp add: upd_def guarded_simps grows_refl raised_same)

locale guarded_threads =
  fixes ok :: "'s \<Rightarrow> bool"
    and ver :: "'s \<Rightarrow> 'k \<Rightarrow> int option"
    and rely :: "'s \<Rightarrow> 's \<Rightarrow> bool"
    and claims :: "'a \<Rightarrow> ('k \<times> int) set"
    and ops :: "('s, 'a) prog \<Rightarrow> bool"
  assumes rely_ok: "ok s \<Longrightarrow> rely s s' \<Longrightarrow> ok s' \<and> grows ver s s'"
    and ops_guarded: "ops p \<Longrightarrow> guarded ok ver claims p {}"
begin

text \<open>What each thread has raised: below the present versions, and nothing twice.\<close>

definition accounted :: "'s \<times> ('s, 'a) prog list \<Rightarrow> ('k \<times> int) set list \<Rightarrow> bool" where
  "accounted c Bs \<longleftrightarrow>
     ok (fst c) \<and> length Bs = length (snd c) \<and>
     (\<forall>j < length Bs. guarded ok ver claims (snd c ! j) (Bs ! j)) \<and>
     (\<forall>j < length Bs. \<forall>(k, v) \<in> Bs ! j. \<exists>u. ver (fst c) k = Some u \<and> v \<le> u) \<and>
     (\<forall>i < length Bs. \<forall>j < length Bs. i \<noteq> j \<longrightarrow> Bs ! i \<inter> Bs ! j = {})"

lemma reached_grows:
  "\<exists>u. ver s k = Some u \<and> v \<le> u \<Longrightarrow> grows ver s s' \<Longrightarrow> \<exists>u. ver s' k = Some u \<and> v \<le> u"
  by (fastforce simp: grows_def)

lemma accounted_below:
  "accounted c Bs \<Longrightarrow> j < length Bs \<Longrightarrow> (k, v) \<in> Bs ! j \<Longrightarrow> \<exists>u. ver (fst c) k = Some u \<and> v \<le> u"
  unfolding accounted_def by blast

lemma accounted_claims:
  "accounted (s, ps) Bs \<Longrightarrow> j < length ps \<Longrightarrow> ps ! j = Done x \<Longrightarrow> claims x \<subseteq> Bs ! j \<and> j < length Bs"
  unfolding accounted_def by (metis guarded_simps(1) snd_conv)

lemma accounted_turn:
  assumes a: "accounted (s, ps) Bs" and k: "k < length ps" and p: "ps ! k = Act f g"
  shows "accounted (f s, ps[k := g s]) (Bs[k := Bs ! k \<union> raised ver s (f s)])"
proof -
  let ?R = "raised ver s (f s)"
  have len: "length Bs = length ps" and "ok s" and old: "\<And>j q v. j < length Bs \<Longrightarrow> (q, v) \<in> Bs ! j \<Longrightarrow> \<exists>u. ver s q = Some u \<and> v \<le> u"
    and dis: "\<And>i j. i < length Bs \<Longrightarrow> j < length Bs \<Longrightarrow> i \<noteq> j \<Longrightarrow> Bs ! i \<inter> Bs ! j = {}"
    using a by (auto simp: accounted_def)
  have "guarded ok ver claims (Act f g) (Bs ! k)" using a k by (auto simp: accounted_def p [symmetric])
  with \<open>ok s\<close> have "ok (f s)" and gr: "grows ver s (f s)" and gd: "guarded ok ver claims (g s) (Bs ! k \<union> ?R)"
    by (simp_all add: guarded_simps)
  have new: "?R \<inter> Bs ! j = {}" if "j < length Bs" for j
    using old [OF that] by (force simp: raised_def)
  have "\<exists>u. ver (f s) q = Some u \<and> v \<le> u" if "j < length Bs" and "(q, v) \<in> Bs ! j \<union> ?R" for j q v
    using that(2) reached_grows [OF old [OF that(1)] gr] by (auto simp: raised_def)
  then have "\<exists>u. ver (f s) q = Some u \<and> v \<le> u" if "j < length Bs" and "(q, v) \<in> Bs[k := Bs ! k \<union> ?R] ! j" for j q v
    using that by (cases "j = k") auto
  then have "\<forall>j < length Bs. \<forall>(q, v) \<in> Bs[k := Bs ! k \<union> ?R] ! j. \<exists>u. ver (f s) q = Some u \<and> v \<le> u" by blast
  moreover have "Bs[k := Bs ! k \<union> ?R] ! i \<inter> Bs[k := Bs ! k \<union> ?R] ! j = {}"
    if "i < length Bs" "j < length Bs" "i \<noteq> j" for i j
    using dis [OF that] new [OF that(1)] new [OF that(2)] that by (cases "i = k"; cases "j = k") auto
  ultimately show ?thesis using a \<open>ok (f s)\<close> gd k len by (auto simp: accounted_def nth_list_update)
qed

lemma accounted_step:
  assumes "interleave rely ops c c'" and "accounted c Bs"
  shows "\<exists>Bs'. accounted c' Bs'"
  using assms
proof (induction rule: interleave.induct)
  case (il_turn k ps f g s)
  then show ?case using accounted_turn by blast
next
  case (il_start p s ps)
  then have "accounted (s, ps @ [p]) (Bs @ [{}])"
    using ops_guarded by (auto simp: accounted_def nth_append)
  then show ?case ..
next
  case (il_outside s s' ps)
  then have "ok s" by (simp add: accounted_def)
  with rely_ok il_outside(1) have "ok s'" and gr: "grows ver s s'" by blast+
  have "\<exists>u. ver s' k = Some u \<and> v \<le> u" if "j < length Bs" and "(k, v) \<in> Bs ! j" for j k v
    by (rule reached_grows [OF accounted_below [OF il_outside(2), unfolded fst_conv, OF that] gr])
  then have "\<forall>j < length Bs. \<forall>(k, v) \<in> Bs ! j. \<exists>u. ver s' k = Some u \<and> v \<le> u" by blast
  with il_outside(2) \<open>ok s'\<close> have "accounted (s', ps) Bs" by (simp add: accounted_def)
  then show ?case ..
qed

lemma accounted_reachable:
  assumes "interleaves rely ops (s0, []) c" and "ok s0"
  shows "\<exists>Bs. accounted c Bs"
  using assms(1)
proof (induction rule: rtranclp_induct)
  case base
  from assms(2) have "accounted (s0, []) []" by (simp add: accounted_def)
  then show ?case ..
qed (use accounted_step in blast)

lemma claims_apart:
  assumes "interleaves rely ops (s0, []) (s, ps)" and "ok s0"
    and "i < length ps" and "j < length ps" and "i \<noteq> j" and "ps ! i = Done x" and "ps ! j = Done y"
  shows "claims x \<inter> claims y = {}"
proof -
  obtain Bs where a: "accounted (s, ps) Bs" using accounted_reachable [OF assms(1,2)] ..
  with assms(3-7) accounted_claims have "claims x \<subseteq> Bs ! i" "claims y \<subseteq> Bs ! j" "i < length Bs" "j < length Bs" by blast+
  moreover from a this(3,4) assms(5) have "Bs ! i \<inter> Bs ! j = {}" by (simp add: accounted_def)
  ultimately show ?thesis by blast
qed

lemma claims_reached:
  assumes "interleaves rely ops (s0, []) (s, ps)" and "ok s0"
    and "i < length ps" and "ps ! i = Done x" and "(k, v) \<in> claims x"
  shows "\<exists>u. ver s k = Some u \<and> v \<le> u"
proof -
  obtain Bs where a: "accounted (s, ps) Bs" using accounted_reachable [OF assms(1,2)] ..
  from accounted_claims [OF this assms(3,4)] assms(5) have "(k, v) \<in> Bs ! i" "i < length Bs" by blast+
  from accounted_below [OF a this(2,1)] show ?thesis by simp
qed

end

end
