(* ===== verification/Concurrent.thy ===== *)
theory Concurrent
  imports Threads Api
begin

text \<open>
  The operations of the managers at the granularity of their locks: one action per call
  that takes a mutex of the store, the record store, a queue, the roster, the lease table or
  the fire-time index, per atomic addition, and per reading of the clock. Between two
  actions other goroutines may run. \<open>Execution\<close>, \<open>LeaseManager\<close>, \<open>Dispatch\<close> and \<open>Api\<close> hold the
  same operations as one step each; a program that runs alone does what they do.

  \<open>Renew\<close> holds the lease mutex while it reads the store, and touches only leases besides:
  it is one action. A handler is a function of its task here: what it does to the scheduler
  is done by other threads.
\<close>

section \<open>The locked calls\<close>

definition lk_get :: "string \<Rightarrow> 'r stack \<Rightarrow> store_error + task" where
  "lk_get i w = store_get (w_store w) i"

definition lk_mark_ready :: "string \<Rightarrow> 'r stack \<Rightarrow> 'r stack \<times> (store_error + task)" where
  "lk_mark_ready i w =
     (case store_mark_ready (w_store w) (w_now w) i of
        Inl e \<Rightarrow> (w, Inl e)
      | Inr (s, t) \<Rightarrow> (w\<lparr>w_store := s\<rparr>, Inr t))"

definition lk_transition ::
  "string \<Rightarrow> task_state \<Rightarrow> task_state \<Rightarrow> int \<Rightarrow> 'r stack \<Rightarrow> 'r stack \<times> (store_error + task option)" where
  "lk_transition i from to expected w =
     (case store_transition (w_store w) (w_now w) i from to expected of
        Inl e \<Rightarrow> (w, Inl e)
      | Inr None \<Rightarrow> (w, Inr None)
      | Inr (Some (s, t)) \<Rightarrow> (w\<lparr>w_store := s\<rparr>, Inr (Some t)))"

definition lk_retry :: "string \<Rightarrow> instant \<Rightarrow> int \<Rightarrow> 'r stack \<Rightarrow> 'r stack \<times> (store_error + task)" where
  "lk_retry i nxt expected w =
     (case store_retry (w_store w) (w_now w) (w_now w) i nxt expected of
        Inl e \<Rightarrow> (w, Inl e)
      | Inr (s, t) \<Rightarrow> (w\<lparr>w_store := s\<rparr>, Inr t))"

definition lk_set_next_run :: "string \<Rightarrow> instant \<Rightarrow> 'r stack \<Rightarrow> 'r stack \<times> store_error option" where
  "lk_set_next_run i nxt w =
     (case store_set_next_run (w_store w) (w_now w) i nxt of
        Inl e \<Rightarrow> (w, Some e)
      | Inr s \<Rightarrow> (w\<lparr>w_store := s\<rparr>, None))"

definition lk_save :: "task \<Rightarrow> 'r stack \<Rightarrow> 'r stack \<times> store_error option" where
  "lk_save t w =
     (case store_save (w_store w) (w_now w) t of
        Inl e \<Rightarrow> (w, Some e)
      | Inr s \<Rightarrow> (w\<lparr>w_store := s\<rparr>, None))"

definition lk_pop :: "'r stack \<Rightarrow> 'r stack \<times> ready_entry option" where
  "lk_pop w = (case ready_pop (w_ready w) of (q, x) \<Rightarrow> (w\<lparr>w_ready := q\<rparr>, x))"

definition lk_pop_due :: "instant \<Rightarrow> 'r stack \<Rightarrow> 'r stack \<times> delayed_entry list" where
  "lk_pop_due now w = (case delayed_pop_due (w_delayed w) now of (q, es) \<Rightarrow> (w\<lparr>w_delayed := q\<rparr>, es))"

definition lk_next_id :: "string \<Rightarrow> int \<Rightarrow> 'r stack \<Rightarrow> 'r stack \<times> string" where
  "lk_next_id prefix nano w = (case id_next (w_seq w) prefix nano of (g, i) \<Rightarrow> (w\<lparr>w_seq := g\<rparr>, i))"

definition lk_collect :: "string list \<Rightarrow> instant \<Rightarrow> 'r stack \<Rightarrow> 'r stack \<times> lease list" where
  "lk_collect its now w =
     (case foldl (reap_collect now) (w_leases w, []) its of (lt, expired) \<Rightarrow> (w\<lparr>w_leases := lt\<rparr>, expired))"

definition lk_register :: "worker_node option \<Rightarrow> registry stack \<Rightarrow> registry stack \<times> worker_error option" where
  "lk_register node w =
     (case registry_register (w_registry w) (w_now w) node of
        Inl e \<Rightarrow> (w, Some e)
      | Inr r \<Rightarrow> (w\<lparr>w_registry := r\<rparr>, None))"

definition lk_heartbeat :: "string \<Rightarrow> instant \<Rightarrow> registry stack \<Rightarrow> registry stack \<times> worker_error option" where
  "lk_heartbeat i at w =
     (case registry_heartbeat (w_registry w) i at of
        Inl e \<Rightarrow> (w, Some e)
      | Inr r \<Rightarrow> (w\<lparr>w_registry := r\<rparr>, None))"

definition lk_purge :: "string list \<Rightarrow> instant \<Rightarrow> 'r stack \<Rightarrow> 'r stack \<times> nat" where
  "lk_purge its cutoff w =
     (case records_purge_before (w_records w) its cutoff of (r, removed) \<Rightarrow> (w\<lparr>w_records := r\<rparr>, removed))"

section \<open>The operations\<close>

datatype outcome =
    Ticked nat
  | Assigned "sched_error + lease"
  | Recorded "sched_error + task"
  | Reaped "string list"
  | Renewed "sched_error option"
  | Released
  | Triggered "sched_error option"
  | Canceled "sched_error option"
  | Answered response
  | Stopped

type_synonym 'r thread = "('r stack, outcome) prog"

text \<open>
  \<open>Assign\<close>: the loop has two points, before the pop and after the pop of an entry; the rest
  follows when the entry's task was ready.
\<close>

definition assign_rest ::
  "('r \<Rightarrow> instant \<Rightarrow> worker_error + worker_node) \<Rightarrow> instant \<Rightarrow> int \<Rightarrow> ready_entry \<Rightarrow> task \<Rightarrow> 'r thread" where
  "assign_rest pick now nano entry t =
     ask (\<lambda>w. pick (w_registry w) now) (\<lambda>r. case r of
         Inl e \<Rightarrow>
           act (lk_transition (re_task_id entry) StateLeased StateReady (version t)) (\<lambda>_.
           upd (\<lambda>w. push_ready w (re_task_id entry) (priority t) now)
           (Done (Assigned (Inl (WorkerError e)))))
       | Inr node \<Rightarrow>
           act (lk_next_id ''lease'' nano) (\<lambda>i.
           act (\<lambda>w. let l = \<lparr>lease_id = i, lease_task_id = task_id t, lease_worker_id = node_id node,
                          lease_task_version = version t, lease_deadline = now + w_ttl w, lease_created_at = now\<rparr>
                    in (w\<lparr>w_leases := lease_insert (w_leases w) l\<rparr>, l)) (\<lambda>l.
           Done (Assigned (Inr l)))))"

primcorec assign_loop ::
  "('r \<Rightarrow> instant \<Rightarrow> worker_error + worker_node) \<Rightarrow> instant \<Rightarrow> int \<Rightarrow> ready_entry option \<Rightarrow> 'r thread" where
  "assign_loop pick now nano pc =
     Act (\<lambda>w. case pc of
            None \<Rightarrow> fst (lk_pop w)
          | Some entry \<Rightarrow> fst (lk_transition (re_task_id entry) StateReady StateLeased (-1) w))
         (\<lambda>w. case pc of
            None \<Rightarrow>
              (case snd (lk_pop w) of
                 None \<Rightarrow> Done (Assigned (Inl ErrNoReadyTask))
               | Some entry \<Rightarrow> assign_loop pick now nano (Some entry))
          | Some entry \<Rightarrow>
              (case snd (lk_transition (re_task_id entry) StateReady StateLeased (-1) w) of
                 Inl e \<Rightarrow> Done (Assigned (Inl (StoreError e)))
               | Inr None \<Rightarrow> assign_loop pick now nano None
               | Inr (Some t) \<Rightarrow> assign_rest pick now nano entry t))"

definition assign_thread ::
  "('r \<Rightarrow> instant \<Rightarrow> worker_error + worker_node) \<Rightarrow> instant \<Rightarrow> int \<Rightarrow> 'r thread" where
  "assign_thread pick now nano = assign_loop pick now nano None"

text \<open>\<open>RecordResult\<close>, with the three ways to apply a result.\<close>

definition success_thread :: "lease \<Rightarrow> task \<Rightarrow> 'r thread" where
  "success_thread l t =
     act (lk_transition (task_id t) StateLeased StateSucceeded (version t)) (\<lambda>r. case r of
         Inl e \<Rightarrow> Done (Recorded (Inl (StoreError e)))
       | Inr None \<Rightarrow> Done (Recorded (Inl ErrStaleResult))
       | Inr (Some updated) \<Rightarrow>
           upd (\<lambda>w. w\<lparr>w_metrics := (w_metrics w)\<lparr>mt_tasks_executed := count_up (mt_tasks_executed (w_metrics w))\<rparr>\<rparr>)
           (upd (\<lambda>w. lease_release w (lease_id l))
           (Done (Recorded (Inr updated)))))"

definition retry_thread :: "lease \<Rightarrow> task \<Rightarrow> instant \<Rightarrow> 'r thread" where
  "retry_thread l t finished =
     ask w_retry_delay (\<lambda>delay.
     act (lk_retry (task_id t) (finished + delay) (version t)) (\<lambda>r. case r of
         Inl e \<Rightarrow> Done (Recorded (Inl (StoreError e)))
       | Inr updated \<Rightarrow>
           upd (\<lambda>w. sched_schedule_retry w (task_id updated) (finished + delay) (priority updated) finished)
           (upd (\<lambda>w. lease_release w (lease_id l))
           (Done (Recorded (Inr updated))))))"

definition dead_thread :: "lease \<Rightarrow> task \<Rightarrow> 'r thread" where
  "dead_thread l t =
     act (lk_transition (task_id t) StateLeased StateDead (version t)) (\<lambda>r. case r of
         Inl e \<Rightarrow> Done (Recorded (Inl (StoreError e)))
       | Inr None \<Rightarrow> Done (Recorded (Inl ErrStaleResult))
       | Inr (Some updated) \<Rightarrow>
           upd (\<lambda>w. lease_release w (lease_id l))
           (Done (Recorded (Inr updated))))"

definition failure_thread :: "lease \<Rightarrow> task \<Rightarrow> instant \<Rightarrow> 'r thread" where
  "failure_thread l t finished =
     upd (\<lambda>w. w\<lparr>w_metrics := (w_metrics w)\<lparr>mt_tasks_failed := count_up (mt_tasks_failed (w_metrics w))\<rparr>\<rparr>)
     (if 0 < retries_left t then retry_thread l t finished else dead_thread l t)"

definition record_thread ::
  "lease \<Rightarrow> string \<Rightarrow> string \<Rightarrow> instant \<Rightarrow> instant \<Rightarrow> int \<Rightarrow> string \<Rightarrow> 'r thread" where
  "record_thread l status message started finished nano stamp =
     ask (lk_get (lease_task_id l)) (\<lambda>r. case r of
         Inl e \<Rightarrow> Done (Recorded (Inl (StoreError e)))
       | Inr t \<Rightarrow>
           ask (\<lambda>w. lease_current w (lease_task_id l)) (\<lambda>c. case c of
               None \<Rightarrow> Done (Recorded (Inl ErrStaleResult))
             | Some current \<Rightarrow>
                 if lease_id current \<noteq> lease_id l \<or> lease_task_version current \<noteq> version t
                 then Done (Recorded (Inl ErrStaleResult))
                 else
                   act (lk_next_id ''exec'' nano) (\<lambda>i.
                   upd (\<lambda>w. w\<lparr>w_records := records_append (w_records w) stamp
                       \<lparr>rec_id = i, rec_task_id = task_id t, rec_attempt = attempt_count t,
                        rec_worker_id = lease_worker_id l, rec_status = status,
                        rec_started_at = started, rec_finished_at = finished, rec_message = message\<rparr>\<rparr>)
                   (upd (\<lambda>w. w\<lparr>w_metrics := (w_metrics w)
                       \<lparr>mt_results_recorded := count_up (mt_results_recorded (w_metrics w))\<rparr>\<rparr>)
                   (if status = ''success'' then success_thread l t
                    else failure_thread l t finished)))))"

text \<open>\<open>RunNext\<close>: after the handler, and the whole.\<close>

definition finish_thread :: "lease \<Rightarrow> instant \<Rightarrow> instant \<Rightarrow> string + string \<Rightarrow> int \<Rightarrow> string \<Rightarrow> 'r thread" where
  "finish_thread l started finished outcome nano stamp =
     and_then
       (case outcome of
          Inr m \<Rightarrow> record_thread l ''success'' m started finished nano stamp
        | Inl err \<Rightarrow> record_thread l ''failure'' err started finished nano stamp)
       (\<lambda>r. case r of
           Recorded (Inl e) \<Rightarrow> upd (\<lambda>w. lease_release w (lease_id l)) (Done (Recorded (Inl e)))
         | _ \<Rightarrow> Done r)"

definition run_next_thread ::
  "('r \<Rightarrow> instant \<Rightarrow> worker_error + worker_node) \<Rightarrow> (task \<Rightarrow> string + string) \<Rightarrow> int \<Rightarrow> int \<Rightarrow> string \<Rightarrow> 'r thread" where
  "run_next_thread pick h nano1 nano2 stamp =
     ask w_now (\<lambda>now.
     and_then (assign_thread pick now nano1) (\<lambda>r. case r of
         Assigned (Inr l) \<Rightarrow>
           ask (lk_get (lease_task_id l)) (\<lambda>r. case r of
               Inl e \<Rightarrow> upd (\<lambda>w. lease_release w (lease_id l)) (Done (Recorded (Inl (StoreError e))))
             | Inr t \<Rightarrow>
                 ask w_now (\<lambda>started.
                 ask w_now (\<lambda>finished.
                 finish_thread l started finished (h t) nano2 stamp)))
       | Assigned (Inl e) \<Rightarrow> Done (Recorded (Inl e))
       | _ \<Rightarrow> Done r))"

text \<open>\<open>ReapExpired\<close>, \<open>Renew\<close>, \<open>Release\<close>\<close>

fun reap_loop :: "instant \<Rightarrow> string list \<Rightarrow> lease list \<Rightarrow> 'r thread" where
  "reap_loop now reaped [] = Done (Reaped reaped)"
| "reap_loop now reaped (l # ls) =
     ask (lk_get (lease_task_id l)) (\<lambda>r. case r of
         Inl _ \<Rightarrow> reap_loop now reaped ls
       | Inr t \<Rightarrow>
           if state t \<noteq> StateLeased \<or> version t \<noteq> lease_task_version l then reap_loop now reaped ls
           else
             act (lk_transition (lease_task_id l) StateLeased StateReady (version t)) (\<lambda>r. case r of
                 Inr (Some updated) \<Rightarrow>
                   upd (\<lambda>w. push_ready w (task_id updated) (priority updated) now)
                   (upd (\<lambda>w. w\<lparr>w_metrics := (w_metrics w)\<lparr>mt_leases_expired := count_up (mt_leases_expired (w_metrics w))\<rparr>\<rparr>)
                   (reap_loop now (reaped @ [lease_task_id l]) ls))
               | _ \<Rightarrow> reap_loop now reaped ls))"

definition reap_thread :: "string list \<Rightarrow> instant \<Rightarrow> 'r thread" where
  "reap_thread its now = act (lk_collect its now) (reap_loop now [])"

definition renew_thread :: "string \<Rightarrow> string \<Rightarrow> instant \<Rightarrow> 'r thread" where
  "renew_thread i worker now = act (\<lambda>w. lease_renew w i worker now) (\<lambda>e. Done (Renewed e))"

definition release_thread :: "string \<Rightarrow> 'r thread" where
  "release_thread i = upd (\<lambda>w. lease_release w i) (Done Released)"

text \<open>\<open>Tick\<close>: the loop over the due ids, then the one over the delayed entries.\<close>

fun tick_delayed_loop :: "instant \<Rightarrow> nat \<Rightarrow> delayed_entry list \<Rightarrow> 'r thread" where
  "tick_delayed_loop now n [] = Done (Ticked n)"
| "tick_delayed_loop now n (entry # es) =
     ask (lk_get (de_task_id entry)) (\<lambda>r. case r of
         Inl _ \<Rightarrow> tick_delayed_loop now n es
       | Inr t \<Rightarrow>
           if state t \<noteq> StateReady then tick_delayed_loop now n es
           else upd (\<lambda>w. push_ready w (task_id t) (priority t) now) (tick_delayed_loop now (Suc n) es))"

definition tick_cron_thread :: "string \<Rightarrow> task \<Rightarrow> instant \<Rightarrow> 'r thread \<Rightarrow> 'r thread" where
  "tick_cron_thread i updated now rest =
     (if kind (trigger updated) = ''cron''
      then
        case cron_parse (cron_expr (trigger updated)) of
          Inl _ \<Rightarrow> rest
        | Inr sch \<Rightarrow>
            ask (\<lambda>w. cron_next (w_loc w) sch now) (\<lambda>nxt.
            act (lk_set_next_run i nxt) (\<lambda>e. case e of
                Some _ \<Rightarrow> rest
              | None \<Rightarrow> upd (\<lambda>w. sched_set_next_fire w i nxt) rest))
      else rest)"

fun tick_pending_loop :: "instant \<Rightarrow> nat \<Rightarrow> string list \<Rightarrow> 'r thread" where
  "tick_pending_loop now n [] = act (lk_pop_due now) (tick_delayed_loop now n)"
| "tick_pending_loop now n (i # is) =
     ask (lk_get i) (\<lambda>r. case r of
         Inl _ \<Rightarrow> upd (\<lambda>w. w\<lparr>w_next_fire := (w_next_fire w)(i := None)\<rparr>) (tick_pending_loop now n is)
       | Inr t \<Rightarrow>
           if state t \<noteq> StatePending then tick_pending_loop now n is
           else
             act (lk_mark_ready i) (\<lambda>r. case r of
                 Inl _ \<Rightarrow> tick_pending_loop now n is
               | Inr updated \<Rightarrow>
                   upd (\<lambda>w. push_ready w (task_id updated) (priority updated) now)
                   (tick_cron_thread i updated now (tick_pending_loop now (Suc n) is))))"

definition tick_thread :: "string list \<Rightarrow> instant \<Rightarrow> 'r thread" where
  "tick_thread its now = ask (\<lambda>w. tick_due w its now) (tick_pending_loop now 0)"

text \<open>\<open>TriggerNow\<close> and \<open>Cancel\<close>\<close>

definition trigger_thread :: "string \<Rightarrow> instant \<Rightarrow> 'r thread" where
  "trigger_thread i now =
     ask (lk_get i) (\<lambda>r. case r of
         Inl e \<Rightarrow> Done (Triggered (Some (StoreError e)))
       | Inr t \<Rightarrow>
           if state t \<noteq> StatePending \<and> state t \<noteq> StateReady then Done (Triggered (Some ErrNotTriggerable))
           else
             act (lk_mark_ready i) (\<lambda>r.
             let updated = (case r of Inl _ \<Rightarrow> t | Inr u \<Rightarrow> u) in
             upd (\<lambda>w. push_ready w (task_id updated) (priority updated) now)
             (Done (Triggered None))))"

definition cancel_thread :: "string \<Rightarrow> 'r thread" where
  "cancel_thread i =
     ask (lk_get i) (\<lambda>r. case r of
         Inl e \<Rightarrow> Done (Canceled (Some (StoreError e)))
       | Inr t \<Rightarrow>
           if terminal (state t) then Done (Canceled (Some ErrTerminal))
           else
             act (lk_transition i (state t) StateCanceled (version t)) (\<lambda>r. case r of
                 Inl e \<Rightarrow> Done (Canceled (Some (StoreError e)))
               | Inr None \<Rightarrow> Done (Canceled (Some ErrChanged))
               | Inr (Some _) \<Rightarrow>
                   upd (\<lambda>w. w\<lparr>w_ready := fst (ready_remove (w_ready w) i)\<rparr>)
                   (upd (\<lambda>w. w\<lparr>w_delayed := fst (delayed_remove (w_delayed w) i)\<rparr>)
                   (upd (\<lambda>w. w\<lparr>w_next_fire := (w_next_fire w)(i := None)\<rparr>)
                   (Done (Canceled None))))))"

end
