(* ===== verification/HandlerThreads.thy ===== *)
theory HandlerThreads
  imports Concurrent
begin

text \<open>
  The handlers of the control plane that change state, at the granularity of the locks, and
  the programs that may run at the same time. The handlers that only read are not among
  them: they change nothing.
\<close>

section \<open>The code: registration\<close>

text \<open>An audit entry: the clock is read, then the log is locked.\<close>

definition audit_thread :: "handler_env \<Rightarrow> string \<Rightarrow> string \<Rightarrow> registry thread \<Rightarrow> registry thread" where
  "audit_thread he action target rest =
     ask w_now (\<lambda>at.
     upd (\<lambda>w. w\<lparr>w_audit := audit_record (w_audit w)
         \<lparr>ae_at = at, ae_operator = he_operator he, ae_action = action, ae_target_id = target,
          ae_detail = '''', ae_request_id = ''''\<rparr>\<rparr>)
     rest)"

text \<open>\<open>buildTask\<close>; \<open>k\<close> is what the caller does with the task or the error.\<close>

definition validate_thread :: "task \<Rightarrow> (api_error + task \<Rightarrow> registry thread) \<Rightarrow> registry thread" where
  "validate_thread t k =
     (let t2 = t\<lparr>retries_left := max_retries t\<rparr> in
      ask (\<lambda>w. validate_task (Some t2) (w_now w)) (\<lambda>e. case e of
          Some e \<Rightarrow> k (Inl (ValidationError e))
        | None \<Rightarrow> k (Inr t2)))"

definition build_thread ::
  "(string \<Rightarrow> instant option) \<Rightarrow> int \<Rightarrow> register_request \<Rightarrow> (api_error + task \<Rightarrow> registry thread) \<Rightarrow> registry thread" where
  "build_thread parse_time nano req k =
     act (lk_next_id ''task'' nano) (\<lambda>i.
     let tb = rr_trigger req;
         t = \<lparr>task_id = i, task_name = trim_space (rr_name req), task_handler = trim_space (rr_handler req),
              payload = rr_payload req, priority = rr_priority req,
              timeout = wrap64 (rr_timeout_ms req * 10 ^ 6), max_retries = rr_max_retry req, retries_left = 0,
              state = StatePending, version = 0, next_run_at = zero_time, created_at = zero_time,
              updated_at = zero_time, last_attempt_at = zero_time, attempt_count = 0,
              trigger = \<lparr>kind = tb_kind tb, run_at = zero_time, cron_expr = tb_cron tb\<rparr>\<rparr>
     in if tb_kind tb = ''once''
        then
          case parse_time (tb_run_at tb) of
            None \<Rightarrow> k (Inl BadTime)
          | Some at \<Rightarrow> validate_thread (t\<lparr>trigger := (trigger t)\<lparr>run_at := at\<rparr>, next_run_at := at\<rparr>) k
        else
          case cron_parse (tb_cron tb) of
            Inl e \<Rightarrow> k (Inl (CronError e))
          | Inr sch \<Rightarrow>
              ask (\<lambda>w. cron_next (w_loc w) sch (w_now w)) (\<lambda>nxt. validate_thread (t\<lparr>next_run_at := nxt\<rparr>) k))"

definition register_thread ::
  "(string \<Rightarrow> instant option) \<Rightarrow> handler_env \<Rightarrow> int \<Rightarrow> register_request option \<Rightarrow> registry thread" where
  "register_thread parse_time he nano decoded =
     (case decoded of
        None \<Rightarrow> Done (Answered (Response 400 (ErrorBody BadBody)))
      | Some req \<Rightarrow>
          build_thread parse_time nano req (\<lambda>b. case b of
              Inl e \<Rightarrow> Done (Answered (Response 400 (ErrorBody e)))
            | Inr t \<Rightarrow>
                act (lk_save t) (\<lambda>e. case e of
                    Some e \<Rightarrow> Done (Answered (Response 409 (ErrorBody (SchedError (StoreError e)))))
                  | None \<Rightarrow>
                      upd (\<lambda>w. sched_track w t)
                      (audit_thread he ''register'' (task_id t) (Done (Answered (Response 200 (TaskBody t))))))))"

text \<open>\<open>RegisterBatch\<close>: building, the rollback, saving, and the audit entries.\<close>

fun build_all_thread ::
  "(string \<Rightarrow> instant option) \<Rightarrow> (nat \<Rightarrow> int) \<Rightarrow> register_request list \<Rightarrow> task list \<Rightarrow>
   (api_error + task list \<Rightarrow> registry thread) \<Rightarrow> registry thread" where
  "build_all_thread parse_time nanos [] built k = k (Inr built)"
| "build_all_thread parse_time nanos (req # reqs) built k =
     build_thread parse_time (nanos 0) req (\<lambda>b. case b of
         Inl e \<Rightarrow> k (Inl e)
       | Inr t \<Rightarrow> build_all_thread parse_time (\<lambda>n. nanos (Suc n)) reqs (built @ [t]) k)"

fun delete_all_thread :: "string list \<Rightarrow> registry thread \<Rightarrow> registry thread" where
  "delete_all_thread [] rest = rest"
| "delete_all_thread (i # is) rest = upd (\<lambda>w. delete_saved w i) (delete_all_thread is rest)"

fun save_all_thread :: "string list \<Rightarrow> task list \<Rightarrow> (store_error + string list \<Rightarrow> registry thread) \<Rightarrow> registry thread" where
  "save_all_thread saved [] k = k (Inr saved)"
| "save_all_thread saved (t # ts) k =
     act (lk_save t) (\<lambda>e. case e of
         Some e \<Rightarrow> delete_all_thread saved (k (Inl e))
       | None \<Rightarrow> upd (\<lambda>w. sched_track w t) (save_all_thread (saved @ [task_id t]) ts k))"

fun audit_all_thread :: "handler_env \<Rightarrow> string \<Rightarrow> string list \<Rightarrow> registry thread \<Rightarrow> registry thread" where
  "audit_all_thread he action [] rest = rest"
| "audit_all_thread he action (i # is) rest = audit_thread he action i (audit_all_thread he action is rest)"

definition batch_thread ::
  "(string \<Rightarrow> instant option) \<Rightarrow> handler_env \<Rightarrow> (nat \<Rightarrow> int) \<Rightarrow> register_request list option \<Rightarrow> registry thread" where
  "batch_thread parse_time he nanos decoded =
     (case decoded of
        None \<Rightarrow> Done (Answered (Response 400 (ErrorBody BadBody)))
      | Some reqs \<Rightarrow>
          if reqs = [] \<or> cf_max_batch_size (he_cfg he) < int (length reqs)
          then Done (Answered (Response 400 (ErrorBody BadBatchSize)))
          else
            build_all_thread parse_time nanos reqs [] (\<lambda>b. case b of
                Inl e \<Rightarrow> Done (Answered (Response 400 (ErrorBody e)))
              | Inr built \<Rightarrow>
                  save_all_thread [] built (\<lambda>s. case s of
                      Inl e \<Rightarrow> Done (Answered (Response 409 (ErrorBody (SchedError (StoreError e)))))
                    | Inr saved \<Rightarrow>
                        audit_all_thread he ''register-batch'' saved
                          (Done (Answered (Response 200 (IdsBody ''registered'' saved)))))))"

section \<open>The code: task operations\<close>

definition trigger_request_thread :: "handler_env \<Rightarrow> string option \<Rightarrow> registry thread" where
  "trigger_request_thread he decoded =
     (case decoded of
        None \<Rightarrow> Done (Answered (Response 400 (ErrorBody TaskIdRequired)))
      | Some i \<Rightarrow>
          if trim_space i = '''' then Done (Answered (Response 400 (ErrorBody TaskIdRequired)))
          else
            ask w_now (\<lambda>now.
            and_then (trigger_thread i now) (\<lambda>r. case r of
                Triggered (Some e) \<Rightarrow> Done (Answered (Response 409 (ErrorBody (SchedError e))))
              | Triggered None \<Rightarrow> audit_thread he ''trigger'' i (Done (Answered (Response 200 (IdBody ''triggered'' i))))
              | _ \<Rightarrow> Done r)))"

definition cancel_request_thread :: "handler_env \<Rightarrow> string option \<Rightarrow> registry thread" where
  "cancel_request_thread he decoded =
     (case decoded of
        None \<Rightarrow> Done (Answered (Response 400 (ErrorBody TaskIdRequired)))
      | Some i \<Rightarrow>
          if trim_space i = '''' then Done (Answered (Response 400 (ErrorBody TaskIdRequired)))
          else
            and_then (cancel_thread i) (\<lambda>r. case r of
                Canceled (Some e) \<Rightarrow> Done (Answered (Response 409 (ErrorBody (SchedError e))))
              | Canceled None \<Rightarrow> audit_thread he ''cancel'' i (Done (Answered (Response 200 (IdBody ''canceled'' i))))
              | _ \<Rightarrow> Done r))"

definition update_cron_thread :: "handler_env \<Rightarrow> (string \<times> string) option \<Rightarrow> registry thread" where
  "update_cron_thread he decoded =
     (case decoded of
        None \<Rightarrow> Done (Answered (Response 400 (ErrorBody TaskIdRequired)))
      | Some (i, expr) \<Rightarrow>
          if trim_space i = '''' then Done (Answered (Response 400 (ErrorBody TaskIdRequired)))
          else
            (case cron_parse expr of
               Inl e \<Rightarrow> Done (Answered (Response 400 (ErrorBody (CronError e))))
             | Inr sch \<Rightarrow>
                 ask (lk_get i) (\<lambda>r. case r of
                     Inl e \<Rightarrow> Done (Answered (Response 404 (ErrorBody (SchedError (StoreError e)))))
                   | Inr t0 \<Rightarrow>
                       if kind (trigger t0) \<noteq> ''cron'' then Done (Answered (Response 400 (ErrorBody NotCronScheduled)))
                       else
                         ask (\<lambda>w. (w_now w, cron_next (w_loc w) sch (w_now w))) (\<lambda>(now, nxt).
                         let t = t0\<lparr>trigger := (trigger t0)\<lparr>cron_expr := expr\<rparr>, next_run_at := nxt\<rparr> in
                         act (lk_save t) (\<lambda>e. case e of
                             Some e \<Rightarrow> Done (Answered (Response 409 (ErrorBody (SchedError (StoreError e)))))
                           | None \<Rightarrow>
                               upd (\<lambda>w. sched_refresh_cron w t)
                               (upd (\<lambda>w. w\<lparr>w_audit := audit_record (w_audit w)
                                   \<lparr>ae_at = now, ae_operator = he_operator he, ae_action = ''update-cron'',
                                    ae_target_id = task_id t, ae_detail = '''', ae_request_id = ''''\<rparr>\<rparr>)
                               (Done (Answered (Response 200 (TaskBody t))))))))))"

section \<open>The code: workers, restore and purge\<close>

definition worker_thread :: "handler_env \<Rightarrow> (string \<times> string) option \<Rightarrow> registry thread" where
  "worker_thread he decoded =
     (case decoded of
        None \<Rightarrow> Done (Answered (Response 400 (ErrorBody WorkerIdRequired)))
      | Some (i, address) \<Rightarrow>
          if trim_space i = '''' then Done (Answered (Response 400 (ErrorBody WorkerIdRequired)))
          else
            act (lk_register (Some \<lparr>node_id = i, node_address = address, last_heartbeat = zero_time,
                                   registered_at = zero_time, generation = 0\<rparr>)) (\<lambda>e. case e of
                Some e \<Rightarrow> Done (Answered (Response 400 (ErrorBody (SchedError (WorkerError e)))))
              | None \<Rightarrow>
                  audit_thread he ''worker-register'' i (Done (Answered (Response 200 (IdBody ''registered'' i))))))"

fun renew_all_thread :: "string \<Rightarrow> instant \<Rightarrow> lease list \<Rightarrow> registry thread \<Rightarrow> registry thread" where
  "renew_all_thread worker now [] rest = rest"
| "renew_all_thread worker now (l # ls) rest = upd (\<lambda>w. renew_all worker now w l) (renew_all_thread worker now ls rest)"

definition heartbeat_thread :: "string list \<Rightarrow> string option \<Rightarrow> registry thread" where
  "heartbeat_thread its decoded =
     (case decoded of
        None \<Rightarrow> Done (Answered (Response 400 (ErrorBody WorkerIdRequired)))
      | Some i \<Rightarrow>
          if trim_space i = '''' then Done (Answered (Response 400 (ErrorBody WorkerIdRequired)))
          else
            ask w_now (\<lambda>at.
            act (lk_heartbeat i at) (\<lambda>e. case e of
                Some e \<Rightarrow> Done (Answered (Response 404 (ErrorBody (SchedError (WorkerError e)))))
              | None \<Rightarrow>
                  ask w_now (\<lambda>now.
                  ask (\<lambda>w. lease_by_worker w its i) (\<lambda>ls.
                  renew_all_thread i now ls (Done (Answered (Response 200 OkBody))))))))"

fun import_records_thread :: "string \<Rightarrow> execution_record list \<Rightarrow> registry thread \<Rightarrow> registry thread" where
  "import_records_thread stamp [] rest = rest"
| "import_records_thread stamp (rec # recs) rest =
     upd (\<lambda>w. w\<lparr>w_records := records_append (w_records w) stamp rec\<rparr>) (import_records_thread stamp recs rest)"

fun import_tasks_thread :: "task list \<Rightarrow> (store_error option \<Rightarrow> registry thread) \<Rightarrow> registry thread" where
  "import_tasks_thread [] k = k None"
| "import_tasks_thread (t # ts) k =
     act (lk_save t) (\<lambda>e. case e of Some e \<Rightarrow> k (Some e) | None \<Rightarrow> import_tasks_thread ts k)"

definition restore_thread :: "string \<Rightarrow> snapshot option \<Rightarrow> registry thread" where
  "restore_thread stamp decoded =
     (case decoded of
        None \<Rightarrow> Done (Answered (Response 400 (ErrorBody (SnapshotError DecodeError))))
      | Some snap \<Rightarrow>
          upd (\<lambda>w. w\<lparr>w_store := store_reset (w_store w)\<rparr>)
          (import_tasks_thread (sn_tasks snap) (\<lambda>e. case e of
              Some e \<Rightarrow> Done (Answered (Response 400 (ErrorBody (SnapshotError (SaveError e)))))
            | None \<Rightarrow> import_records_thread stamp (sn_records snap) (Done (Answered (Response 200 OkBody))))))"

definition purge_thread ::
  "(string \<Rightarrow> instant option) \<Rightarrow> (instant \<Rightarrow> string) \<Rightarrow> handler_env \<Rightarrow> string list \<Rightarrow> string option \<Rightarrow> registry thread" where
  "purge_thread parse_time format_time he its decoded =
     (case decoded of
        None \<Rightarrow> Done (Answered (Response 400 (ErrorBody BadBody)))
      | Some before \<Rightarrow>
          (case parse_time before of
             None \<Rightarrow> Done (Answered (Response 400 (ErrorBody BadTime)))
           | Some cutoff \<Rightarrow>
               act (lk_purge its cutoff) (\<lambda>removed.
               audit_thread he ''purge-records'' (format_time cutoff)
                 (Done (Answered (Response 200 (CountBody ''removed'' removed)))))))"

section \<open>What may be running\<close>

text \<open>The operations that never delete a task: all but the rollback of a batch and \<open>Restore\<close>.\<close>

inductive operation :: "registry thread \<Rightarrow> bool" where
  op_tick: "operation (tick_thread its now)"
| op_assign: "operation (assign_thread registry_pick now nano)"
| op_run_next: "operation (run_next_thread registry_pick h nano1 nano2 stamp)"
| op_record: "operation (record_thread l status message started finished nano stamp)"
| op_reap: "operation (reap_thread its now)"
| op_renew: "operation (renew_thread i worker now)"
| op_release: "operation (release_thread i)"
| op_trigger: "operation (trigger_thread i now)"
| op_cancel: "operation (cancel_thread i)"
| op_register: "operation (register_thread parse_time he nano decoded)"
| op_trigger_request: "operation (trigger_request_thread he target)"
| op_cancel_request: "operation (cancel_request_thread he target)"
| op_update_cron: "operation (update_cron_thread he edit)"
| op_worker: "operation (worker_thread he worker)"
| op_heartbeat: "operation (heartbeat_thread its target)"
| op_purge: "operation (purge_thread parse_time format_time he its target)"

end
