(* ===== verification/Alone.thy ===== *)
theory Alone
  imports HandlerThreads System
begin

text \<open>
  A program that runs alone does what its operation does in one step, and always comes to
  its end: the one-step operations are the interleaved ones without interference.
\<close>

lemmas locked_calls = lk_get_def lk_mark_ready_def lk_transition_def lk_retry_def lk_set_next_run_def lk_save_def
  lk_pop_def lk_pop_due_def lk_next_id_def lk_collect_def

section \<open>Assign\<close>

text \<open>The loop at its two points.\<close>

lemma assign_loop_None:
  "assign_loop pick now nano None =
     Act (\<lambda>w. fst (lk_pop w))
       (\<lambda>w. case snd (lk_pop w) of None \<Rightarrow> Done (Assigned (Inl ErrNoReadyTask))
             | Some entry \<Rightarrow> assign_loop pick now nano (Some entry))"
  by (subst assign_loop.code) simp

lemma assign_loop_Some:
  "assign_loop pick now nano (Some entry) =
     Act (\<lambda>w. fst (lk_transition (re_task_id entry) StateReady StateLeased (-1) w))
       (\<lambda>w. case snd (lk_transition (re_task_id entry) StateReady StateLeased (-1) w) of
               Inl e \<Rightarrow> Done (Assigned (Inl (StoreError e)))
             | Inr None \<Rightarrow> assign_loop pick now nano None
             | Inr (Some t) \<Rightarrow> assign_rest pick now nano entry t)"
  by (subst assign_loop.code) simp

lemma assign_loop_alone [simp]:
  "finishes (assign_loop pick now nano None) w w' x \<longleftrightarrow>
   finishes (case snd (lk_pop w) of None \<Rightarrow> Done (Assigned (Inl ErrNoReadyTask))
             | Some entry \<Rightarrow> assign_loop pick now nano (Some entry)) (fst (lk_pop w)) w' x"
  "finishes (assign_loop pick now nano (Some entry)) w w' x \<longleftrightarrow>
   (let (w1, r) = lk_transition (re_task_id entry) StateReady StateLeased (-1) w in
    finishes (case r of Inl e \<Rightarrow> Done (Assigned (Inl (StoreError e)))
              | Inr None \<Rightarrow> assign_loop pick now nano None
              | Inr (Some t) \<Rightarrow> assign_rest pick now nano entry t) w1 w' x)"
  by (simp_all add: assign_loop_None [of pick] assign_loop_Some [of pick] split_beta)

lemma undo_alone:
  "fst (lk_transition i StateLeased StateReady v w) =
     (case store_transition (w_store w) (w_now w) i StateLeased StateReady v of
        Inr (Some (s, _)) \<Rightarrow> w\<lparr>w_store := s\<rparr> | _ \<Rightarrow> w)"
  by (simp add: lk_transition_def split: sum.split option.split prod.split)

lemma assign_alone:
  "finishes (assign_thread pick now nano) w (fst (lease_assign pick w now nano)) (Assigned (snd (lease_assign pick w now nano)))"
proof (induction pick w now nano rule: lease_assign.induct)
  case (1 pick w now nano)
  show ?case
  proof (cases "ready_pop (w_ready w)")
    case (Pair q x)
    show ?thesis
    proof (cases x)
      case None
      with Pair show ?thesis by (simp add: assign_thread_def lk_pop_def lease_assign.simps [of pick w])
    next
      case (Some entry)
      let ?w = "w\<lparr>w_ready := q\<rparr>"
      let ?r = "store_transition (w_store w) (w_now w) (re_task_id entry) StateReady StateLeased (-1)"
      consider e where "?r = Inl e" | "?r = Inr None" | s t where "?r = Inr (Some (s, t))"
        by (metis sum.exhaust option.exhaust prod.exhaust)
      then show ?thesis
      proof cases
        case 2
        with 1 [OF Pair [symmetric] Some 2 refl] Pair Some show ?thesis
          by (simp add: assign_thread_def lk_pop_def lk_transition_def lease_assign.simps [of pick w])
      next
        case (3 s t)
        with Pair Some show ?thesis
          by (simp add: assign_thread_def lk_pop_def lk_transition_def [of _ StateReady] lease_assign.simps [of pick w]
              assign_rest_def undo_alone assign_undo_def lk_next_id_def Let_def split: sum.split prod.split)
      qed (use Pair Some in \<open>simp add: assign_thread_def lk_pop_def lk_transition_def lease_assign.simps [of pick w]\<close>)
    qed
  qed
qed

section \<open>Results\<close>

lemma success_alone:
  "finishes (success_thread l t) w (fst (result_success w l t)) (Recorded (snd (result_success w l t)))"
  by (simp add: success_thread_def result_success_def lk_transition_def split: sum.split option.split prod.split)

lemma failure_alone:
  "finishes (failure_thread l t finished) w (fst (result_failure w l t finished))
     (Recorded (snd (result_failure w l t finished)))"
  by (simp add: failure_thread_def retry_thread_def dead_thread_def result_failure_def lk_transition_def lk_retry_def
      Let_def split: sum.split option.split prod.split)

lemma record_alone:
  "finishes (record_thread l status message started finished nano stamp) w
     (fst (record_result w l status message started finished nano stamp))
     (Recorded (snd (record_result w l status message started finished nano stamp)))"
  by (simp add: record_thread_def record_result_def lk_get_def lk_next_id_def Let_def success_alone failure_alone
      split: sum.split option.split prod.split)

lemma finish_alone:
  "finishes (finish_thread l started (w_now w) outcome nano stamp) w
     (fst (executor_finish w l started outcome nano stamp)) (Recorded (snd (executor_finish w l started outcome nano stamp)))"
proof -
  obtain status message where o: "(case outcome of Inr m \<Rightarrow> (''success'', m) | Inl err \<Rightarrow> (''failure'', err)) = (status, message)"
    by fastforce
  obtain w1 r where b: "record_result w l status message started (w_now w) nano stamp = (w1, r)" by fastforce
  have f: "finishes (record_thread l status message started (w_now w) nano stamp) w w1 (Recorded r)"
    using record_alone [of l status message started "w_now w" nano stamp w] by (simp add: b)
  have "(finish_thread l started (w_now w) outcome nano stamp :: 'a thread) =
      and_then (record_thread l status message started (w_now w) nano stamp)
        (\<lambda>r. case r of Recorded (Inl e) \<Rightarrow> upd (\<lambda>w. lease_release w (lease_id l)) (Done (Recorded (Inl e))) | _ \<Rightarrow> Done r)"
    using o by (auto simp: finish_thread_def split: sum.splits)
  then show ?thesis
    by (auto simp: executor_finish_def o b split: sum.split intro!: finishes_and_then [OF f])
qed

lemma run_next_alone:
  "finishes (run_next_thread pick h nano1 nano2 stamp) w
     (fst (executor_run_next pick w (Some (\<lambda>w t. (w, h t))) nano1 nano2 stamp))
     (Recorded (snd (executor_run_next pick w (Some (\<lambda>w t. (w, h t))) nano1 nano2 stamp)))"
proof -
  obtain w1 r where a: "lease_assign pick w (w_now w) nano1 = (w1, r)" by fastforce
  with assign_alone [of pick "w_now w" nano1 w]
  have f: "finishes (assign_thread pick (w_now w) nano1) w w1 (Assigned r)" by simp
  show ?thesis
  proof (cases r)
    case (Inl e)
    show ?thesis
      by (auto simp: run_next_thread_def executor_run_next_def executor_begin_def a Inl
          intro!: finishes_and_then [OF f])
  next
    case (Inr l)
    show ?thesis
    proof (cases "store_get (w_store w1) (lease_task_id l)")
      case (Inl e)
      then show ?thesis using \<open>r = Inr l\<close>
        by (auto simp: run_next_thread_def executor_run_next_def executor_begin_def a lk_get_def
            intro!: finishes_and_then [OF f])
    next
      case (Inr t)
      then show ?thesis using finish_alone [of l "w_now w1" w1 "h t" nano2 stamp] \<open>r = Inr l\<close>
        by (auto simp: run_next_thread_def executor_run_next_def executor_begin_def a lk_get_def
            intro!: finishes_and_then [OF f])
    qed
  qed
qed

section \<open>The other operations\<close>

text \<open>The loop bodies, unfolded only where they are applied.\<close>

lemmas loop_bodies =
  reap_one_def [THEN fun_cong, of _ "(w, n)" for w n]
  tick_pending_def [THEN fun_cong, of _ "(w, n)" for w n]
  tick_delayed_def [THEN fun_cong, of _ "(w, n)" for w n]

lemma reap_loop_alone:
  "finishes (reap_loop now reaped ls) w (fst (foldl (reap_one now) (w, reaped) ls)) (Reaped (snd (foldl (reap_one now) (w, reaped) ls)))"
proof (induction ls arbitrary: w reaped)
  case (Cons l ls)
  then show ?case
    by (simp add: loop_bodies lk_get_def lk_transition_def split: sum.split option.split prod.split)
qed simp

lemma reap_alone:
  "finishes (reap_thread its now) w (fst (lease_reap_expired w its now)) (Reaped (snd (lease_reap_expired w its now)))"
  by (simp add: reap_thread_def lease_reap_expired_def lk_collect_def Let_def reap_loop_alone split: prod.split)

lemma tick_delayed_alone:
  "finishes (tick_delayed_loop now n es) w (fst (foldl (tick_delayed now) (w, n) es)) (Ticked (snd (foldl (tick_delayed now) (w, n) es)))"
  by (induction es arbitrary: w n) (simp_all add: loop_bodies lk_get_def split: sum.split)

lemma tick_cron_alone:
  "finishes (tick_cron_thread i updated now rest) w w' x \<longleftrightarrow> finishes rest (tick_cron w i updated now) w' x"
  by (simp add: tick_cron_thread_def tick_cron_def lk_set_next_run_def Let_def split: sum.split option.split)

lemma tick_pending_alone:
  "finishes (tick_pending_loop now n is) w
     (fst (let (w1, n1) = foldl (tick_pending now) (w, n) is; (dq, entries) = delayed_pop_due (w_delayed w1) now
           in foldl (tick_delayed now) (w1\<lparr>w_delayed := dq\<rparr>, n1) entries))
     (Ticked (snd (let (w1, n1) = foldl (tick_pending now) (w, n) is; (dq, entries) = delayed_pop_due (w_delayed w1) now
           in foldl (tick_delayed now) (w1\<lparr>w_delayed := dq\<rparr>, n1) entries)))"
proof (induction "is" arbitrary: w n)
  case Nil
  then show ?case by (simp add: lk_pop_due_def tick_delayed_alone split: prod.split)
next
  case (Cons i "is")
  then show ?case
    by (simp add: loop_bodies lk_get_def lk_mark_ready_def tick_cron_alone split: sum.split prod.split)
qed

lemma tick_alone: "finishes (tick_thread its now) w (fst (sched_tick w its now)) (Ticked (snd (sched_tick w its now)))"
  using tick_pending_alone [of now 0] by (simp add: tick_thread_def sched_tick_def)

lemma trigger_alone:
  "finishes (trigger_thread i now) w (fst (sched_trigger_now w i now)) (Triggered (snd (sched_trigger_now w i now)))"
  by (simp add: trigger_thread_def sched_trigger_now_def lk_get_def lk_mark_ready_def Let_def split: sum.split prod.split)

lemma cancel_alone: "finishes (cancel_thread i) w (fst (sched_cancel w i)) (Canceled (snd (sched_cancel w i)))"
  by (simp add: cancel_thread_def sched_cancel_def lk_get_def lk_transition_def split: sum.split option.split prod.split)

lemma update_cron_alone:
  "finishes (update_cron_thread he decoded) w (fst (api_update_cron he w decoded)) (Answered (snd (api_update_cron he w decoded)))"
  by (simp add: update_cron_thread_def api_update_cron_def audit_action_def sched_refresh_cron_def lk_get_def lk_save_def
      Let_def split: sum.split option.split prod.split)

section \<open>The handlers\<close>

lemma audit_alone: "finishes (audit_thread he action target rest) w w' x \<longleftrightarrow> finishes rest (audit_action he w action target) w' x"
  by (simp add: audit_thread_def audit_action_def)

lemma build_alone:
  "finishes (build_thread parse_time nano req k) w w' x \<longleftrightarrow>
   finishes (k (snd (build_task parse_time w nano req))) (fst (build_task parse_time w nano req)) w' x"
  by (simp add: build_thread_def build_task_def validate_thread_def lk_next_id_def Let_def split: prod.split option.split sum.split)

lemma register_alone:
  "finishes (register_thread parse_time he nano decoded) w (fst (api_register_task parse_time he w nano decoded))
     (Answered (snd (api_register_task parse_time he w nano decoded)))"
  by (simp add: register_thread_def api_register_task_def build_alone audit_alone lk_save_def
      split: prod.split option.split sum.split)

lemma build_all_alone:
  "finishes (build_all_thread parse_time nanos reqs built k) w w' x \<longleftrightarrow>
   finishes (k (case snd (build_batch parse_time w nanos reqs) of Inl e \<Rightarrow> Inl e | Inr ts \<Rightarrow> Inr (built @ ts)))
     (fst (build_batch parse_time w nanos reqs)) w' x"
  by (induction parse_time w nanos reqs arbitrary: built rule: build_batch.induct)
    (simp_all add: build_alone split: prod.split sum.split)

lemma delete_all_alone: "finishes (delete_all_thread is rest) w w' x \<longleftrightarrow> finishes rest (foldl delete_saved w is) w' x"
  by (induction "is" arbitrary: w) simp_all

lemma save_all_alone:
  "finishes (save_all_thread saved ts k) w w' x \<longleftrightarrow>
   finishes (k (snd (save_batch w saved ts))) (fst (save_batch w saved ts)) w' x"
  by (induction w saved ts rule: save_batch.induct) (simp_all add: lk_save_def delete_all_alone split: sum.split)

lemma audit_all_alone:
  "finishes (audit_all_thread he action is rest) w w' x \<longleftrightarrow> finishes rest (foldl (\<lambda>w i. audit_action he w action i) w is) w' x"
  by (induction "is" arbitrary: w) (simp_all add: audit_alone)

lemma batch_alone:
  "finishes (batch_thread parse_time he nanos decoded) w (fst (api_register_batch parse_time he w nanos decoded))
     (Answered (snd (api_register_batch parse_time he w nanos decoded)))"
  by (simp add: batch_thread_def api_register_batch_def build_all_alone save_all_alone audit_all_alone
      split: prod.split option.split sum.split)

lemma trigger_request_alone:
  "finishes (trigger_request_thread he decoded) w (fst (api_trigger_now he w decoded)) (Answered (snd (api_trigger_now he w decoded)))"
proof (cases decoded)
  case (Some i)
  obtain w1 e where t: "sched_trigger_now w i (w_now w) = (w1, e)" by fastforce
  with trigger_alone [of i "w_now w" w] have "finishes (trigger_thread i (w_now w)) w w1 (Triggered e)" by simp
  then show ?thesis
    by (auto simp: trigger_request_thread_def api_trigger_now_def Some t audit_alone split: option.split intro!: finishes_and_then)
qed (simp add: trigger_request_thread_def api_trigger_now_def)

lemma cancel_request_alone:
  "finishes (cancel_request_thread he decoded) w (fst (api_cancel he w decoded)) (Answered (snd (api_cancel he w decoded)))"
proof (cases decoded)
  case (Some i)
  obtain w1 e where t: "sched_cancel w i = (w1, e)" by fastforce
  with cancel_alone [of i w] have "finishes (cancel_thread i) w w1 (Canceled e)" by simp
  then show ?thesis
    by (auto simp: cancel_request_thread_def api_cancel_def Some t audit_alone split: option.split intro!: finishes_and_then)
qed (simp add: cancel_request_thread_def api_cancel_def)

lemma worker_alone:
  "finishes (worker_thread he decoded) w (fst (api_register_worker he w decoded)) (Answered (snd (api_register_worker he w decoded)))"
  by (simp add: worker_thread_def api_register_worker_def lk_register_def audit_alone split: prod.split option.split sum.split)

lemma renew_all_alone:
  "finishes (renew_all_thread worker now ls rest) w w' x \<longleftrightarrow> finishes rest (foldl (renew_all worker now) w ls) w' x"
  by (induction ls arbitrary: w) simp_all

lemma heartbeat_alone:
  "finishes (heartbeat_thread its decoded) w (fst (api_heartbeat w its decoded)) (Answered (snd (api_heartbeat w its decoded)))"
  by (simp add: heartbeat_thread_def api_heartbeat_def lk_heartbeat_def renew_all_alone Let_def split: option.split sum.split)

lemma import_records_alone:
  "finishes (import_records_thread stamp recs rest) w w' x \<longleftrightarrow>
   finishes rest (w\<lparr>w_records := import_records (w_records w) stamp recs\<rparr>) w' x"
  by (induction recs arbitrary: w) simp_all

lemma import_tasks_alone:
  "finishes (import_tasks_thread ts k) w w' x \<longleftrightarrow>
   finishes (k (snd (import_tasks (w_store w) (\<lambda>_. w_now w) ts)))
     (w\<lparr>w_store := fst (import_tasks (w_store w) (\<lambda>_. w_now w) ts)\<rparr>) w' x"
  by (induction ts arbitrary: w) (simp_all add: lk_save_def split: sum.split)

lemma restore_alone:
  "finishes (restore_thread stamp decoded) w (fst (api_restore w stamp decoded)) (Answered (snd (api_restore w stamp decoded)))"
  by (simp add: restore_thread_def api_restore_def store_import_def import_tasks_alone import_records_alone
      split: prod.split option.split)

lemma purge_alone:
  "finishes (purge_thread parse_time format_time he its decoded) w (fst (api_purge_records parse_time format_time he w its decoded))
     (Answered (snd (api_purge_records parse_time format_time he w its decoded)))"
  by (simp add: purge_thread_def api_purge_records_def lk_purge_def audit_alone split: prod.split option.split)

end
