(* ===== verification/Interleaving.thy ===== *)
theory Interleaving
  imports Alone
begin

text \<open>
  Operations under interference: whatever the scheduling of their actions, a version of a
  task is leased at most once and has at most one accepted result, since every guarded
  change names the version that it found.
\<close>

section \<open>Tasks and their versions\<close>

definition keyed :: "'r stack \<Rightarrow> bool" where
  "keyed w \<longleftrightarrow> (\<forall>i t. tasks_of w i = Some t \<longrightarrow> task_id t = i)"

definition versions :: "'r stack \<Rightarrow> string \<Rightarrow> int option" where
  "versions w i = map_option version (tasks_of w i)"

text \<open>What a result claims: an assigned lease its version, an accepted result the version it made.\<close>

fun claims_of :: "outcome \<Rightarrow> (string \<times> int) set" where
  "claims_of (Assigned (Inr l)) = {(lease_task_id l, lease_task_version l)}"
| "claims_of (Recorded (Inr t)) = {(task_id t, version t)}"
| "claims_of _ = {}"

abbreviation sound :: "'r thread \<Rightarrow> (string \<times> int) set \<Rightarrow> bool" where
  "sound \<equiv> guarded keyed versions claims_of"

text \<open>Anything else that may happen: no task is deleted, rekeyed, or set back to an earlier version.\<close>

definition elsewhere :: "'r stack \<Rightarrow> 'r stack \<Rightarrow> bool" where
  "elsewhere w w' \<longleftrightarrow> (keyed w \<longrightarrow> keyed w') \<and> grows versions w w'"

lemma tasks_unchanged:
  assumes "tasks_of w' = tasks_of w"
  shows "keyed w' \<longleftrightarrow> keyed w" "versions w' = versions w"
  using assms by (simp_all add: keyed_def versions_def fun_eq_iff)

text \<open>Putting a task with a version that is not lower.\<close>

lemma put_grows:
  assumes "tasks_of w i = Some t" and "tasks_of w' = (tasks_of w)(i \<mapsto> u)" and "version t \<le> version u"
    and "task_id u = task_id t" and "keyed w"
  shows "keyed w' \<and> grows versions w w' \<and> task_id u = i \<and>
    raised versions w w' = (if version t < version u then {(i, version u)} else {})"
proof -
  have "task_id t = i" using assms(1,5) by (simp add: keyed_def)
  then have "keyed w'" and "task_id u = i" using assms(4,5) by (simp_all add: keyed_def assms(2))
  moreover have v: "versions w' = (versions w)(i := Some (version u))" "versions w i = Some (version t)"
    by (simp_all add: versions_def fun_eq_iff assms(1,2))
  moreover have "grows versions w w'" using assms(3) by (simp add: grows_def v)
  moreover have "raised versions w w' = (if version t < version u then {(i, version u)} else {})"
    by (auto simp: raised_def v split: if_splits)
  ultimately show ?thesis by blast
qed

lemma new_grows:
  assumes "tasks_of w i = None" and "tasks_of w' = (tasks_of w)(i \<mapsto> u)" and "task_id u = i" and "keyed w"
  shows "keyed w' \<and> grows versions w w'"
proof -
  have "versions w' = (versions w)(i := Some (version u))" "versions w i = None"
    by (simp_all add: versions_def fun_eq_iff assms(1,2))
  then have "grows versions w w'" by (simp add: grows_def)
  moreover have "keyed w'" using assms(3,4) by (simp add: keyed_def assms(2))
  ultimately show ?thesis by blast
qed

section \<open>The actions\<close>

lemma sound_done [intro]: "claims_of x \<subseteq> B \<Longrightarrow> sound (Done x) B"
  by (simp add: guarded_simps)

lemma sound_upd [intro]:
  assumes "\<And>w. tasks_of (f w) = tasks_of w" and "sound p B"
  shows "sound (upd f p) B"
  using assms(2) tasks_unchanged [OF assms(1)] by (intro guarded_upd) simp_all

lemma sound_quiet:
  assumes "\<And>w. tasks_of (fst (a w)) = tasks_of w" and "\<And>x. sound (k x) B"
  shows "sound (act a k) B"
  using assms(2) tasks_unchanged [OF assms(1)] by (intro guarded_act) (simp add: grows_refl raised_same)

lemma sound_ask [intro]: "(\<And>x. sound (k x) B) \<Longrightarrow> sound (ask q k) B"
  by (rule guarded_ask)

lemma transition_cases:
  assumes "keyed w"
  obtains e where "lk_transition i st st' v w = (w, Inl e)"
  | "lk_transition i st st' v w = (w, Inr None)"
  | w' t where "lk_transition i st st' v w = (w', Inr (Some t))" "keyed w'" "grows versions w w'"
      "task_id t = i" "raised versions w w' = {(i, version t)}"
proof (cases "store_transition (w_store w) (w_now w) i st st' v")
  case (Inl e)
  then show ?thesis using that(1) by (simp add: lk_transition_def)
next
  case (Inr r)
  show ?thesis
  proof (cases r)
    case None
    with Inr show ?thesis using that(2) by (simp add: lk_transition_def)
  next
    case (Some x)
    then obtain s t where r: "store_transition (w_store w) (w_now w) i st st' v = Inr (Some (s, t))"
      using Inr by (cases x) simp
    then obtain t0 where "tasks_of w i = Some t0" "ts_tasks s = (tasks_of w)(i \<mapsto> t)" "version t = version t0 + 1" "task_id t = task_id t0"
      by (auto simp: store_transition_def Let_def split: option.splits if_splits)
    with put_grows [of w i t0 "w\<lparr>w_store := s\<rparr>" t] assms r show ?thesis
      using that(3) [of "w\<lparr>w_store := s\<rparr>" t] by (simp add: lk_transition_def)
  qed
qed

lemma sound_transition:
  assumes "\<And>e. sound (k (Inl e)) B" and "sound (k (Inr None)) B"
    and "\<And>t. task_id t = i \<Longrightarrow> sound (k (Inr (Some t))) (B \<union> {(i, version t)})"
  shows "sound (act (lk_transition i st st' v) k) B"
proof (rule guarded_act)
  fix w :: "'a stack"
  assume k: "keyed w"
  then show "keyed (fst (lk_transition i st st' v w)) \<and> grows versions w (fst (lk_transition i st st' v w)) \<and>
    sound (k (snd (lk_transition i st st' v w))) (B \<union> raised versions w (fst (lk_transition i st st' v w)))"
    by (rule transition_cases [where i = i and st = st and st' = st' and v = v]) (use assms k in \<open>simp_all add: grows_refl raised_same\<close>)
qed

lemma retry_cases:
  assumes "keyed w"
  obtains e where "lk_retry i nxt expected w = (w, Inl e)"
  | w' t where "lk_retry i nxt expected w = (w', Inr t)" "keyed w'" "grows versions w w'"
      "task_id t = i" "raised versions w w' = {(i, version t)}"
proof (cases "store_retry (w_store w) (w_now w) (w_now w) i nxt expected")
  case (Inl e)
  then show ?thesis using that(1) by (simp add: lk_retry_def)
next
  case (Inr x)
  then obtain s t where r: "store_retry (w_store w) (w_now w) (w_now w) i nxt expected = Inr (s, t)"
    by (cases x) simp
  then obtain t0 where "tasks_of w i = Some t0" "ts_tasks s = (tasks_of w)(i \<mapsto> t)" "version t = version t0 + 1" "task_id t = task_id t0"
    by (auto simp: store_retry_def Let_def split: option.splits if_splits)
  with put_grows [of w i t0 "w\<lparr>w_store := s\<rparr>" t] assms r show ?thesis
    using that(2) [of "w\<lparr>w_store := s\<rparr>" t] by (simp add: lk_retry_def)
qed

lemma sound_retry:
  assumes "\<And>e. sound (k (Inl e)) B" and "\<And>t. task_id t = i \<Longrightarrow> sound (k (Inr t)) (B \<union> {(i, version t)})"
  shows "sound (act (lk_retry i nxt expected) k) B"
proof (rule guarded_act)
  fix w :: "'a stack"
  assume k: "keyed w"
  then show "keyed (fst (lk_retry i nxt expected w)) \<and> grows versions w (fst (lk_retry i nxt expected w)) \<and>
    sound (k (snd (lk_retry i nxt expected w))) (B \<union> raised versions w (fst (lk_retry i nxt expected w)))"
    by (rule retry_cases [where i = i and nxt = nxt and expected = expected]) (use assms k in \<open>simp_all add: grows_refl raised_same\<close>)
qed

text \<open>The other changes of the store keep versions from falling; what they raise is not claimed.\<close>

lemma mark_ready_grows: "keyed w \<Longrightarrow> keyed (fst (lk_mark_ready i w)) \<and> grows versions w (fst (lk_mark_ready i w))"
  using put_grows [of w i]
  by (auto simp: lk_mark_ready_def store_mark_ready_def Let_def grows_refl split: sum.splits option.splits if_splits)

lemma set_next_run_grows: "keyed w \<Longrightarrow> keyed (fst (lk_set_next_run i nxt w)) \<and> grows versions w (fst (lk_set_next_run i nxt w))"
  using put_grows [of w i]
  by (auto simp: lk_set_next_run_def store_set_next_run_def Let_def grows_refl split: sum.splits option.splits if_splits)

lemma store_save_grows:
  assumes "keyed w" and "store_save (w_store w) now t = Inr s" and "tasks_of w' = ts_tasks s"
  shows "keyed w' \<and> grows versions w w'"
proof (cases "tasks_of w (task_id t)")
  case None
  with assms(2) have "ts_tasks s = (tasks_of w)(task_id t \<mapsto> t\<lparr>version := 1, created_at := now, updated_at := now\<rparr>)"
    by (auto simp: store_save_def Let_def split: if_splits option.splits)
  with new_grows [OF None _ _ assms(1)] assms(3) show ?thesis by simp
next
  case (Some p)
  then obtain p' where "ts_tasks s = (tasks_of w)(task_id t \<mapsto> p')" "version p' = version p + 1" "task_id p' = task_id p"
    using assms(2) by (auto simp: store_save_def Let_def split: if_splits option.splits)
  with put_grows [OF Some _ _ _ assms(1), of w' p'] assms(3) show ?thesis by simp
qed

lemma save_grows: "keyed w \<Longrightarrow> keyed (fst (lk_save t w)) \<and> grows versions w (fst (lk_save t w))"
  using store_save_grows [of w "w_now w" t] by (simp add: lk_save_def grows_refl split: sum.split)

lemma sound_store:
  assumes "\<And>w. keyed w \<Longrightarrow> keyed (fst (a w)) \<and> grows versions w (fst (a w))" and "\<And>x. sound (k x) B"
  shows "sound (act a k) B"
proof (rule guarded_act)
  fix w :: "'a stack"
  assume "keyed w"
  from assms(1) [OF this] guarded_mono [OF assms(2), of "B \<union> raised versions w (fst (a w))"]
  show "keyed (fst (a w)) \<and> grows versions w (fst (a w)) \<and> sound (k (snd (a w))) (B \<union> raised versions w (fst (a w)))" by auto
qed

lemma quiet_calls [simp]:
  "tasks_of (fst (lk_pop w)) = tasks_of w" "tasks_of (fst (lk_pop_due now w)) = tasks_of w"
  "tasks_of (fst (lk_next_id prefix nano w)) = tasks_of w" "tasks_of (fst (lk_collect its now w)) = tasks_of w"
  "w_store (lease_release w i) = w_store w" "w_store (sched_schedule_retry w i at p now) = w_store w"
  "w_store (fst (lease_renew w i worker now)) = w_store w" "w_store (sched_set_next_fire w i at) = w_store w"
  "w_store (sched_refresh_cron w t) = w_store w"
  by (simp_all add: lk_pop_def lk_pop_due_def lk_next_id_def lk_collect_def lease_release_def sched_schedule_retry_def
      lease_renew_def sched_set_next_fire_def sched_refresh_cron_def split: prod.split option.split sum.split)

lemma quiet_handlers:
  "tasks_of (fst (lk_register node v)) = tasks_of v" "tasks_of (fst (lk_heartbeat i at v)) = tasks_of v"
  "tasks_of (fst (lk_purge its cutoff w)) = tasks_of w"
  by (simp_all add: lk_register_def lk_heartbeat_def lk_purge_def split: prod.split sum.split)

section \<open>The operations\<close>

text \<open>One rule for each action.\<close>

lemmas sound_next_id = sound_quiet [where a = "lk_next_id prefix nano" for prefix nano, OF quiet_calls(3)]
lemmas sound_pop_due = sound_quiet [where a = "lk_pop_due now" for now, OF quiet_calls(2)]
lemmas sound_collect = sound_quiet [where a = "lk_collect its now" for its now, OF quiet_calls(4)]

lemmas sound_rules = sound_transition sound_retry sound_store [OF mark_ready_grows] sound_store [OF set_next_run_grows]
  sound_store [OF save_grows] sound_next_id sound_pop_due sound_collect sound_ask sound_upd

lemma sound_cases:
  "(\<And>e. r = Inl e \<Longrightarrow> sound (f e) B) \<Longrightarrow> (\<And>y. r = Inr y \<Longrightarrow> sound (g y) B) \<Longrightarrow> sound (case r of Inl e \<Rightarrow> f e | Inr y \<Rightarrow> g y) B"
  "(m = None \<Longrightarrow> sound p B) \<Longrightarrow> (\<And>z. m = Some z \<Longrightarrow> sound (h z) B) \<Longrightarrow> sound (case m of None \<Rightarrow> p | Some z \<Rightarrow> h z) B"
  "(c \<Longrightarrow> sound p B) \<Longrightarrow> (\<not> c \<Longrightarrow> sound q B) \<Longrightarrow> sound (if c then p else q) B"
  by (simp_all split: sum.split option.split)

lemma reap_loop_sound: "sound (reap_loop now reaped ls) B"
proof (induction ls arbitrary: reaped B)
  case (Cons l ls)
  then show ?case by (auto intro!: sound_rules sound_cases)
qed (simp add: guarded_simps)

lemma tick_delayed_loop_sound: "sound (tick_delayed_loop now n es) B"
  by (induction es arbitrary: n) (auto simp: guarded_simps intro!: sound_ask sound_upd sound_cases)

lemma tick_cron_sound: "sound rest B \<Longrightarrow> sound (tick_cron_thread i updated now rest) B"
  by (auto simp: tick_cron_thread_def intro!: sound_rules sound_cases)

lemma tick_pending_loop_sound: "sound (tick_pending_loop now n is) B"
proof (induction "is" arbitrary: n)
  case Nil
  then show ?case by (auto intro!: sound_rules tick_delayed_loop_sound)
next
  case (Cons i "is")
  then show ?case by (auto intro!: sound_rules sound_cases tick_cron_sound)
qed

lemma success_sound: "sound (success_thread l t) B"
  by (auto simp: success_thread_def guarded_simps intro!: sound_rules sound_cases)

lemma failure_sound: "sound (failure_thread l t finished) B"
  by (auto simp: failure_thread_def retry_thread_def dead_thread_def guarded_simps intro!: sound_rules sound_cases)

lemma record_sound: "sound (record_thread l status message started finished nano stamp) B"
  by (auto simp: record_thread_def guarded_simps intro!: sound_rules sound_cases success_sound failure_sound)

lemma sound_pure:
  assumes "\<And>w. tasks_of (fst (a w)) = tasks_of w" and "\<And>w. sound (k (snd (a w))) B"
  shows "sound (act a k) B"
  using assms(2) tasks_unchanged [OF assms(1)] by (intro guarded_act) (simp add: grows_refl raised_same)

lemma assign_rest_sound:
  assumes "task_id t = re_task_id entry"
  shows "sound (assign_rest pick now nano entry t) (B \<union> {(re_task_id entry, version t)})"
  unfolding assign_rest_def
proof (intro sound_ask sound_cases)
  fix node
  show "sound (act (lk_next_id ''lease'' nano) (\<lambda>i.
      act (\<lambda>w. let l = \<lparr>lease_id = i, lease_task_id = task_id t, lease_worker_id = node_id node,
                     lease_task_version = version t, lease_deadline = now + w_ttl w, lease_created_at = now\<rparr>
               in (w\<lparr>w_leases := lease_insert (w_leases w) l\<rparr>, l)) (\<lambda>l.
      Done (Assigned (Inr l))))) (B \<union> {(re_task_id entry, version t)})"
    by (rule sound_next_id, rule sound_pure) (simp_all add: Let_def guarded_simps assms)
qed (auto intro!: sound_transition sound_upd simp: guarded_simps)

text \<open>The loop of \<open>Assign\<close> may go on for ever: its soundness is by coinduction.\<close>

lemma assign_loop_sound: "sound (assign_loop pick now nano pc) B"
proof (coinduction arbitrary: pc B rule: guarded.coinduct)
  case guarded
  show ?case
  proof (cases pc)
    case None
    then show ?thesis
      by (auto simp: assign_loop_None tasks_unchanged [OF quiet_calls(1)] grows_refl raised_same guarded_simps split: option.split)
  next
    case (Some entry)
    let ?call = "lk_transition (re_task_id entry) StateReady StateLeased (- 1)"
    let ?next = "\<lambda>w. case snd (?call w) of
        Inl e \<Rightarrow> Done (Assigned (Inl (StoreError e)))
      | Inr None \<Rightarrow> assign_loop pick now nano None
      | Inr (Some t) \<Rightarrow> assign_rest pick now nano entry t"
    have "keyed (fst (?call w)) \<and> grows versions w (fst (?call w)) \<and>
        ((\<exists>pc. ?next w = assign_loop pick now nano pc) \<or> sound (?next w) (B \<union> raised versions w (fst (?call w))))"
      if "keyed w" for w :: "'a stack"
      by (rule transition_cases [where i = "re_task_id entry" and st = StateReady and st' = StateLeased and v = "- 1", OF that])
        (use that in \<open>auto simp: grows_refl raised_same guarded_simps assign_rest_sound [simplified Un_insert_right Un_empty_right]\<close>)
    then show ?thesis by (simp add: Some assign_loop_Some)
  qed
qed

lemma finish_sound: "sound (finish_thread l started finished outcome nano stamp) B"
  unfolding finish_thread_def
  by (rule guarded_and_then [where claims = claims_of])
    (auto simp: guarded_simps split: sum.split outcome.split intro!: record_sound sound_upd)

lemma run_next_sound: "sound (run_next_thread pick h nano1 nano2 stamp) B"
  unfolding run_next_thread_def assign_thread_def
  by (intro sound_ask, rule guarded_and_then [OF assign_loop_sound])
    (auto simp: guarded_simps split: sum.split outcome.split intro!: sound_ask sound_cases sound_upd finish_sound)

text \<open>The handlers.\<close>

lemmas sound_register = sound_quiet [where a = "lk_register node" for node, OF quiet_handlers(1)]
lemmas sound_heartbeat = sound_quiet [where a = "lk_heartbeat i at" for i at, OF quiet_handlers(2)]
lemmas sound_purge = sound_quiet [where a = "lk_purge its cutoff" for its cutoff, OF quiet_handlers(3)]

lemma audit_sound: "sound rest B \<Longrightarrow> sound (audit_thread he action target rest) B"
  by (auto simp: audit_thread_def intro!: sound_ask sound_upd)

lemma build_sound: "(\<And>b. sound (k b) B) \<Longrightarrow> sound (build_thread parse_time nano req k) B"
  by (auto simp: build_thread_def validate_thread_def Let_def intro!: sound_next_id sound_cases sound_ask)

lemma register_sound: "sound (register_thread parse_time he nano decoded) B"
  by (auto simp: register_thread_def guarded_simps
      intro!: sound_cases build_sound sound_store [OF save_grows] sound_upd audit_sound)

lemma trigger_sound: "sound (trigger_thread i now) B"
  by (auto simp: trigger_thread_def Let_def guarded_simps intro!: sound_rules sound_cases)

lemma cancel_sound: "sound (cancel_thread i) B"
  by (auto simp: cancel_thread_def guarded_simps intro!: sound_rules sound_cases)

lemma trigger_request_sound: "sound (trigger_request_thread he decoded) B"
  by (auto simp: trigger_request_thread_def guarded_simps split: outcome.split
      intro!: sound_cases sound_ask audit_sound guarded_and_then [OF trigger_sound])

lemma cancel_request_sound: "sound (cancel_request_thread he decoded) B"
  by (auto simp: cancel_request_thread_def guarded_simps split: outcome.split
      intro!: sound_cases audit_sound guarded_and_then [OF cancel_sound])

lemma update_cron_sound: "sound (update_cron_thread he decoded) B"
  by (auto simp: update_cron_thread_def Let_def guarded_simps split: prod.split intro!: sound_rules sound_cases)

lemma worker_sound: "sound (worker_thread he decoded) B"
  by (auto simp: worker_thread_def guarded_simps split: prod.split intro!: sound_cases sound_register audit_sound)

lemma renew_all_sound: "sound rest B \<Longrightarrow> sound (renew_all_thread worker now ls rest) B"
  by (induction ls) (auto simp: renew_all_def intro!: sound_upd)

lemma heartbeat_sound: "sound (heartbeat_thread its decoded) B"
  by (auto simp: heartbeat_thread_def guarded_simps intro!: sound_cases sound_ask sound_heartbeat renew_all_sound)

lemma purge_sound: "sound (purge_thread parse_time format_time he its decoded) B"
  by (auto simp: purge_thread_def guarded_simps intro!: sound_cases sound_purge audit_sound)

lemma operation_sound: "operation p \<Longrightarrow> sound p {}"
proof (induction p rule: operation.induct)
  case (op_tick its now)
  then show ?case by (auto simp: tick_thread_def intro!: sound_ask tick_pending_loop_sound)
next
  case (op_reap its now)
  then show ?case by (auto simp: reap_thread_def intro!: sound_collect reap_loop_sound)
next
  case (op_renew i worker now)
  then show ?case by (auto simp: renew_thread_def guarded_simps intro!: sound_pure)
qed (auto simp: assign_thread_def release_thread_def guarded_simps intro!: assign_loop_sound run_next_sound record_sound
    sound_upd trigger_sound cancel_sound register_sound trigger_request_sound cancel_request_sound update_cron_sound
    worker_sound heartbeat_sound purge_sound)

interpretation il: guarded_threads keyed versions elsewhere claims_of operation
  by unfold_locales (auto simp: elsewhere_def operation_sound)

section \<open>What happens elsewhere\<close>

text \<open>The clock and registrations are within what the threads rely on.\<close>

lemma elsewhere_same: "tasks_of w' = tasks_of w \<Longrightarrow> elsewhere w w'"
  by (simp add: elsewhere_def tasks_unchanged [of w' w] grows_refl)

lemma elsewhere_clock: "elsewhere w (clock_advance w d)"
  by (rule elsewhere_same) (simp add: clock_advance_def)

lemma elsewhere_register:
  assumes "keyed w" and "harness_register_once w nano name at prio retries = Some (w', t)"
  shows "elsewhere w w'"
proof -
  obtain s where "store_save (w_store w) (w_now w) t = Inr s" and "tasks_of w' = ts_tasks s"
    using assms(2) by (auto simp: harness_register_once_def sched_track_def Let_def split: sum.splits prod.splits)
  from store_save_grows [OF assms(1) this] show ?thesis by (simp add: elsewhere_def)
qed

lemma reachable_keyed: "sys_reachable w \<Longrightarrow> keyed w"
  using inv_task_id [OF reachable_inv] by (auto simp: keyed_def)

end
