(* ===== verification/Races.thy ===== *)
theory Races
  imports Interleaving Demo
begin

text \<open>
  Properties of the interleaved operations, and three races, each as a run that reaches a
  state no sequence of whole operations reaches.
\<close>

section \<open>A release that drops another lease\<close>

text \<open>
  One executor reports a failure; after the store has put the task back to ready, and before
  the lease is released, the task is triggered by hand and leased again.
\<close>

definition race_retried :: task where
  "race_retried = demo_held\<lparr>retries_left := 1, state := StateReady, next_run_at := 30 + w_retry_delay demo_leased,
     last_attempt_at := 0, version := 4, updated_at := 0\<rparr>"

definition race_again :: task where
  "race_again = moved race_retried StateLeased 0"

definition race_key :: string where
  "race_key = snd (id_next 3 ''lease'' 11)"

definition race_lease :: lease where
  "race_lease = \<lparr>lease_id = race_key, lease_task_id = demo_id, lease_worker_id = ''worker-1'', lease_task_version = 5,
     lease_deadline = 20 + 30 * second_ns, lease_created_at = 20\<rparr>"

definition race_report :: "registry thread" where
  "race_report = record_thread demo_lease ''failure'' ''boom'' 20 30 9 ''s''"

definition race_release :: "registry thread" where
  "race_release = upd (\<lambda>w. lease_release w demo_key) (Done (Recorded (Inr race_retried)))"

definition race_one :: wiring where
  "race_one = fst (own_turns 9 (demo_leased, race_report))"

definition race_two :: wiring where
  "race_two = fst (own_turns 3 (race_one, trigger_thread demo_id 20))"

definition race_three :: wiring where
  "race_three = fst (own_turns 5 (race_two, assign_thread registry_pick 20 11))"

definition race_end :: wiring where
  "race_end = lease_release race_three demo_key"

lemma demo_leased_rest:
  "w_registry demo_leased = w_registry (main_wiring utc 0)" "w_ttl demo_leased = 30 * second_ns"
  "ts_by_name (w_store demo_leased) = ts_by_name (w_store demo_ready_stack)"
  by (simp_all add: demo_leased_def lease_assign.simps [of registry_pick demo_ready_stack] demo_ready_fields demo_pop
      store_transition_def Let_def demo_due_def demo_born_def demo_job_def moved_def demo_worker demo_key_next main_wiring_fields)

lemmas demo_parts = demo_held_def demo_due_def demo_born_def demo_job_def moved_def

lemma race_key_next: "id_next 3 ''lease'' 11 = (4, race_key)"
  by (rule prod_eqI) (simp_all add: race_key_def)

lemma race_report_turns: "own_turns 9 (demo_leased, race_report) = (race_one, race_release)"
proof -
  have "snd (own_turns 9 (demo_leased, race_report)) = race_release"
    by (simp add: race_report_def race_release_def record_thread_def failure_thread_def retry_thread_def numeral_eq_Suc
        lk_get_def store_get_def demo_leased_fields lease_current_def lk_next_id_def lk_retry_def store_retry_def Let_def
        demo_lease_def race_retried_def demo_parts split: prod.split)
  then show ?thesis by (simp add: race_one_def prod_eq_iff)
qed

lemma race_one_fields:
  "tasks_of race_one = [demo_id \<mapsto> race_retried]" "w_seq race_one = 3" "w_now race_one = 0" "w_ready race_one = ready_new"
  "w_leases race_one = w_leases demo_leased" "w_registry race_one = w_registry (main_wiring utc 0)"
  "w_ttl race_one = 30 * second_ns"
  by (simp_all add: race_one_def race_report_def record_thread_def failure_thread_def retry_thread_def numeral_eq_Suc
      lk_get_def store_get_def demo_leased_fields demo_leased_rest lease_current_def lk_next_id_def lk_retry_def
      store_retry_def Let_def demo_lease_def race_retried_def demo_parts sched_schedule_retry_def id_next_def split: prod.split)

lemma race_trigger_turns: "own_turns 3 (race_one, trigger_thread demo_id 20) = (race_two, Done (Triggered None))"
  by (simp add: race_two_def prod_eq_iff trigger_thread_def numeral_eq_Suc lk_get_def store_get_def race_one_fields
      lk_mark_ready_def store_mark_ready_def Let_def race_retried_def)

lemma race_two_fields:
  "tasks_of race_two = [demo_id \<mapsto> race_retried]" "w_seq race_two = 3" "w_now race_two = 0"
  "w_ready race_two = fst (ready_push ready_new demo_id 1 20)"
  "w_leases race_two = w_leases demo_leased" "w_registry race_two = w_registry (main_wiring utc 0)"
  "w_ttl race_two = 30 * second_ns"
  by (simp_all add: race_two_def trigger_thread_def numeral_eq_Suc lk_get_def store_get_def race_one_fields
      lk_mark_ready_def store_mark_ready_def Let_def race_retried_def demo_parts push_ready_def)

lemma race_assign_turns:
  "own_turns 5 (race_two, assign_thread registry_pick 20 11) = (race_three, Done (Assigned (Inr race_lease)))"
  by (simp add: race_three_def prod_eq_iff assign_thread_def assign_loop_None assign_loop_Some numeral_eq_Suc
      lk_pop_def demo_pop race_two_fields lk_transition_def store_transition_def Let_def assign_rest_def demo_worker
      lk_next_id_def race_key_next race_lease_def race_retried_def demo_parts)

lemma race_three_fields:
  "tasks_of race_three = [demo_id \<mapsto> race_again]" "w_now race_three = 0"
  "w_leases race_three = \<lparr>lt_leases = [demo_key \<mapsto> demo_lease, race_key \<mapsto> race_lease], lt_by_task = [demo_id \<mapsto> race_key]\<rparr>"
  by (simp_all add: race_three_def assign_thread_def assign_loop_None assign_loop_Some numeral_eq_Suc
      lk_pop_def demo_pop race_two_fields lk_transition_def store_transition_def Let_def assign_rest_def demo_worker
      lk_next_id_def race_key_next race_lease_def race_retried_def demo_parts race_again_def lease_insert_def demo_leased_fields)

lemma race_three_key: "demo_key \<noteq> race_key"
  using id_next_seq [of 1 "''lease''" 8 3 11] by (auto simp: demo_key_def race_key_def)

lemma race_end_fields:
  "tasks_of race_end = [demo_id \<mapsto> race_again]"
  "w_leases race_end = \<lparr>lt_leases = [race_key \<mapsto> race_lease], lt_by_task = Map.empty\<rparr>"
  using race_three_key
  by (simp_all add: race_end_def lease_release_def race_three_fields lease_delete_def demo_lease_def fun_eq_iff)

lemma race_lease_id: "lease_id race_lease = race_key"
  by (simp add: race_lease_def)

lemma race_end_unreachable: "\<not> sys_reachable race_end"
proof
  assume "sys_reachable race_end"
  from stack_invD(4) [OF reachable_inv [OF this]] show False
    by (auto simp: leases_ok_def race_end_fields dest: spec [of _ race_key])
qed

lemma demo_operations:
  "operation race_report" "operation (trigger_thread demo_id 20)" "operation (assign_thread registry_pick 20 11)"
  unfolding race_report_def by (rule operation.intros)+

lemma race_run:
  "interleaves elsewhere operation (demo_leased, [])
     (race_end, [Done (Recorded (Inr race_retried)), Done (Triggered None), Done (Assigned (Inr race_lease))])"
proof -
  let ?il = "interleaves elsewhere operation"
  let ?B = "trigger_thread demo_id 20" and ?C = "assign_thread registry_pick 20 11"
  have "?il (demo_leased, []) (demo_leased, [] @ [race_report, ?B, ?C])"
    by (rule start_interleaves) (simp add: demo_operations)
  also have "?il (demo_leased, [] @ [race_report, ?B, ?C]) (race_one, [race_release, ?B, ?C])"
    using own_turns_interleave [of 0 "[race_report, ?B, ?C]" 9 demo_leased] race_report_turns by simp
  also have "?il (race_one, [race_release, ?B, ?C]) (race_two, [race_release, Done (Triggered None), ?C])"
    using own_turns_interleave [of 1 "[race_release, ?B, ?C]" 3 race_one] race_trigger_turns by simp
  also have "?il (race_two, [race_release, Done (Triggered None), ?C])
      (race_three, [race_release, Done (Triggered None), Done (Assigned (Inr race_lease))])"
    using own_turns_interleave [of 2 "[race_release, Done (Triggered None), ?C]" 5 race_two] race_assign_turns by simp
  also have "?il (race_three, [race_release, Done (Triggered None), Done (Assigned (Inr race_lease))])
      (race_end, [Done (Recorded (Inr race_retried)), Done (Triggered None), Done (Assigned (Inr race_lease))])"
    using own_turns_interleave [of 0 "[race_release, Done (Triggered None), Done (Assigned (Inr race_lease))]" 1 race_three]
    by (simp add: race_release_def race_end_def)
  finally show ?thesis .
qed

section \<open>An edit that gives a retry back\<close>

text \<open>
  \<open>UpdateCron\<close> reads a leased task; before it saves its copy, the lease's failure is recorded.
\<close>

definition edit_expr :: string where
  "edit_expr = ''* * * * *''"

definition edit_thread :: "registry thread" where
  "edit_thread = update_cron_thread demo_env (Some (demo_id, edit_expr))"

definition edit_held :: task where
  "edit_held = moved (moved cron_born StateReady 0) StateLeased 0"

definition edit_copy :: task where
  "edit_copy = edit_held\<lparr>trigger := (trigger edit_held)\<lparr>cron_expr := edit_expr\<rparr>,
     next_run_at := cron_next (w_loc cron_leased) \<lparr>sc_minute = [0..59], sc_hour = [0..23], sc_day_of_month = [1..31],
       sc_month = [1..12], sc_day_of_week = [0..6]\<rparr> (w_now cron_leased)\<rparr>"

definition edit_rest :: "registry thread" where
  "edit_rest = snd (own_turns 2 (cron_leased, edit_thread))"

definition edit_failed :: task where
  "edit_failed = edit_held\<lparr>retries_left := 1, state := StateReady, next_run_at := 30 + w_retry_delay cron_leased,
     last_attempt_at := 0, version := 4, updated_at := 0\<rparr>"

definition edit_one :: wiring where
  "edit_one = fst (own_turns 10 (cron_leased, race_report))"

definition edit_end :: wiring where
  "edit_end = fst (own_turns 3 (edit_one, edit_rest))"

lemma cron_ready_records: "w_records cron_ready = Map.empty"
proof -
  have "w_records cron_pending = Map.empty"
    by (simp add: cron_pending_def harness_register_cron_def Let_def main_wiring_fields demo_id_next store_save_def
        demo_id_nonempty sched_track_def)
  then show ?thesis
    by (simp add: cron_ready_def sched_trigger_now_def cron_pending_fields store_get_def store_mark_ready_def Let_def
        cron_born_def demo_parts push_ready_def)
qed

lemma cron_leased_now: "w_now cron_leased = 0" "w_records cron_leased = Map.empty"
  by (simp_all add: cron_leased_def lease_assign.simps [of registry_pick cron_ready] cron_ready_fields cron_ready_records demo_pop
      store_transition_def Let_def cron_born_def demo_parts demo_worker demo_key_next main_wiring_fields)

lemma edit_read_turns: "own_turns 2 (cron_leased, edit_thread) = (cron_leased, edit_rest)"
  by (simp add: edit_rest_def edit_thread_def update_cron_thread_def demo_id_not_blank every_minute edit_expr_def
      numeral_eq_Suc lk_get_def store_get_def cron_leased_fields cron_born_def demo_parts split: prod.split)

lemma edit_report_turns: "own_turns 10 (cron_leased, race_report) = (edit_one, Done (Recorded (Inr edit_failed)))"
  by (simp add: edit_one_def prod_eq_iff race_report_def record_thread_def failure_thread_def retry_thread_def numeral_eq_Suc
      lk_get_def store_get_def cron_leased_fields cron_leased_now lease_current_def lk_next_id_def lk_retry_def store_retry_def
      Let_def demo_lease_def edit_failed_def edit_held_def cron_born_def demo_parts split: prod.split)

lemma edit_one_fields:
  "tasks_of edit_one = [demo_id \<mapsto> edit_failed]" "w_now edit_one = 0" "ts_by_name (w_store edit_one) = [''job'' \<mapsto> demo_id]"
  "length (records_list (w_records edit_one) demo_id) = 1"
  by (simp_all add: edit_one_def race_report_def record_thread_def failure_thread_def retry_thread_def numeral_eq_Suc
      lk_get_def store_get_def cron_leased_fields cron_leased_now lease_current_def lk_next_id_def lk_retry_def store_retry_def
      Let_def demo_lease_def edit_failed_def edit_held_def cron_born_def demo_parts lease_release_def lease_delete_def
      sched_schedule_retry_def records_append_def records_list_def records_of_def split: prod.split)

lemma edit_save_turns: "own_turns 3 (edit_one, edit_rest) = (edit_end, Done (Answered (Response 200 (TaskBody edit_copy))))"
  by (simp add: edit_end_def prod_eq_iff edit_rest_def edit_thread_def update_cron_thread_def demo_id_not_blank every_minute
      edit_expr_def numeral_eq_Suc lk_get_def store_get_def cron_leased_fields edit_copy_def edit_held_def cron_born_def
      demo_parts lk_save_def store_save_def Let_def edit_one_fields demo_id_nonempty edit_failed_def split: prod.split)

lemma edit_end_fields:
  "\<exists>t. tasks_of edit_end demo_id = Some t \<and> state t = StateReady \<and> retries_left t = 2 \<and> max_retries t = 2"
  "length (records_list (w_records edit_end) demo_id) = 1"
  using edit_one_fields(4)
  by (simp_all add: edit_end_def prod_eq_iff edit_rest_def edit_thread_def update_cron_thread_def demo_id_not_blank every_minute
      edit_expr_def numeral_eq_Suc lk_get_def store_get_def cron_leased_fields edit_copy_def edit_held_def cron_born_def
      demo_parts lk_save_def store_save_def Let_def edit_one_fields demo_id_nonempty edit_failed_def sched_refresh_cron_def
      split: prod.split)

lemma edit_run:
  "interleaves elsewhere operation (cron_leased, [])
     (edit_end, [Done (Answered (Response 200 (TaskBody edit_copy))), Done (Recorded (Inr edit_failed))])"
proof -
  let ?il = "interleaves elsewhere operation"
  have "?il (cron_leased, []) (cron_leased, [] @ [edit_thread, race_report])"
    by (rule start_interleaves) (simp add: demo_operations edit_thread_def operation.intros)
  also have "?il (cron_leased, [] @ [edit_thread, race_report]) (cron_leased, [edit_rest, race_report])"
    using own_turns_interleave [of 0 "[edit_thread, race_report]" 2 cron_leased] edit_read_turns by simp
  also have "?il (cron_leased, [edit_rest, race_report]) (edit_one, [edit_rest, Done (Recorded (Inr edit_failed))])"
    using own_turns_interleave [of 1 "[edit_rest, race_report]" 10 cron_leased] edit_report_turns by simp
  also have "?il (edit_one, [edit_rest, Done (Recorded (Inr edit_failed))])
      (edit_end, [Done (Answered (Response 200 (TaskBody edit_copy))), Done (Recorded (Inr edit_failed))])"
    using own_turns_interleave [of 0 "[edit_rest, Done (Recorded (Inr edit_failed))]" 3 edit_one] edit_save_turns by simp
  finally show ?thesis .
qed

lemma edit_end_unreachable: "\<not> sys_reachable edit_end"
proof
  assume r: "sys_reachable edit_end"
  obtain t where t: "tasks_of edit_end demo_id = Some t" "state t = StateReady" "retries_left t = 2" "max_retries t = 2"
    using edit_end_fields(1) by blast
  have "int (length (records_of (w_records edit_end) demo_id)) \<le> budget (tasks_of edit_end demo_id)"
    using stack_invD(6) [OF reachable_inv [OF r]] by (simp add: records_ok_def)
  with edit_end_fields(2) t show False by (simp add: records_list_def budget_def)
qed

section \<open>A refused result that stays on record\<close>

text \<open>A success is being recorded; before the task is moved, it is canceled.\<close>

definition late_report :: "registry thread" where
  "late_report = record_thread demo_lease ''success'' ''ok'' 20 30 9 ''s''"

definition late_one :: wiring where
  "late_one = fst (own_turns 5 (demo_leased, late_report))"

definition late_end :: wiring where
  "late_end = fst (own_turns 5 (late_one, cancel_thread demo_id))"

lemma late_report_turns: "own_turns 5 (demo_leased, late_report) = (late_one, success_thread demo_lease demo_held)"
  by (simp add: late_one_def prod_eq_iff late_report_def record_thread_def numeral_eq_Suc lk_get_def store_get_def
      demo_leased_fields lease_current_def lk_next_id_def demo_lease_def demo_parts split: prod.split)

lemma late_one_fields:
  "tasks_of late_one = [demo_id \<mapsto> demo_held]" "w_now late_one = 0"
  "\<exists>rec. records_of (w_records late_one) demo_id = [rec] \<and> rec_status rec = ''success''"
  by (simp_all add: late_one_def late_report_def record_thread_def numeral_eq_Suc lk_get_def store_get_def
      demo_leased_fields lease_current_def lk_next_id_def demo_lease_def demo_parts records_append_def records_of_def Let_def
      split: prod.split)

lemma late_cancel_turns: "own_turns 5 (late_one, cancel_thread demo_id) = (late_end, Done (Canceled None))"
  by (simp add: late_end_def prod_eq_iff cancel_thread_def numeral_eq_Suc lk_get_def store_get_def late_one_fields
      lk_transition_def store_transition_def Let_def terminal_def demo_parts)

lemma late_end_fields:
  "tasks_of late_end = [demo_id \<mapsto> moved demo_held StateCanceled 0]" "w_records late_end = w_records late_one"
  by (simp_all add: late_end_def cancel_thread_def numeral_eq_Suc lk_get_def store_get_def late_one_fields
      lk_transition_def store_transition_def Let_def terminal_def demo_parts)

lemma late_refused: "own_turns 1 (late_end, success_thread demo_lease demo_held) = (late_end, Done (Recorded (Inl ErrStaleResult)))"
  by (simp add: success_thread_def lk_transition_def store_transition_def late_end_fields demo_parts)

lemma late_run:
  "interleaves elsewhere operation (demo_leased, [])
     (late_end, [Done (Recorded (Inl ErrStaleResult)), Done (Canceled None)])"
proof -
  let ?il = "interleaves elsewhere operation"
  have "?il (demo_leased, []) (demo_leased, [] @ [late_report, cancel_thread demo_id])"
    by (rule start_interleaves) (simp add: late_report_def operation.intros)
  also have "?il (demo_leased, [] @ [late_report, cancel_thread demo_id])
      (late_one, [success_thread demo_lease demo_held, cancel_thread demo_id])"
    using own_turns_interleave [of 0 "[late_report, cancel_thread demo_id]" 5 demo_leased] late_report_turns by simp
  also have "?il (late_one, [success_thread demo_lease demo_held, cancel_thread demo_id])
      (late_end, [success_thread demo_lease demo_held, Done (Canceled None)])"
    using own_turns_interleave [of 1 "[success_thread demo_lease demo_held, cancel_thread demo_id]" 5 late_one]
      late_cancel_turns by simp
  also have "?il (late_end, [success_thread demo_lease demo_held, Done (Canceled None)])
      (late_end, [Done (Recorded (Inl ErrStaleResult)), Done (Canceled None)])"
    using own_turns_interleave [of 0 "[success_thread demo_lease demo_held, Done (Canceled None)]" 1 late_end]
      late_refused by simp
  finally show ?thesis .
qed

lemma late_end_unreachable: "\<not> sys_reachable late_end"
proof
  assume r: "sys_reachable late_end"
  obtain rec where "records_of (w_records late_end) demo_id = [rec]" "rec_status rec = ''success''"
    using late_one_fields(3) by (auto simp: late_end_fields)
  moreover have "successes (records_of (w_records late_end) demo_id) \<le> (if has_state late_end demo_id StateSucceeded then 1 else 0)"
    using stack_invD(6) [OF reachable_inv [OF r]] by (simp add: records_ok_def)
  ultimately show False by (simp add: successes_def has_state_def late_end_fields)
qed

section \<open>Properties\<close>

text \<open>
  The two levels of granularity agree. These operations, written once as one step and once as a
  program of lock regions, do the same when nothing interferes: the program, run alone, comes to
  an end with the state and the result of the one step.
\<close>

theorem threads_refine_operations:
  "finishes (tick_thread its now) w (fst (sched_tick w its now)) (Ticked (snd (sched_tick w its now))) \<and>
   finishes (assign_thread pick now nano) w (fst (lease_assign pick w now nano)) (Assigned (snd (lease_assign pick w now nano))) \<and>
   finishes (run_next_thread pick h nano nano2 stamp) w
     (fst (executor_run_next pick w (Some (\<lambda>w t. (w, h t))) nano nano2 stamp))
     (Recorded (snd (executor_run_next pick w (Some (\<lambda>w t. (w, h t))) nano nano2 stamp))) \<and>
   finishes (record_thread l status message started finished nano stamp) w
     (fst (record_result w l status message started finished nano stamp))
     (Recorded (snd (record_result w l status message started finished nano stamp))) \<and>
   finishes (reap_thread its now) w (fst (lease_reap_expired w its now)) (Reaped (snd (lease_reap_expired w its now))) \<and>
   finishes (trigger_thread i now) w (fst (sched_trigger_now w i now)) (Triggered (snd (sched_trigger_now w i now))) \<and>
   finishes (cancel_thread i) w (fst (sched_cancel w i)) (Canceled (snd (sched_cancel w i))) \<and>
   finishes (update_cron_thread he decoded) v (fst (api_update_cron he v decoded)) (Answered (snd (api_update_cron he v decoded))) \<and>
   finishes (register_thread parse_time he nano request) v (fst (api_register_task parse_time he v nano request))
     (Answered (snd (api_register_task parse_time he v nano request))) \<and>
   finishes (batch_thread parse_time he nanos requests) v (fst (api_register_batch parse_time he v nanos requests))
     (Answered (snd (api_register_batch parse_time he v nanos requests))) \<and>
   finishes (heartbeat_thread its target) v (fst (api_heartbeat v its target)) (Answered (snd (api_heartbeat v its target))) \<and>
   finishes (restore_thread stamp snap) v (fst (api_restore v stamp snap)) (Answered (snd (api_restore v stamp snap)))"
  by (intro conjI tick_alone assign_alone run_next_alone record_alone reap_alone trigger_alone cancel_alone update_cron_alone
      register_alone batch_alone heartbeat_alone restore_alone)

text \<open>
  C6. Under any interleaving of any number of operations, and whatever happens elsewhere, two
  accepted results of a task never have the same version, nor have two leases, nor has a
  result the version of a lease; and what they claim has been reached.
\<close>

theorem interleaved_versions_once:
  assumes "sys_reachable w0" and run: "interleaves elsewhere operation (w0, []) (w, ps)"
    and "j < length ps" and "k < length ps" and "j \<noteq> k"
  shows "(ps ! j = Done (Recorded (Inr t)) \<and> ps ! k = Done (Recorded (Inr u)) \<longrightarrow>
      task_id t = task_id u \<longrightarrow> version t \<noteq> version u) \<and>
    (ps ! j = Done (Assigned (Inr l)) \<and> ps ! k = Done (Assigned (Inr m)) \<longrightarrow>
      lease_task_id l = lease_task_id m \<longrightarrow> lease_task_version l \<noteq> lease_task_version m) \<and>
    (ps ! j = Done (Recorded (Inr t)) \<and> ps ! k = Done (Assigned (Inr m)) \<longrightarrow>
      task_id t = lease_task_id m \<longrightarrow> version t \<noteq> lease_task_version m) \<and>
    (ps ! j = Done (Recorded (Inr t)) \<longrightarrow> (\<exists>x. tasks_of w (task_id t) = Some x \<and> version t \<le> version x))"
  using il.claims_apart [OF run reachable_keyed [OF assms(1)] assms(3-5)]
    il.claims_reached [OF run reachable_keyed [OF assms(1)] assms(3), of "Recorded (Inr t)" "task_id t" "version t"]
  by (fastforce simp: versions_def)

theorem interleaved_versions_once_witness:
  "version race_retried \<noteq> lease_task_version race_lease \<and> version race_retried \<le> version race_again"
  using interleaved_versions_once [OF demo_leased_reachable race_run, of 0 2 race_retried undefined undefined race_lease]
  by (simp add: race_end_fields race_retried_def demo_parts race_lease_def)

text \<open>
  C15. Releasing a finished lease also unbinds a newer lease of the same task. In a run with
  two executors the task ends up leased under a lease that fits its version, yet every
  result for that lease is refused; the executor then releases it, and the task stays
  leased with no lease that could expire: no reaping returns it. No run of whole
  operations reaches such a state.
\<close>

theorem release_unbinds_newer_lease:
  "interleaves elsewhere operation (demo_leased, [])
     (race_end, [Done (Recorded (Inr race_retried)), Done (Triggered None), Done (Assigned (Inr race_lease))]) \<and>
   \<not> sys_reachable race_end \<and>
   tasks_of race_end demo_id = Some race_again \<and> state race_again = StateLeased \<and>
   lease_task_id race_lease = demo_id \<and> version race_again = lease_task_version race_lease \<and>
   record_result race_end race_lease status message started finished nano stamp = (race_end, Inl ErrStaleResult) \<and>
   (let w = fst (executor_finish race_end race_lease started outcome nano stamp) in
      tasks_of w demo_id = Some race_again \<and> w_leases w = lease_table_new \<and> lease_reap_expired w its now = (w, []))"
proof -
  have stale: "record_result race_end race_lease s m a b n st = (race_end, Inl ErrStaleResult)" for s m a b n st
    by (simp add: record_result_def race_lease_def store_get_def race_end_fields lease_current_def)
  have none: "foldl (reap_collect now) (lease_table_new, []) its = (lease_table_new, [])" for its now
    by (induction its) (simp_all add: reap_collect_def lease_table_new_def)
  have empty: "w_leases (lease_release race_end race_key) = lease_table_new" "w_store (lease_release race_end race_key) = w_store race_end"
    by (simp_all add: lease_release_def race_end_fields lease_delete_def lease_table_new_def race_lease_def fun_eq_iff)
  have "fst (executor_finish race_end race_lease started outcome nano stamp) = lease_release race_end race_key"
    by (simp add: executor_finish_def stale race_lease_id split: sum.split)
  moreover have "state race_again = StateLeased" "lease_task_id race_lease = demo_id"
    "version race_again = lease_task_version race_lease"
    by (simp_all add: race_again_def race_lease_def race_retried_def demo_parts)
  moreover have "lease_reap_expired w its now = (w, [])" if "w_leases w = lease_table_new" for w :: wiring and its now
  proof -
    have "w\<lparr>w_leases := lease_table_new\<rparr> = w" using that by simp
    then show ?thesis using that by (simp add: lease_reap_expired_def none)
  qed
  ultimately show ?thesis using race_run race_end_unreachable by (simp add: stale empty race_end_fields Let_def)
qed

text \<open>
  C16. \<open>UpdateCron\<close> saves a copy of the task that it read earlier, retries included. When a
  failure is recorded in between, the retry that it used up comes back: the task is ready
  with all its retries and one execution on record, which no run of whole operations reaches.
\<close>

theorem edit_restores_used_retry:
  "interleaves elsewhere operation (cron_leased, [])
     (edit_end, [Done (Answered (Response 200 (TaskBody edit_copy))), Done (Recorded (Inr edit_failed))]) \<and>
   \<not> sys_reachable edit_end \<and>
   retries_left edit_failed = 1 \<and> length (records_list (w_records edit_end) demo_id) = 1 \<and>
   (\<exists>t. tasks_of edit_end demo_id = Some t \<and> state t = StateReady \<and> retries_left t = 2 \<and> max_retries t = 2)"
  using edit_run edit_end_fields edit_end_unreachable by (simp add: edit_failed_def)

text \<open>
  C17. The record of a result is stored before the task is moved. A success that a cancellation
  overtakes is refused, and yet stays on record: the task is canceled and shows a
  successful execution, which no run of whole operations allows.
\<close>

theorem refused_result_on_record:
  "interleaves elsewhere operation (demo_leased, [])
     (late_end, [Done (Recorded (Inl ErrStaleResult)), Done (Canceled None)]) \<and>
   \<not> sys_reachable late_end \<and> has_state late_end demo_id StateCanceled \<and>
   (\<exists>rec. records_list (w_records late_end) demo_id = [rec] \<and> rec_status rec = ''success'')"
proof -
  obtain rec where "records_of (w_records late_end) demo_id = [rec]" "rec_status rec = ''success''"
    using late_one_fields(3) by (auto simp: late_end_fields)
  then have "\<exists>rec. records_list (w_records late_end) demo_id = [rec] \<and> rec_status rec = ''success''"
    by (simp add: records_list_def)
  with late_run late_end_unreachable show ?thesis by (simp add: has_state_def late_end_fields)
qed

end
