(* ===== verification/Ownership.thy ===== *)
theory Ownership
  imports Threads
begin

text \<open>
  Programs that share a resource of which one thread, the owner, takes and gives back parts,
  while the others only give back. \<open>held\<close> is what is out in a state; the owner's predicate
  carries a bound on it.
\<close>

section \<open>The owner\<close>

text \<open>\<open>left x\<close> bounds what is still out when the program ends with \<open>x\<close>.\<close>

coinductive owning :: "('s \<Rightarrow> bool) \<Rightarrow> ('s \<Rightarrow> 'k set) \<Rightarrow> ('a \<Rightarrow> 'k set) \<Rightarrow> ('s, 'a) prog \<Rightarrow> 'k set \<Rightarrow> bool"
  for ok held left where
  ow_done: "K \<subseteq> left x \<Longrightarrow> owning ok held left (Done x) K"
| ow_act: "(\<And>s. ok s \<Longrightarrow> held s \<subseteq> K \<Longrightarrow> ok (f s) \<and> (\<exists>K'. held (f s) \<subseteq> K' \<and> owning ok held left (g s) K')) \<Longrightarrow>
    owning ok held left (Act f g) K"

inductive_simps owning_simps: "owning ok held left (Done x) K" "owning ok held left (Act f g) K"

lemma owning_anti: "owning ok held left p K \<Longrightarrow> C \<subseteq> K \<Longrightarrow> owning ok held left p C"
  by (cases p) (auto simp: owning_simps)

lemma owning_and_then:
  assumes "owning ok held left p K" and "\<And>x C. C \<subseteq> left x \<Longrightarrow> owning ok held left' (k x) C"
  shows "owning ok held left' (and_then p k) K"
  using assms(1)
proof (coinduction arbitrary: p K rule: owning.coinduct)
  case owning
  show ?case
  proof (cases p)
    case (Done x)
    with owning assms(2) have "owning ok held left' (k x) K" by (simp add: owning_simps)
    then show ?thesis using Done by (cases "k x") (fastforce simp: owning_simps)+
  next
    case (Act f g)
    with owning show ?thesis by (fastforce simp: owning_simps)
  qed
qed

lemma owning_act:
  "(\<And>s. ok s \<Longrightarrow> held s \<subseteq> K \<Longrightarrow> ok (fst (a s)) \<and> (\<exists>K'. held (fst (a s)) \<subseteq> K' \<and> owning ok held left (k (snd (a s))) K')) \<Longrightarrow>
   owning ok held left (act a k) K"
  by (simp add: act_def owning_simps)

text \<open>An action that gives nothing out keeps the bound.\<close>

lemma owning_give_back:
  assumes "\<And>s. ok s \<Longrightarrow> ok (fst (a s)) \<and> held (fst (a s)) \<subseteq> held s" and "\<And>x. owning ok held left (k x) K"
  shows "owning ok held left (act a k) K"
  using assms by (intro owning_act) blast

lemma owning_upd:
  assumes "\<And>s. ok s \<Longrightarrow> ok (f s) \<and> held (f s) \<subseteq> held s - D" and "owning ok held left p (K - D)"
  shows "owning ok held left (upd f p) K"
  unfolding upd_def owning_simps
proof (intro allI impI)
  fix s
  assume "ok s" and "held s \<subseteq> K"
  with assms(1) [of s] have "ok (f s)" "held (f s) \<subseteq> K - D" by auto
  with assms(2) show "ok (f s) \<and> (\<exists>K'. held (f s) \<subseteq> K' \<and> owning ok held left p K')" by blast
qed

lemma owning_ask: "(\<And>x. owning ok held left (k x) K) \<Longrightarrow> owning ok held left (ask q k) K"
  by (auto simp: ask_def owning_simps)

section \<open>The others\<close>

coinductive giving :: "('s \<Rightarrow> bool) \<Rightarrow> ('s \<Rightarrow> 'k set) \<Rightarrow> ('s, 'a) prog \<Rightarrow> bool" for ok held where
  gv_done: "giving ok held (Done x)"
| gv_act: "(\<And>s. ok s \<Longrightarrow> ok (f s) \<and> held (f s) \<subseteq> held s \<and> giving ok held (g s)) \<Longrightarrow> giving ok held (Act f g)"

inductive_simps giving_simps: "giving ok held (Done x)" "giving ok held (Act f g)"

lemma giving_and_then:
  assumes "giving ok held p" and "\<And>x. giving ok held (k x)"
  shows "giving ok held (and_then p k)"
  using assms(1)
proof (coinduction arbitrary: p rule: giving.coinduct)
  case giving
  show ?case
  proof (cases p)
    case (Done x)
    have "giving ok held (k x)" by (rule assms(2))
    with Done show ?thesis by (cases "k x") (fastforce simp: giving_simps)+
  next
    case (Act f g)
    with giving show ?thesis by (fastforce simp: giving_simps)
  qed
qed

lemma giving_act:
  "(\<And>s. ok s \<Longrightarrow> ok (fst (a s)) \<and> held (fst (a s)) \<subseteq> held s) \<Longrightarrow> (\<And>x. giving ok held (k x)) \<Longrightarrow> giving ok held (act a k)"
  by (simp add: act_def giving_simps)

lemma giving_upd: "(\<And>s. ok s \<Longrightarrow> ok (f s) \<and> held (f s) \<subseteq> held s) \<Longrightarrow> giving ok held p \<Longrightarrow> giving ok held (upd f p)"
  by (simp add: upd_def giving_simps)

lemma giving_ask: "(\<And>x. giving ok held (k x)) \<Longrightarrow> giving ok held (ask q k)"
  by (simp add: ask_def giving_simps)

section \<open>The pool\<close>

locale single_owner =
  fixes ok :: "'s \<Rightarrow> bool"
    and held :: "'s \<Rightarrow> 'k set"
    and rely :: "'s \<Rightarrow> 's \<Rightarrow> bool"
    and ops :: "('s, 'a) prog \<Rightarrow> bool"
    and left :: "'a \<Rightarrow> 'k set"
  assumes rely_gives: "ok s \<Longrightarrow> rely s s' \<Longrightarrow> ok s' \<and> held s' \<subseteq> held s"
    and ops_give: "ops p \<Longrightarrow> giving ok held p"
begin

text \<open>Thread 0 owns, all others give back.\<close>

definition owned :: "'s \<times> ('s, 'a) prog list \<Rightarrow> bool" where
  "owned c \<longleftrightarrow> ok (fst c) \<and> snd c \<noteq> [] \<and> (\<exists>K. held (fst c) \<subseteq> K \<and> owning ok held left (snd c ! 0) K) \<and>
     (\<forall>j. 0 < j \<longrightarrow> j < length (snd c) \<longrightarrow> giving ok held (snd c ! j))"

lemma owned_step:
  assumes "interleave rely ops c c'" and "owned c"
  shows "owned c'"
  using assms
proof (induction rule: interleave.induct)
  case (il_turn k ps f g s)
  then obtain K where ok: "ok s" and K: "held s \<subseteq> K" "owning ok held left (ps ! 0) K"
    and others: "\<And>j. 0 < j \<Longrightarrow> j < length ps \<Longrightarrow> giving ok held (ps ! j)" and ne: "ps \<noteq> []"
    by (auto simp: owned_def)
  show ?case
  proof (cases "k = 0")
    case True
    with K(2) il_turn(2) have "owning ok held left (Act f g) K" by simp
    with ok K(1) have "ok (f s) \<and> (\<exists>K'. held (f s) \<subseteq> K' \<and> owning ok held left (g s) K')" by (simp add: owning_simps)
    with True others ne show ?thesis by (simp add: owned_def)
  next
    case False
    with others [of k] il_turn(1,2) have "giving ok held (Act f g)" by simp
    with ok have gv: "ok (f s)" "held (f s) \<subseteq> held s" "giving ok held (g s)" by (simp_all add: giving_simps)
    have "giving ok held (ps[k := g s] ! j)" if "0 < j" "j < length ps" for j
      using others [OF that] gv(3) that by (cases "j = k") auto
    moreover have "\<exists>K. held (f s) \<subseteq> K \<and> owning ok held left (ps[k := g s] ! 0) K" using gv(2) K False by auto
    ultimately show ?thesis using gv(1) ne by (simp add: owned_def)
  qed
next
  case (il_start p s ps)
  have "giving ok held ((ps @ [p]) ! j)" if "0 < j" "j < length (ps @ [p])" for j
    using that il_start(2) ops_give [OF il_start(1)] by (cases "j < length ps") (auto simp: owned_def nth_append less_Suc_eq)
  moreover have "(ps @ [p]) ! 0 = ps ! 0" using il_start(2) by (simp add: owned_def nth_append)
  ultimately show ?case using il_start(2) by (simp add: owned_def)
next
  case (il_outside s s' ps)
  then have "ok s'" "held s' \<subseteq> held s" using rely_gives [of s s'] by (simp_all add: owned_def)
  with il_outside(2) show ?case unfolding owned_def by (metis fst_conv order_trans snd_conv)
qed

lemma owned_reachable:
  assumes "interleaves rely ops c c'" and "owned c"
  shows "owned c'"
  using assms(1) by (induction rule: rtranclp_induct) (use assms(2) owned_step in auto)

lemma owner_keeps_ok:
  assumes "interleaves rely ops (s0, p # ps) (s, qs)" and "ok s0" and "held s0 \<subseteq> K" and "owning ok held left p K"
    and "\<forall>q \<in> set ps. giving ok held q"
  shows "ok s"
proof -
  have "owned (s0, p # ps)" using assms(2-5) by (auto simp: owned_def nth_Cons' intro: nth_mem)
  from owned_reachable [OF assms(1) this] show ?thesis by (simp add: owned_def)
qed

end

section \<open>Loops that run until they are stopped\<close>

text \<open>
  The loop of a goroutine: a \<open>select\<close> starts the next turn, \<open>body n\<close>, or ends the loop with
  \<open>x\<close> when \<open>body n\<close> is \<open>None\<close>. The third argument is the rest of the present turn.
\<close>

primcorec go_loop :: "(nat \<Rightarrow> ('s, 'a) prog option) \<Rightarrow> 'a \<Rightarrow> nat \<Rightarrow> ('s, 'a) prog \<Rightarrow> ('s, 'a) prog" where
  "go_loop body x n p =
     (case p of
        Done _ \<Rightarrow> Act (\<lambda>s. s) (\<lambda>s. case body n of None \<Rightarrow> Done x | Some q \<Rightarrow> go_loop body x (Suc n) q)
      | Act f g \<Rightarrow> Act f (\<lambda>s. go_loop body x n (g s)))"

lemma go_loop_Done: "go_loop body x n (Done y) =
    Act (\<lambda>s. s) (\<lambda>s. case body n of None \<Rightarrow> Done x | Some q \<Rightarrow> go_loop body x (Suc n) q)"
  by (subst go_loop.code) simp

lemma go_loop_Act: "go_loop body x n (Act f g) = Act f (\<lambda>s. go_loop body x n (g s))"
  by (subst go_loop.code) simp

lemma giving_go_loop:
  assumes "giving ok held p" and "\<And>n q. body n = Some q \<Longrightarrow> giving ok held q"
  shows "giving ok held (go_loop body x n p)"
  using assms(1)
proof (coinduction arbitrary: n p rule: giving.coinduct)
  case giving
  show ?case
  proof (cases p)
    case (Done y)
    then show ?thesis using assms(2)
      by (auto simp: go_loop_Done giving_simps split: option.split)
  next
    case (Act f g)
    with giving show ?thesis by (auto simp: go_loop_Act giving_simps)
  qed
qed

lemma owning_go_loop:
  assumes "owning ok held (\<lambda>_. {}) p K" and "\<And>n q. body n = Some q \<Longrightarrow> owning ok held (\<lambda>_. {}) q {}"
  shows "owning ok held (\<lambda>_. {}) (go_loop body x n p) K"
  using assms(1)
proof (coinduction arbitrary: n p K rule: owning.coinduct)
  case owning
  show ?case
  proof (cases p)
    case (Done y)
    with owning have "K = {}" by (simp add: owning_simps)
    then show ?thesis using assms(2) [of n] Done
      by (cases "body n") (auto simp: go_loop_Done owning_simps intro!: exI [of _ "{}"])
  next
    case (Act f g)
    with owning show ?thesis by (fastforce simp: go_loop_Act owning_simps)
  qed
qed

end
