(* ===== verification/Schedd.thy ===== *)
theory Schedd
  imports Interleaving Ownership Demo
begin

text \<open>
  The service of \<open>cmd/schedd/main.go\<close> as it runs: three goroutines that loop until the
  context is done, and the handlers of the requests that come in, all interleaved; outside
  them only the clock moves. When the tickers fire is left to the interleaving; \<open>quits n\<close> says
  that the \<open>n\<close>-th \<open>select\<close> takes the branch of the context. The wall clock in identifiers and
  the iteration orders of maps are chosen anew in every turn.

  There is one executor, and it alone takes leases; everything else only drops them. So the
  lease table holds at most one lease, bound to its task.
\<close>

section \<open>The code\<close>

definition tick_goroutine :: "(nat \<Rightarrow> bool) \<Rightarrow> (nat \<Rightarrow> string list) \<Rightarrow> (nat \<Rightarrow> string list) \<Rightarrow> registry thread" where
  "tick_goroutine quits its1 its2 =
     go_loop (\<lambda>n. if quits n then None
                  else Some (ask w_now (\<lambda>now1.
                             and_then (tick_thread (its1 n) now1) (\<lambda>_.
                             ask w_now (\<lambda>now2. reap_thread (its2 n) now2)))))
       Stopped 0 (Done Stopped)"

definition heartbeat_goroutine :: "(nat \<Rightarrow> bool) \<Rightarrow> registry thread" where
  "heartbeat_goroutine quits =
     go_loop (\<lambda>n. if quits n then None
                  else Some (ask w_now (\<lambda>now. act (lk_heartbeat ''worker-1'' now) (\<lambda>_. Done Stopped))))
       Stopped 0 (Done Stopped)"

definition work_goroutine :: "(nat \<Rightarrow> bool) \<Rightarrow> (nat \<Rightarrow> int) \<Rightarrow> (nat \<Rightarrow> int) \<Rightarrow> (nat \<Rightarrow> string) \<Rightarrow> registry thread" where
  "work_goroutine quits nanos1 nanos2 stamps =
     go_loop (\<lambda>n. if quits n then None
                  else Some (run_next_thread registry_pick (\<lambda>t. Inr (''echo:'' @ payload t)) (nanos1 n) (nanos2 n) (stamps n)))
       Stopped 0 (Done Stopped)"

text \<open>\<open>NewHandler\<close>, and the handler of \<open>main\<close>; its own fields are the settings and the operator.\<close>

definition handler_new :: "config \<Rightarrow> string \<Rightarrow> handler_env" where
  "handler_new cfg operator = \<lparr>he_cfg = cfg, he_operator = operator\<rparr>"

definition main_handler :: handler_env where
  "main_handler = handler_new config_default ''schedd''"

text \<open>The requests that the server passes on, with whatever was decoded from them.\<close>

inductive request :: "registry thread \<Rightarrow> bool" where
  rq_register: "request (register_thread parse_time main_handler nano decoded)"
| rq_batch: "request (batch_thread parse_time main_handler nanos decodeds)"
| rq_trigger: "request (trigger_request_thread main_handler target)"
| rq_cancel: "request (cancel_request_thread main_handler target)"
| rq_update_cron: "request (update_cron_thread main_handler edit)"
| rq_worker: "request (worker_thread main_handler worker)"
| rq_heartbeat: "request (heartbeat_thread its target)"
| rq_restore: "request (restore_thread stamp snap)"
| rq_purge: "request (purge_thread parse_time format_time main_handler its target)"

definition clock_moves :: "'r stack \<Rightarrow> 'r stack \<Rightarrow> bool" where
  "clock_moves w w' \<longleftrightarrow> (\<exists>d. w' = clock_advance w d)"

text \<open>A state that the service can reach, with the programs that are then running.\<close>

inductive schedd_reaches :: "wiring \<Rightarrow> registry thread list \<Rightarrow> bool" where
  "interleaves clock_moves request
     (main_wiring loc at,
      [work_goroutine quits1 nanos1 nanos2 stamps, tick_goroutine quits2 its1 its2, heartbeat_goroutine quits3])
     (w, ps) \<Longrightarrow>
   schedd_reaches w ps"

section \<open>One lease, bound to its task\<close>

definition tidy :: "lease_table \<Rightarrow> bool" where
  "tidy lt \<longleftrightarrow> lt = lease_table_new \<or>
     (\<exists>l. lt = \<lparr>lt_leases = [lease_id l \<mapsto> l], lt_by_task = [lease_task_id l \<mapsto> lease_id l]\<rparr>)"

definition in_order :: "'r stack \<Rightarrow> bool" where
  "in_order w \<longleftrightarrow> keyed w \<and> tidy (w_leases w)"

definition out :: "'r stack \<Rightarrow> string set" where
  "out w = dom (lt_leases (w_leases w))"

lemma tidy_new [simp]: "tidy lease_table_new" "dom (lt_leases lease_table_new) = {}"
  by (simp_all add: tidy_def lease_table_new_def)

lemma tidy_cases:
  assumes "tidy lt"
  obtains "lt = lease_table_new"
  | l where "lt = \<lparr>lt_leases = [lease_id l \<mapsto> l], lt_by_task = [lease_task_id l \<mapsto> lease_id l]\<rparr>"
  using assms unfolding tidy_def by blast

lemma tidy_one [simp]: "tidy \<lparr>lt_leases = [lease_id l \<mapsto> l], lt_by_task = [lease_task_id l \<mapsto> lease_id l]\<rparr>"
  unfolding tidy_def by blast

lemma tidy_delete:
  assumes "tidy lt" and "lt_leases lt k = Some l"
  shows "lease_delete lt k (lease_task_id l) = lease_table_new"
  using assms by (cases rule: tidy_cases) (auto simp: lease_delete_def lease_table_new_def split: if_splits)

lemma tidy_insert: "tidy lt \<Longrightarrow> dom (lt_leases lt) = {} \<Longrightarrow>
  tidy (lease_insert lt l) \<and> dom (lt_leases (lease_insert lt l)) = {lease_id l}"
  by (cases rule: tidy_cases) (auto simp: lease_insert_def lease_table_new_def)

text \<open>What the calls of the lease manager do to the table.\<close>

lemma release_order:
  assumes "in_order w"
  shows "in_order (lease_release w i) \<and> out (lease_release w i) \<subseteq> out w - {i}"
proof (cases "lt_leases (w_leases w) i")
  case (Some l)
  with assms tidy_delete [of "w_leases w" i l] show ?thesis
    by (simp add: lease_release_def in_order_def out_def keyed_def)
qed (use assms in \<open>auto simp: lease_release_def out_def\<close>)

lemma renew_order:
  assumes "in_order w"
  shows "in_order (fst (lease_renew w i worker now)) \<and> out (fst (lease_renew w i worker now)) \<subseteq> out w"
proof (cases "lt_leases (w_leases w) i")
  case (Some l)
  have tidy: "tidy (w_leases w)" and keyed: "keyed w" using assms by (simp_all add: in_order_def)
  then have one: "w_leases w = \<lparr>lt_leases = [i \<mapsto> l], lt_by_task = [lease_task_id l \<mapsto> i]\<rparr>" and "lease_id l = i"
    using Some by (auto elim!: tidy_cases simp: lease_table_new_def split: if_splits)
  then have "tidy ((w_leases w)\<lparr>lt_leases := (lt_leases (w_leases w))(i \<mapsto> l\<lparr>lease_deadline := d\<rparr>)\<rparr>)" for d
    using tidy_one [of "l\<lparr>lease_deadline := d\<rparr>"] by simp
  moreover have "lease_delete (w_leases w) i (task_id t) = lease_table_new" if "tasks_of w (lease_task_id l) = Some t" for t
    using tidy_delete [OF tidy Some] keyed that by (simp add: keyed_def)
  ultimately show ?thesis using assms one
    by (auto simp: lease_renew_def Some store_get_def in_order_def keyed_def out_def split: option.splits)
qed (use assms in \<open>simp add: lease_renew_def\<close>)

lemma collect_tidy:
  "tidy lt \<Longrightarrow> tidy (fst (foldl (reap_collect now) (lt, ls) its)) \<and>
   dom (lt_leases (fst (foldl (reap_collect now) (lt, ls) its))) \<subseteq> dom (lt_leases lt)"
proof (induction its arbitrary: lt ls)
  case (Cons i its)
  obtain lt1 ls1 where r: "reap_collect now (lt, ls) i = (lt1, ls1)" by fastforce
  then have "lt1 = lt \<or> lt1 = lease_table_new"
    using tidy_delete [OF Cons.prems] by (auto simp: reap_collect_def split: option.splits if_splits)
  with Cons.IH [of lt1 ls1] Cons.prems show ?case by (auto simp: r)
qed simp

lemma collect_order: "in_order w \<Longrightarrow> in_order (fst (lk_collect its now w)) \<and> out (fst (lk_collect its now w)) \<subseteq> out w"
  using collect_tidy [of "w_leases w" now "[]" its]
  by (simp add: in_order_def out_def keyed_def lk_collect_def split_beta)

section \<open>Actions that give nothing out\<close>

definition benign :: "('r stack \<Rightarrow> 'r stack \<times> 'b) \<Rightarrow> bool" where
  "benign a \<longleftrightarrow> (\<forall>w. in_order w \<longrightarrow> in_order (fst (a w)) \<and> out (fst (a w)) \<subseteq> out w)"

definition benign_upd :: "('r stack \<Rightarrow> 'r stack) \<Rightarrow> bool" where
  "benign_upd f \<longleftrightarrow> (\<forall>w. in_order w \<longrightarrow> in_order (f w) \<and> out (f w) \<subseteq> out w)"

lemma benign_store:
  assumes "\<And>w. keyed w \<Longrightarrow> keyed (fst (a w))" and "\<And>w. w_leases (fst (a w)) = w_leases w"
  shows "benign a"
  using assms by (simp add: benign_def in_order_def out_def)

lemma benign_upd_store:
  assumes "\<And>w. keyed w \<Longrightarrow> keyed (f w)" and "\<And>w. w_leases (f w) = w_leases w"
  shows "benign_upd f"
  using assms by (simp add: benign_upd_def in_order_def out_def)

lemma calls_keep_leases [simp]:
  "w_leases (fst (lk_transition i st st' v w)) = w_leases w" "w_leases (fst (lk_retry i nxt v w)) = w_leases w"
  "w_leases (fst (lk_mark_ready i w)) = w_leases w" "w_leases (fst (lk_set_next_run i nxt w)) = w_leases w"
  "w_leases (fst (lk_save t w)) = w_leases w" "w_leases (fst (lk_pop w)) = w_leases w"
  "w_leases (fst (lk_pop_due now w)) = w_leases w" "w_leases (fst (lk_next_id prefix nano w)) = w_leases w"
  "w_leases (fst (lk_purge its cutoff w)) = w_leases w"
  "w_leases (fst (lk_register node u)) = w_leases u" "w_leases (fst (lk_heartbeat i now u)) = w_leases u"
  "w_leases (sched_schedule_retry w i now p at) = w_leases w" "w_leases (sched_set_next_fire w i now) = w_leases w"
  "w_leases (sched_refresh_cron w t) = w_leases w" "w_leases (sched_track w t) = w_leases w"
  by (simp_all add: locked_calls lk_purge_def lk_register_def lk_heartbeat_def sched_schedule_retry_def
      sched_set_next_fire_def sched_refresh_cron_def sched_track_def split: sum.split option.split prod.split)

lemma transition_keyed:
  assumes "keyed w"
  shows "keyed (fst (lk_transition i st st' v w))"
  by (rule transition_cases [OF assms, where i = i and st = st and st' = st' and v = v]) (use assms in simp_all)

lemma retry_keyed:
  assumes "keyed w"
  shows "keyed (fst (lk_retry i nxt v w))"
  by (rule retry_cases [OF assms, where i = i and nxt = nxt and expected = v]) (use assms in simp_all)

lemma quiet_keyed: "tasks_of w' = tasks_of w \<Longrightarrow> keyed w \<Longrightarrow> keyed w'"
  by (simp add: tasks_unchanged [of w' w])

lemma benign_calls [intro!]:
  "benign (lk_transition i st st' v)" "benign (lk_retry i nxt v)" "benign (lk_mark_ready i)"
  "benign (lk_set_next_run i nxt)" "benign (lk_save t)" "benign lk_pop" "benign (lk_pop_due now)"
  "benign (lk_next_id prefix nano)" "benign (lk_purge its cutoff)" "benign (lk_register node)" "benign (lk_heartbeat i now)"
  by (auto intro!: benign_store transition_keyed retry_keyed mark_ready_grows [THEN conjunct1]
      set_next_run_grows [THEN conjunct1] save_grows [THEN conjunct1] intro: quiet_keyed [rotated] simp: quiet_handlers)

lemma benign_lease_calls [intro!]:
  "benign (lk_collect its now)" "benign (\<lambda>w. lease_renew w i worker now)"
  "benign_upd (\<lambda>w. lease_release w i)" "benign_upd (\<lambda>w. renew_all worker now w l)"
  using release_order by (auto simp: benign_def benign_upd_def collect_order renew_order renew_all_def)

lemma benign_upd_quiet:
  assumes "\<And>w. tasks_of (f w) = tasks_of w" and "\<And>w. w_leases (f w) = w_leases w"
  shows "benign_upd f"
  by (rule benign_upd_store [OF quiet_keyed [OF assms(1)] assms(2)])

lemma benign_upd_delete [intro!]: "benign_upd (\<lambda>w. delete_saved w i)"
  by (rule benign_upd_store) (auto simp: delete_saved_def keyed_def store_delete_def Let_def split: sum.split option.splits)

lemma benign_upd_reset [intro!]: "benign_upd (\<lambda>w. w\<lparr>w_store := store_reset (w_store w)\<rparr>)"
  by (rule benign_upd_store) (auto simp: keyed_def store_reset_def)

section \<open>Everything but the executor only gives back\<close>

abbreviation gives :: "'r thread \<Rightarrow> bool" where
  "gives \<equiv> giving in_order out"

abbreviation owns :: "(outcome \<Rightarrow> string set) \<Rightarrow> 'r thread \<Rightarrow> string set \<Rightarrow> bool" where
  "owns \<equiv> owning in_order out"

lemma gives_act [intro!]: "benign a \<Longrightarrow> (\<And>x. gives (k x)) \<Longrightarrow> gives (act a k)"
  by (rule giving_act) (simp_all add: benign_def)

lemma gives_upd: "benign_upd f \<Longrightarrow> gives p \<Longrightarrow> gives (upd f p)"
  by (rule giving_upd) (simp_all add: benign_upd_def)

lemma gives_ask [intro!]: "(\<And>x. gives (k x)) \<Longrightarrow> gives (ask q k)"
  by (rule giving_ask)

lemma gives_done [intro!]: "gives (Done x)"
  by (rule gv_done)

lemma gives_quiet: "(\<And>w. tasks_of (f w) = tasks_of w) \<Longrightarrow> (\<And>w. w_leases (f w) = w_leases w) \<Longrightarrow> gives p \<Longrightarrow> gives (upd f p)"
  by (intro gives_upd benign_upd_quiet)

text \<open>Case distinctions inside programs.\<close>

lemma gives_cases [intro!]:
  "(\<And>e. gives (f e)) \<Longrightarrow> (\<And>y. gives (g y)) \<Longrightarrow> gives (case r of Inl e \<Rightarrow> f e | Inr y \<Rightarrow> g y)"
  "gives p \<Longrightarrow> (\<And>z. gives (h z)) \<Longrightarrow> gives (case m of None \<Rightarrow> p | Some z \<Rightarrow> h z)"
  "gives p \<Longrightarrow> gives q \<Longrightarrow> gives (if c then p else q)"
  by (simp_all split: sum.split option.split)

lemma tick_delayed_gives: "gives (tick_delayed_loop now n es)"
  by (induction es arbitrary: n) (auto intro!: gives_quiet)

lemma tick_cron_gives: "gives rest \<Longrightarrow> gives (tick_cron_thread i updated now rest)"
  by (auto simp: tick_cron_thread_def intro!: gives_quiet)

lemma tick_pending_gives: "gives (tick_pending_loop now n is)"
  by (induction "is" arbitrary: n) (auto intro!: gives_quiet tick_cron_gives tick_delayed_gives)

lemma reap_loop_gives: "gives (reap_loop now reaped ls)"
  by (induction ls arbitrary: reaped) (auto intro!: gives_quiet)

lemma audit_gives: "gives rest \<Longrightarrow> gives (audit_thread he action target rest)"
  by (auto simp: audit_thread_def intro!: gives_quiet)

lemma build_gives: "(\<And>b. gives (k b)) \<Longrightarrow> gives (build_thread parse_time nano req k)"
  by (auto simp: build_thread_def validate_thread_def Let_def)

lemma register_gives: "gives (register_thread parse_time he nano decoded)"
  by (auto simp: register_thread_def intro!: build_gives gives_quiet audit_gives)

lemma build_all_gives: "(\<And>b. gives (k b)) \<Longrightarrow> gives (build_all_thread parse_time nanos reqs built k)"
  by (induction parse_time nanos reqs built k rule: build_all_thread.induct) (auto intro!: build_gives)

lemma delete_all_gives: "gives rest \<Longrightarrow> gives (delete_all_thread is rest)"
  by (induction "is") (auto intro!: gives_upd)

lemma save_all_gives: "(\<And>b. gives (k b)) \<Longrightarrow> gives (save_all_thread saved ts k)"
  by (induction saved ts k rule: save_all_thread.induct) (auto intro!: gives_quiet delete_all_gives)

lemma audit_all_gives: "gives rest \<Longrightarrow> gives (audit_all_thread he action is rest)"
  by (induction "is") (auto intro!: audit_gives)

lemma batch_gives: "gives (batch_thread parse_time he nanos decoded)"
  by (auto simp: batch_thread_def intro!: build_all_gives save_all_gives audit_all_gives)

lemma trigger_request_gives: "gives (trigger_request_thread he decoded)"
  by (auto simp: trigger_request_thread_def trigger_thread_def Let_def split: outcome.split
      intro!: giving_and_then gives_quiet audit_gives)

lemma cancel_request_gives: "gives (cancel_request_thread he decoded)"
  by (auto simp: cancel_request_thread_def cancel_thread_def split: outcome.split
      intro!: giving_and_then gives_quiet audit_gives)

lemma update_cron_gives: "gives (update_cron_thread he decoded)"
  by (auto simp: update_cron_thread_def Let_def split: prod.split intro!: gives_quiet)

lemma worker_gives: "gives (worker_thread he decoded)"
  by (auto simp: worker_thread_def split: prod.split intro!: audit_gives)

lemma renew_all_gives: "gives rest \<Longrightarrow> gives (renew_all_thread worker now ls rest)"
  by (induction ls) (auto intro!: gives_upd)

lemma heartbeat_gives: "gives (heartbeat_thread its decoded)"
  by (auto simp: heartbeat_thread_def intro!: renew_all_gives)

lemma import_records_gives: "gives rest \<Longrightarrow> gives (import_records_thread stamp recs rest)"
  by (induction recs) (auto intro!: gives_quiet)

lemma import_tasks_gives: "(\<And>e. gives (k e)) \<Longrightarrow> gives (import_tasks_thread ts k)"
  by (induction ts) auto

lemma restore_gives: "gives (restore_thread stamp snap)"
  by (auto simp: restore_thread_def intro!: gives_upd import_tasks_gives import_records_gives)

lemma purge_gives: "gives (purge_thread parse_time format_time he its decoded)"
  by (auto simp: purge_thread_def intro!: audit_gives)

lemma request_gives: "request p \<Longrightarrow> gives p"
  by (induction p rule: request.induct)
    (rule register_gives batch_gives trigger_request_gives cancel_request_gives update_cron_gives worker_gives
      heartbeat_gives restore_gives purge_gives)+

lemma tick_goroutine_gives: "gives (tick_goroutine quits its1 its2)"
  unfolding tick_goroutine_def
  by (auto intro!: giving_go_loop giving_and_then tick_pending_gives reap_loop_gives
      simp: tick_thread_def reap_thread_def split: if_splits)

lemma heartbeat_goroutine_gives: "gives (heartbeat_goroutine quits)"
  unfolding heartbeat_goroutine_def by (auto intro!: giving_go_loop split: if_splits)

section \<open>The executor\<close>

lemma owns_act: "benign a \<Longrightarrow> (\<And>x. owns left (k x) K) \<Longrightarrow> owns left (act a k) K"
  by (rule owning_give_back) (simp_all add: benign_def)

lemma owns_upd: "benign_upd f \<Longrightarrow> owns left p K \<Longrightarrow> owns left (upd f p) K"
  by (rule owning_upd [where D = "{}"]) (simp_all add: benign_upd_def)

lemma owns_quiet:
  "(\<And>w. tasks_of (f w) = tasks_of w) \<Longrightarrow> (\<And>w. w_leases (f w) = w_leases w) \<Longrightarrow> owns left p K \<Longrightarrow> owns left (upd f p) K"
  by (intro owns_upd benign_upd_quiet)

lemma owns_release: "owns left p (K - {i}) \<Longrightarrow> owns left (upd (\<lambda>w. lease_release w i) p) K"
  by (rule owning_upd [where D = "{i}"]) (simp_all add: release_order)

lemma owns_cases:
  "(\<And>e. owns left (f e) K) \<Longrightarrow> (\<And>y. owns left (g y) K) \<Longrightarrow> owns left (case r of Inl e \<Rightarrow> f e | Inr y \<Rightarrow> g y) K"
  "owns left p K \<Longrightarrow> (\<And>z. owns left (h z) K) \<Longrightarrow> owns left (case m of None \<Rightarrow> p | Some z \<Rightarrow> h z) K"
  "owns left p K \<Longrightarrow> owns left q K \<Longrightarrow> owns left (if c then p else q) K"
  by (simp_all split: sum.split option.split)

text \<open>What a call leaves: \<open>Assign\<close> its lease, a refused result the lease it was for.\<close>

fun left_assigned :: "outcome \<Rightarrow> string set" where
  "left_assigned (Assigned (Inr l)) = {lease_id l}"
| "left_assigned _ = {}"

fun left_refused :: "string \<Rightarrow> outcome \<Rightarrow> string set" where
  "left_refused k (Recorded (Inl _)) = {k}"
| "left_refused k _ = {}"

lemma record_owns:
  "owns (left_refused (lease_id l)) (record_thread l status message started finished nano stamp) {lease_id l}"
  by (auto simp: record_thread_def success_thread_def failure_thread_def retry_thread_def dead_thread_def owning_simps
      intro!: owning_ask owns_act owns_cases owns_release owns_quiet)

lemma finish_owns: "owns (\<lambda>_. {}) (finish_thread l started finished outcome nano stamp) {lease_id l}"
  unfolding finish_thread_def
  by (rule owning_and_then [where left = "left_refused (lease_id l)"])
    (auto simp: owning_simps split: sum.split outcome.split intro!: record_owns owns_release)

lemma insert_owns:
  "owns left_assigned (act (\<lambda>w. let l = \<lparr>lease_id = i, lease_task_id = task_id t, lease_worker_id = node_id node,
        lease_task_version = version t, lease_deadline = now + w_ttl w, lease_created_at = now\<rparr>
      in (w\<lparr>w_leases := lease_insert (w_leases w) l\<rparr>, l)) (\<lambda>l. Done (Assigned (Inr l)))) {}"
proof (rule owning_act)
  fix w :: "'a stack"
  let ?l = "\<lparr>lease_id = i, lease_task_id = task_id t, lease_worker_id = node_id node,
      lease_task_version = version t, lease_deadline = now + w_ttl w, lease_created_at = now\<rparr>"
  assume "in_order w" and "out w \<subseteq> {}"
  then have "in_order (w\<lparr>w_leases := lease_insert (w_leases w) ?l\<rparr>)" "out (w\<lparr>w_leases := lease_insert (w_leases w) ?l\<rparr>) = {i}"
    using tidy_insert [of "w_leases w" ?l] by (simp_all add: in_order_def out_def keyed_def)
  then show "in_order (fst (let l = ?l in (w\<lparr>w_leases := lease_insert (w_leases w) l\<rparr>, l))) \<and>
    (\<exists>K'. out (fst (let l = ?l in (w\<lparr>w_leases := lease_insert (w_leases w) l\<rparr>, l))) \<subseteq> K' \<and>
      owns left_assigned (Done (Assigned (Inr (snd (let l = ?l in (w\<lparr>w_leases := lease_insert (w_leases w) l\<rparr>, l)))))) K')"
    by (auto simp: Let_def owning_simps)
qed

lemma assign_rest_owns: "owns left_assigned (assign_rest pick now nano entry t) {}"
  unfolding assign_rest_def
  by (intro owning_ask owns_cases, intro owns_act [OF benign_calls(1)] owns_quiet)
    (simp_all add: owning_simps owns_act [OF benign_calls(8)] insert_owns)

lemma assign_loop_owns: "owns left_assigned (assign_loop pick now nano pc) {}"
proof (coinduction arbitrary: pc rule: owning.coinduct)
  case owning
  show ?case
  proof (cases pc)
    case None
    have "in_order (fst (lk_pop w)) \<and> out (fst (lk_pop w)) \<subseteq> {}" if "in_order w" "out w \<subseteq> {}" for w :: "'a stack"
      using that benign_calls(6) by (fastforce simp: benign_def)
    with None show ?thesis
      by (auto simp: assign_loop_None owning_simps split: option.split)
  next
    case (Some entry)
    let ?call = "lk_transition (re_task_id entry) StateReady StateLeased (- 1)"
    have "in_order (fst (?call w)) \<and> out (fst (?call w)) \<subseteq> {}" if "in_order w" "out w \<subseteq> {}" for w :: "'a stack"
      using that benign_calls(1) by (fastforce simp: benign_def)
    with Some show ?thesis
      by (auto simp: assign_loop_Some owning_simps split: sum.split option.split) (blast intro: assign_rest_owns)
  qed
qed

lemma run_next_owns: "owns (\<lambda>_. {}) (run_next_thread pick h nano1 nano2 stamp) {}"
  unfolding run_next_thread_def assign_thread_def
proof (intro owning_ask, rule owning_and_then [OF assign_loop_owns])
  fix r C
  assume C: "C \<subseteq> left_assigned r"
  show "owns (\<lambda>_. {}) (case r of
      Assigned (Inr l) \<Rightarrow>
        ask (lk_get (lease_task_id l)) (\<lambda>r. case r of
            Inl e \<Rightarrow> upd (\<lambda>w. lease_release w (lease_id l)) (Done (Recorded (Inl (StoreError e))))
          | Inr t \<Rightarrow> ask w_now (\<lambda>started. ask w_now (\<lambda>finished. finish_thread l started finished (h t) nano2 stamp)))
    | Assigned (Inl e) \<Rightarrow> Done (Recorded (Inl e)) | _ \<Rightarrow> Done r) C"
    using C by (auto simp: owning_simps split: sum.split outcome.split
        intro!: owning_ask owns_cases owns_release owning_anti [OF finish_owns])
qed

lemma work_goroutine_owns: "owns (\<lambda>_. {}) (work_goroutine quits nanos1 nanos2 stamps) {}"
  unfolding work_goroutine_def by (auto intro!: owning_go_loop run_next_owns simp: owning_simps split: if_splits)

interpretation sd: single_owner in_order out clock_moves request "\<lambda>_. {}"
proof unfold_locales
  fix s s' :: wiring
  assume "in_order s" and "clock_moves s s'"
  then show "in_order s' \<and> out s' \<subseteq> out s"
    by (auto simp: clock_moves_def clock_advance_def in_order_def out_def keyed_def)
qed (rule request_gives)

lemma schedd_in_order:
  assumes "schedd_reaches w ps"
  shows "in_order w"
  using assms
proof cases
  case (1 loc at quits1 nanos1 nanos2 stamps quits2 its1 its2 quits3)
  have "in_order (main_wiring loc at)" "out (main_wiring loc at) \<subseteq> {}"
    by (simp_all add: in_order_def out_def keyed_def main_wiring_fields lease_table_new_def [symmetric])
  from sd.owner_keeps_ok [OF 1 this work_goroutine_owns] show ?thesis
    by (simp add: tick_goroutine_gives heartbeat_goroutine_gives)
qed

section \<open>A run of the service\<close>

text \<open>A program that finishes, inside a context that lets its actions through.\<close>

lemma run_context:
  assumes "finishes p s s' y" and "\<And>f g. C (Act f g) = Act f (\<lambda>s. C (g s))" and "k < length ps" and "ps ! k = C p"
  shows "interleaves rely ops (s, ps) (s', ps[k := C (Done y)])"
  using assms(1,3,4)
proof (induction arbitrary: ps rule: finishes.induct)
  case (fin_done x s)
  then show ?case using list_update_id [of ps k] by simp
next
  case (fin_act g s f s' x)
  then have "ps ! k = Act f (\<lambda>s. C (g s))" by (simp add: assms(2))
  from il_turn [OF fin_act(3) this] have "interleave rely ops (s, ps) (f s, ps[k := C (g s)])" .
  moreover have "interleaves rely ops (f s, ps[k := C (g s)]) (s', ps[k := C (g s), k := C (Done x)])"
    by (rule fin_act.IH) (simp_all add: fin_act(3))
  ultimately show ?case by (auto intro: converse_rtranclp_into_rtranclp)
qed

lemma run_alone:
  assumes "finishes p s s' y"
  shows "interleaves rely ops (s, qs @ [p]) (s', qs @ [Done y])"
  using run_context [OF assms, of "\<lambda>p. p" "length qs" "qs @ [p]"] by (simp add: nth_append)

lemma request_interleaves:
  assumes "ops p" and "finishes p s s' y"
  shows "interleaves rely ops (s, qs) (s', qs @ [Done y])"
proof -
  have "interleave rely ops (s, qs) (s, qs @ [p])" using assms(1) by (rule il_start)
  from converse_rtranclp_into_rtranclp [OF this run_alone [OF assms(2)]] show ?thesis .
qed

definition sd_request :: register_request where
  "sd_request = \<lparr>rr_name = ''n'', rr_handler = ''h'', rr_payload = '''', rr_priority = 3, rr_timeout_ms = 20, rr_max_retry = 2,
     rr_trigger = \<lparr>tb_kind = ''cron'', tb_run_at = '''', tb_cron = ''* * * * *''\<rparr>\<rparr>"

definition sd_task :: task where
  "sd_task = \<lparr>task_id = demo_id, task_name = ''n'', task_handler = ''h'', payload = '''', priority = 3,
     timeout = 20000000, max_retries = 2, retries_left = 2, state = StatePending, version = 0, next_run_at = sched_next_cron (main_wiring utc 0) ''* * * * *'' 0,
     created_at = zero_time, updated_at = zero_time, last_attempt_at = zero_time, attempt_count = 0,
     trigger = \<lparr>kind = ''cron'', run_at = zero_time, cron_expr = ''* * * * *''\<rparr>\<rparr>"

definition sd_one :: wiring where
  "sd_one = fst (api_register_task (\<lambda>_. None) main_handler (main_wiring utc 0) 7 (Some sd_request))"

definition sd_two :: wiring where
  "sd_two = fst (api_trigger_now main_handler sd_one (Some demo_id))"

definition sd_three :: wiring where
  "sd_three = fst (lease_assign registry_pick sd_two 0 8)"

lemma sd_built: "build_task (\<lambda>_. None) (main_wiring utc 0) 7 sd_request = ((main_wiring utc 0)\<lparr>w_seq := 1\<rparr>, Inr sd_task)"
proof -
  have trim: "trim_space ''n'' = ''n''" "trim_space ''h'' = ''h''" "trim_space ''* * * * *'' = ''* * * * *''" by code_simp+
  have "wrap64 20000000 = 20000000" by (simp add: wrap64_def)
  then show ?thesis
    by (simp add: build_task_def sd_request_def sd_task_def trim Let_def validate_task_def main_wiring_fields day_ns_def demo_id_next
        every_minute sched_next_cron_def)
qed

lemma sd_one_fields:
  "tasks_of sd_one = [demo_id \<mapsto> sd_task\<lparr>version := 1, created_at := 0, updated_at := 0\<rparr>]" "w_seq sd_one = 1" "w_now sd_one = 0"
  "w_ready sd_one = ready_new" "w_leases sd_one = lease_table_new" "w_registry sd_one = w_registry (main_wiring utc 0)"
  by (simp_all add: sd_one_def api_register_task_def sd_built store_save_def main_wiring_fields sd_task_def demo_id_nonempty
      Let_def audit_action_def sched_track_def lease_table_new_def)

lemma sd_two_fields:
  "tasks_of sd_two = [demo_id \<mapsto> sd_task\<lparr>state := StateReady, version := 2, created_at := 0, updated_at := 0\<rparr>]"
  "w_seq sd_two = 1" "w_now sd_two = 0" "w_ready sd_two = fst (ready_push ready_new demo_id 3 0)"
  "w_leases sd_two = lease_table_new" "w_registry sd_two = w_registry (main_wiring utc 0)"
  by (simp_all add: sd_two_def api_trigger_now_def demo_id_not_blank sched_trigger_now_def store_get_def store_mark_ready_def
      sd_one_fields sd_task_def Let_def audit_action_def push_ready_def)

lemma sd_worker: "\<exists>n. registry_pick (w_registry (main_wiring utc 0)) 0 = Inr n"
  by (simp add: main_wiring_def main_worker_def harness_new_with_def registry_register_def registry_new_def registry_pick_def
      pick_node_def Let_def config_default_def second_ns_def)

lemma sd_three_lease:
  "\<exists>l. lease_assign registry_pick sd_two 0 8 = (sd_three, Inr l) \<and> lt_leases (w_leases sd_three) demo_key = Some l"
proof -
  obtain n where n: "registry_pick (w_registry (main_wiring utc 0)) 0 = Inr n" using sd_worker by blast
  have "\<exists>w l. lease_assign registry_pick sd_two 0 8 = (w, Inr l) \<and> lt_leases (w_leases w) demo_key = Some l"
    by (simp add: lease_assign.simps [of registry_pick sd_two] sd_two_fields demo_pop store_transition_def
        Let_def sd_task_def n demo_key_next lease_insert_def)
  then show ?thesis by (auto simp: sd_three_def)
qed

text \<open>The worker's loop up to the end of \<open>Assign\<close>.\<close>

lemma work_interleaves:
  assumes "finishes (assign_thread registry_pick (w_now w) (nanos1 0)) w w' r"
  shows "\<exists>p. interleaves rely ops (w, work_goroutine (\<lambda>_. False) nanos1 nanos2 stamps # ps) (w', p # ps)"
proof -
  let ?body = "\<lambda>n. Some (run_next_thread registry_pick (\<lambda>t. Inr (''echo:'' @ payload t)) (nanos1 n) (nanos2 n) (stamps n))"
  let ?loop = "go_loop ?body Stopped"
  let ?W = "work_goroutine (\<lambda>_. False) nanos1 nanos2 stamps"
  obtain k where k: "run_next_thread registry_pick (\<lambda>t. Inr (''echo:'' @ payload t)) (nanos1 0) (nanos2 0) (stamps 0) =
      ask w_now (\<lambda>now. and_then (assign_thread registry_pick now (nanos1 0)) k)"
    unfolding run_next_thread_def by blast
  let ?q = "ask w_now (\<lambda>now. and_then (assign_thread registry_pick now (nanos1 0)) k)"
  let ?C = "\<lambda>p. ?loop 1 (and_then p k)"
  have W: "?W = Act (\<lambda>s. s) (\<lambda>s. ?loop 1 ?q)"
    unfolding work_goroutine_def go_loop_Done by (simp only: k if_False option.case One_nat_def)
  have "interleave rely ops (w, ?W # ps) (w, (?W # ps)[0 := ?loop 1 ?q])"
    using il_turn [of 0 "?W # ps" "\<lambda>s. s" "\<lambda>s. ?loop 1 ?q" rely ops w] W by simp
  moreover have "?loop 1 ?q = Act (\<lambda>s. s) (\<lambda>s. ?C (assign_thread registry_pick (w_now s) (nanos1 0)))"
    by (simp add: ask_def go_loop_Act)
  then have "interleave rely ops (w, ?loop 1 ?q # ps) (w, (?loop 1 ?q # ps)[0 := ?C (assign_thread registry_pick (w_now w) (nanos1 0))])"
    using il_turn [of 0 "?loop 1 ?q # ps" "\<lambda>s. s" "\<lambda>s. ?C (assign_thread registry_pick (w_now s) (nanos1 0))" rely ops w] by simp
  moreover have "interleaves rely ops (w, ?C (assign_thread registry_pick (w_now w) (nanos1 0)) # ps) (w', ?C (Done r) # ps)"
    using run_context [OF assms, of ?C 0 "?C (assign_thread registry_pick (w_now w) (nanos1 0)) # ps"] by (simp add: go_loop_Act)
  ultimately have "interleaves rely ops (w, ?W # ps) (w', ?C (Done r) # ps)"
    by (auto intro: converse_rtranclp_into_rtranclp)
  then show ?thesis by blast
qed

definition sd_work :: "registry thread" where
  "sd_work = work_goroutine (\<lambda>_. False) (\<lambda>_. 8) (\<lambda>_. 9) (\<lambda>_. ''s'')"

definition sd_rest :: "registry thread list" where
  "sd_rest = [tick_goroutine (\<lambda>_. False) (\<lambda>_. []) (\<lambda>_. []), heartbeat_goroutine (\<lambda>_. False)]"

lemma sd_reaches: "interleaves clock_moves request (main_wiring utc 0, sd_work # sd_rest) (w, ps) \<Longrightarrow> schedd_reaches w ps"
  unfolding sd_work_def sd_rest_def by (rule schedd_reaches.intros)

text \<open>A task is registered and triggered.\<close>

lemma sd_two_run:
  "\<exists>x y. interleaves clock_moves request (main_wiring utc 0, sd_work # sd_rest) (sd_two, sd_work # sd_rest @ [Done x, Done y])"
proof -
  let ?il = "interleaves clock_moves request"
  obtain x where x: "?il (main_wiring utc 0, sd_work # sd_rest) (sd_one, (sd_work # sd_rest) @ [Done x])"
    using request_interleaves [where ops = request and rely = clock_moves, OF rq_register [of "\<lambda>_. None" 7 "Some sd_request"]
        register_alone [of "\<lambda>_. None" main_handler 7 "Some sd_request" "main_wiring utc 0"]]
    unfolding sd_one_def by blast
  obtain y where "?il (sd_one, (sd_work # sd_rest) @ [Done x]) (sd_two, ((sd_work # sd_rest) @ [Done x]) @ [Done y])"
    using request_interleaves [where ops = request and rely = clock_moves, OF rq_trigger [of "Some demo_id"]
        trigger_request_alone [of main_handler "Some demo_id" sd_one]]
    unfolding sd_two_def by blast
  from rtranclp_trans [OF x this] show ?thesis by auto
qed

text \<open>The worker leases it.\<close>

lemma sd_three_run: "\<exists>p. interleaves clock_moves request (sd_two, sd_work # ps) (sd_three, p # ps)"
proof -
  have "finishes (assign_thread registry_pick (w_now sd_two) 8) sd_two sd_three (Assigned (snd (lease_assign registry_pick sd_two 0 8)))"
    using assign_alone [of registry_pick 0 8 sd_two] by (simp add: sd_two_fields sd_three_def)
  from work_interleaves [where ?nanos1.0 = "\<lambda>_. 8" and ?nanos2.0 = "\<lambda>_. 9" and stamps = "\<lambda>_. ''s''", OF this]
  show ?thesis unfolding sd_work_def .
qed

lemma sd_three_reached: "\<exists>ps. schedd_reaches sd_three ps"
proof -
  obtain x y where xy: "interleaves clock_moves request (main_wiring utc 0, sd_work # sd_rest) (sd_two, sd_work # sd_rest @ [Done x, Done y])"
    using sd_two_run by blast
  obtain p where "interleaves clock_moves request (sd_two, sd_work # sd_rest @ [Done x, Done y]) (sd_three, p # sd_rest @ [Done x, Done y])"
    using sd_three_run by blast
  from sd_reaches [OF rtranclp_trans [OF xy this]] show ?thesis by blast
qed

section \<open>Properties\<close>

text \<open>
  C14. Whatever the interleaving of the goroutines and requests of the service, the lease table
  is empty or holds a single lease, and that lease is the current one of its task: with one
  executor no release unbinds a newer lease.
\<close>

theorem schedd_lease_current:
  assumes "schedd_reaches w ps" and "lt_leases (w_leases w) k = Some l"
  shows "lease_id l = k \<and> lease_current w (lease_task_id l) = Some l \<and> dom (lt_leases (w_leases w)) = {k}"
proof -
  have "tidy (w_leases w)" using schedd_in_order [OF assms(1)] by (simp add: in_order_def)
  then show ?thesis
    by (cases rule: tidy_cases) (use assms(2) in \<open>auto simp: lease_table_new_def lease_current_def split: if_splits\<close>)
qed

theorem schedd_lease_current_witness: "\<exists>l. lease_id l = demo_key \<and> lease_current sd_three (lease_task_id l) = Some l"
proof -
  obtain ps where "schedd_reaches sd_three ps" using sd_three_reached by blast
  moreover obtain l where "lt_leases (w_leases sd_three) demo_key = Some l" using sd_three_lease by blast
  ultimately show ?thesis using schedd_lease_current by blast
qed

end
