(* ===== verification/Adrift.thy ===== *)
theory Adrift
  imports Schedd
begin

text \<open>
  The part of a stack that a lost task would show in: a ready task that is in no queue, or a
  pending task whose fire time is not indexed, is adrift. What each locked call does to it,
  and what all of them keep, whatever else goes on in between.
\<close>

section \<open>What is adrift\<close>

definition adrift :: "'r stack \<Rightarrow> (string \<times> task_state) set" where
  "adrift w = {(i, st). has_state w i st \<and>
     (st = StateReady \<and> i \<notin> ready_queued (w_ready w) \<and> i \<notin> delayed_queued (w_delayed w) \<or>
      st = StatePending \<and> w_next_fire w i = None)}"

text \<open>
  A task is not deleted, its state changes only with its version, and what is final stays
  final.
\<close>

definition task_later :: "task \<Rightarrow> task \<Rightarrow> bool" where
  "task_later t u \<longleftrightarrow> version t \<le> version u \<and> (version u = version t \<longrightarrow> state u = state t) \<and>
     (terminal (state t) \<longrightarrow> terminal (state u))"

definition later :: "'r stack \<Rightarrow> 'r stack \<Rightarrow> bool" where
  "later w w' \<longleftrightarrow> unat (w_seq w) \<le> unat (w_seq w') \<and>
     (\<forall>i t. tasks_of w i = Some t \<longrightarrow> (\<exists>u. tasks_of w' i = Some u \<and> task_later t u))"

lemma task_later_refl [simp]: "task_later t t"
  by (simp add: task_later_def)

lemma task_later_trans: "task_later t u \<Longrightarrow> task_later u v \<Longrightarrow> task_later t v"
  by (auto simp: task_later_def)

lemma later_refl [simp]: "later w w"
  by (simp add: later_def)

lemma later_trans: "later u v \<Longrightarrow> later v w \<Longrightarrow> later u w"
  unfolding later_def by (meson order_trans task_later_trans)

lemma later_task:
  assumes "later w w'" and "tasks_of w i = Some t"
  obtains u where "tasks_of w' i = Some u" "task_later t u"
  using assms unfolding later_def by blast

text \<open>Lease identifiers: those that the generator has given out, and those in the table.\<close>

definition drawn :: "'r stack \<Rightarrow> string set" where
  "drawn w = {k. issued (w_seq w) ''lease'' k}"

definition used :: "'r stack \<Rightarrow> string set" where
  "used w = dom (lt_leases (w_leases w)) \<union> ran (lt_by_task (w_leases w))"

text \<open>At that version the task was leased.\<close>

definition was_leased :: "'r stack \<Rightarrow> string \<Rightarrow> int \<Rightarrow> bool" where
  "was_leased w i v \<longleftrightarrow> (\<exists>t. tasks_of w i = Some t \<and> v \<le> version t \<and> (version t = v \<longrightarrow> state t = StateLeased))"

definition coherent :: "'r stack \<Rightarrow> bool" where
  "coherent w \<longleftrightarrow> keyed w \<and> ready_inv (w_ready w) \<and> delayed_inv (w_delayed w) \<and>
     dom (w_next_fire w) \<subseteq> dom (tasks_of w) \<and> used w \<subseteq> drawn w \<and>
     (\<forall>k l. lt_leases (w_leases w) k = Some l \<longrightarrow> was_leased w (lease_task_id l) (lease_task_version l)) \<and>
     (\<forall>i k l. lt_by_task (w_leases w) i = Some k \<longrightarrow> lt_leases (w_leases w) k = Some l \<longrightarrow> lease_task_id l = i)"

text \<open>Room for another identifier.\<close>

definition spare :: "'r stack \<Rightarrow> bool" where
  "spare w \<longleftrightarrow> room w 1"

lemma coherentD:
  assumes "coherent w"
  shows "keyed w" "ready_inv (w_ready w)" "delayed_inv (w_delayed w)" "dom (w_next_fire w) \<subseteq> dom (tasks_of w)"
    "used w \<subseteq> drawn w" "lt_leases (w_leases w) k = Some l \<Longrightarrow> was_leased w (lease_task_id l) (lease_task_version l)"
    "lt_by_task (w_leases w) i = Some k \<Longrightarrow> lt_leases (w_leases w) k = Some l \<Longrightarrow> lease_task_id l = i"
  using assms by (simp_all add: coherent_def)

lemma was_leased_later: "was_leased w i v \<Longrightarrow> later w w' \<Longrightarrow> was_leased w' i v"
  unfolding was_leased_def later_def task_later_def by (metis order_antisym order_trans)

lemma drawn_later: "later w w' \<Longrightarrow> drawn w \<subseteq> drawn w'"
  unfolding drawn_def later_def by (auto intro: issued_mono)

section \<open>The actions\<close>

text \<open>An action that changes no task, takes nothing out of a queue or an index, and adds no lease.\<close>

definition kept :: "'r stack \<Rightarrow> 'r stack \<Rightarrow> bool" where
  "kept w w' \<longleftrightarrow> coherent w' \<and> later w w' \<and> used w' \<subseteq> used w"

definition calmly :: "'r stack \<Rightarrow> 'r stack \<Rightarrow> bool" where
  "calmly w w' \<longleftrightarrow> kept w w' \<and> adrift w' \<subseteq> adrift w"

definition calm :: "('r stack \<Rightarrow> 'r stack) \<Rightarrow> bool" where
  "calm f \<longleftrightarrow> (\<forall>w. coherent w \<longrightarrow> spare w \<longrightarrow> calmly w (f w))"

lemma kept_refl [simp]: "coherent w \<Longrightarrow> kept w w" "coherent w \<Longrightarrow> calmly w w"
  by (simp_all add: kept_def calmly_def)

lemma same_tasks:
  assumes "tasks_of w' = tasks_of w"
  shows "has_state w' = has_state w" "was_leased w' = was_leased w" "keyed w' = keyed w" "later w w' \<longleftrightarrow> unat (w_seq w) \<le> unat (w_seq w')"
  using assms by (auto simp: has_state_def was_leased_def keyed_def later_def fun_eq_iff)

text \<open>The parts that the store's operations leave alone.\<close>

definition same_rest :: "'r stack \<Rightarrow> 'r stack \<Rightarrow> bool" where
  "same_rest w w' \<longleftrightarrow> w_ready w' = w_ready w \<and> w_delayed w' = w_delayed w \<and> w_next_fire w' = w_next_fire w \<and>
     w_leases w' = w_leases w \<and> w_seq w' = w_seq w"

lemma same_restD:
  assumes "same_rest w w'"
  shows "w_ready w' = w_ready w" "w_delayed w' = w_delayed w" "w_next_fire w' = w_next_fire w" "w_leases w' = w_leases w"
    "w_seq w' = w_seq w" "used w' = used w" "drawn w' = drawn w"
  using assms by (simp_all add: same_rest_def used_def drawn_def)

lemma coherent_tasks:
  assumes "coherent w" and "same_rest w w'" and "later w w'" and "keyed w'"
  shows "coherent w'"
proof -
  have "dom (tasks_of w) \<subseteq> dom (tasks_of w')" using assms(3) unfolding later_def by blast
  with coherentD [OF assms(1)] assms(4) was_leased_later [OF _ assms(3)] same_restD [OF assms(2)] show ?thesis
    unfolding coherent_def by auto
qed

text \<open>A change of one task.\<close>

lemma put_later:
  assumes "coherent w" and "same_rest w w'" and "tasks_of w' = (tasks_of w)(i \<mapsto> u)" and "tasks_of w i = Some t"
    and "task_id u = task_id t" and "task_later t u"
  shows "kept w w'"
    and "adrift w' \<subseteq> adrift w \<union> ({i} \<times> {state u} \<inter> UNIV \<times> {StateReady, StatePending})"
    and "state u = state t \<Longrightarrow> adrift w' \<subseteq> adrift w"
    and "state u \<noteq> StateReady \<Longrightarrow> state u \<noteq> StatePending \<Longrightarrow> adrift w' \<subseteq> adrift w - {i} \<times> UNIV"
proof -
  have l: "later w w'" using assms(3,4,6) same_restD [OF assms(2)] by (auto simp: later_def)
  have "keyed w'" using coherentD(1) [OF assms(1)] assms(3-5) by (auto simp: keyed_def)
  with l show "kept w w'" using coherent_tasks [OF assms(1,2) l] same_restD [OF assms(2)] by (simp add: kept_def)
  show "adrift w' \<subseteq> adrift w \<union> ({i} \<times> {state u} \<inter> UNIV \<times> {StateReady, StatePending})"
    "state u = state t \<Longrightarrow> adrift w' \<subseteq> adrift w"
    "state u \<noteq> StateReady \<Longrightarrow> state u \<noteq> StatePending \<Longrightarrow> adrift w' \<subseteq> adrift w - {i} \<times> UNIV"
    using assms(3,4) same_restD [OF assms(2)] by (auto simp: adrift_def has_state_def split: if_splits)
qed

lemma put_new:
  assumes "coherent w" and "same_rest w w'" and "tasks_of w' = (tasks_of w)(i \<mapsto> u)" and "tasks_of w i = None" and "task_id u = i"
  shows "kept w w'" "adrift w' \<subseteq> adrift w \<union> {(i, state u)}"
proof -
  have l: "later w w'" using assms(3,4) same_restD [OF assms(2)] by (auto simp: later_def)
  have "keyed w'" using coherentD(1) [OF assms(1)] assms(3-5) by (auto simp: keyed_def)
  with l show "kept w w'" using coherent_tasks [OF assms(1,2) l] same_restD [OF assms(2)] by (simp add: kept_def)
  show "adrift w' \<subseteq> adrift w \<union> {(i, state u)}"
    using assms(3,4) same_restD [OF assms(2)] by (auto simp: adrift_def has_state_def split: if_splits)
qed

text \<open>The store's operations.\<close>

lemma transition_result:
  obtains e where "lk_transition i st st' v w = (w, Inl e)" "tasks_of w i = None"
  | t where "lk_transition i st st' v w = (w, Inr None)" "tasks_of w i = Some t" "state t \<noteq> st \<or> 0 \<le> v \<and> version t \<noteq> v"
  | w' t u where "lk_transition i st st' v w = (w', Inr (Some u))" "tasks_of w i = Some t" "state t = st"
      "u = t\<lparr>state := st', version := version t + 1, updated_at := w_now w\<rparr>"
      "tasks_of w' = (tasks_of w)(i \<mapsto> u)" "same_rest w w'"
proof (cases "tasks_of w i")
  case None
  then show ?thesis using that(1) by (simp add: lk_transition_def store_transition_def)
next
  case (Some t)
  show ?thesis
  proof (cases "state t = st \<and> (0 \<le> v \<longrightarrow> version t = v)")
    case True
    let ?u = "t\<lparr>state := st', version := version t + 1, updated_at := w_now w\<rparr>"
    let ?w = "w\<lparr>w_store := (w_store w)\<lparr>ts_tasks := (tasks_of w)(i \<mapsto> ?u)\<rparr>\<rparr>"
    have "lk_transition i st st' v w = (?w, Inr (Some ?u))"
      using Some True by (auto simp: lk_transition_def store_transition_def Let_def)
    from that(3) [OF this Some] True show ?thesis by (simp add: same_rest_def)
  next
    case False
    then have "lk_transition i st st' v w = (w, Inr None)" using Some by (auto simp: lk_transition_def store_transition_def)
    from that(2) [OF this Some] False show ?thesis by blast
  qed
qed

lemma retry_result:
  obtains e where "lk_retry i nxt v w = (w, Inl e)"
  | w' t u where "lk_retry i nxt v w = (w', Inr u)" "tasks_of w i = Some t" "version t = v" "state u = StateReady"
      "task_id u = task_id t" "version u = version t + 1" "tasks_of w' = (tasks_of w)(i \<mapsto> u)" "same_rest w w'"
proof (cases "store_retry (w_store w) (w_now w) (w_now w) i nxt v")
  case (Inl e)
  then show ?thesis using that(1) by (simp add: lk_retry_def)
next
  case (Inr x)
  then obtain s u where r: "store_retry (w_store w) (w_now w) (w_now w) i nxt v = Inr (s, u)" by (cases x) simp
  then obtain t where "tasks_of w i = Some t" "version t = v" "state u = StateReady" "task_id u = task_id t"
    "version u = version t + 1" "ts_tasks s = (tasks_of w)(i \<mapsto> u)"
    by (auto simp: store_retry_def Let_def split: option.splits if_splits)
  with that(2) [of "w\<lparr>w_store := s\<rparr>" u t] r show ?thesis by (simp add: lk_retry_def same_rest_def)
qed

lemma mark_result:
  obtains e where "lk_mark_ready i w = (w, Inl e)"
  | w' t u where "lk_mark_ready i w = (w', Inr u)" "tasks_of w i = Some t" "state t = StatePending" "state u = StateReady"
      "task_id u = task_id t" "version u = version t + 1" "tasks_of w' = (tasks_of w)(i \<mapsto> u)" "same_rest w w'"
proof (cases "store_mark_ready (w_store w) (w_now w) i")
  case (Inl e)
  then show ?thesis using that(1) by (simp add: lk_mark_ready_def)
next
  case (Inr x)
  then obtain s u where r: "store_mark_ready (w_store w) (w_now w) i = Inr (s, u)" by (cases x) simp
  then obtain t where "tasks_of w i = Some t" "state t = StatePending" "state u = StateReady" "task_id u = task_id t"
    "version u = version t + 1" "ts_tasks s = (tasks_of w)(i \<mapsto> u)"
    by (auto simp: store_mark_ready_def Let_def split: option.splits if_splits)
  with that(2) [of "w\<lparr>w_store := s\<rparr>" u t] r show ?thesis by (simp add: lk_mark_ready_def same_rest_def)
qed

lemma set_next_run_result:
  obtains e where "lk_set_next_run i nxt w = (w, Some e)"
  | w' t u where "lk_set_next_run i nxt w = (w', None)" "tasks_of w i = Some t" "state u = state t"
      "task_id u = task_id t" "task_later t u" "tasks_of w' = (tasks_of w)(i \<mapsto> u)" "same_rest w w'"
proof (cases "store_set_next_run (w_store w) (w_now w) i nxt")
  case (Inl e)
  then show ?thesis using that(1) by (simp add: lk_set_next_run_def)
next
  case (Inr s)
  then obtain t where t: "tasks_of w i = Some t" "ts_tasks s = (tasks_of w)(i \<mapsto> t\<lparr>next_run_at := nxt, updated_at := w_now w\<rparr>)"
    by (auto simp: store_set_next_run_def Let_def split: option.splits if_splits)
  with that(2) [of "w\<lparr>w_store := s\<rparr>" t "t\<lparr>next_run_at := nxt, updated_at := w_now w\<rparr>"] Inr show ?thesis
    by (simp add: lk_set_next_run_def same_rest_def task_later_def)
qed

lemma save_result:
  obtains e where "lk_save t w = (w, Some e)"
  | w' p u where "lk_save t w = (w', None)" "tasks_of w (task_id t) = Some p" "state u = state p"
      "task_id u = task_id p" "task_later p u" "tasks_of w' = (tasks_of w)(task_id t \<mapsto> u)" "same_rest w w'"
  | w' u where "lk_save t w = (w', None)" "tasks_of w (task_id t) = None" "state u = state t" "task_id u = task_id t"
      "tasks_of w' = (tasks_of w)(task_id t \<mapsto> u)" "same_rest w w'"
proof (cases "store_save (w_store w) (w_now w) t")
  case (Inl e)
  then show ?thesis using that(1) by (simp add: lk_save_def)
next
  case (Inr s)
  then have sv: "lk_save t w = (w\<lparr>w_store := s\<rparr>, None)" "same_rest w (w\<lparr>w_store := s\<rparr>)"
    by (simp_all add: lk_save_def same_rest_def)
  show ?thesis
  proof (cases "tasks_of w (task_id t)")
    case None
    then have "ts_tasks s = (tasks_of w)(task_id t \<mapsto> t\<lparr>version := 1, created_at := w_now w, updated_at := w_now w\<rparr>)"
      using Inr by (auto simp: store_save_def Let_def split: if_splits)
    with that(3) [OF sv(1) None, of "t\<lparr>version := 1, created_at := w_now w, updated_at := w_now w\<rparr>"] sv(2) show ?thesis by simp
  next
    case (Some p)
    let ?u = "p\<lparr>version := version p + 1, task_name := task_name t, task_handler := task_handler t, payload := payload t,
        priority := priority t, timeout := timeout t, max_retries := max_retries t, retries_left := retries_left t,
        trigger := trigger t, next_run_at := next_run_at t, updated_at := w_now w\<rparr>"
    have "ts_tasks s = (tasks_of w)(task_id t \<mapsto> ?u)"
      using Some Inr by (auto simp: store_save_def Let_def split: if_splits)
    with that(2) [OF sv(1) Some, of ?u] sv(2) show ?thesis by (simp add: task_later_def)
  qed
qed

lemma calm_set_next_run: "calm (\<lambda>w. fst (lk_set_next_run i nxt w))"
  unfolding calm_def
proof (intro allI impI)
  fix w :: "'a stack"
  assume c: "coherent w"
  show "calmly w (fst (lk_set_next_run i nxt w))"
    by (rule set_next_run_result [of i nxt w]) (use c put_later [OF c] in \<open>auto simp: calmly_def\<close>)
qed

text \<open>The queues and the index of fire times.\<close>

lemma queue_change:
  assumes "coherent w" and "w_store w' = w_store w" and "w_leases w' = w_leases w" and "w_seq w' = w_seq w"
    and "ready_inv (w_ready w')" and "delayed_inv (w_delayed w')" and "dom (w_next_fire w') \<subseteq> dom (tasks_of w)"
  shows "kept w w'"
  using assms same_tasks [of w' w] by (simp add: kept_def coherent_def used_def drawn_def)

lemma push_change:
  assumes "coherent w"
  shows "kept w (push_ready w i p at)"
    and "adrift (push_ready w i p at) = adrift w - {(i, StateReady)}"
proof -
  note q = coherentD(2) [OF assms]
  show "kept w (push_ready w i p at)"
    using queue_change [OF assms, of "push_ready w i p at"] coherentD(3,4) [OF assms] rq.inv_push [OF q] by (simp add: push_ready_def)
  show "adrift (push_ready w i p at) = adrift w - {(i, StateReady)}"
    by (auto simp: adrift_def has_state_def push_ready_def rq.queued_push [OF q] split: option.splits)
qed

lemma schedule_change:
  assumes "coherent w"
  shows "kept w (sched_schedule_retry w i at p now)"
    and "adrift (sched_schedule_retry w i at p now) = adrift w - {(i, StateReady)}"
proof -
  note q = coherentD(3) [OF assms]
  show "kept w (sched_schedule_retry w i at p now)"
    using queue_change [OF assms, of "sched_schedule_retry w i at p now"] coherentD(2,4) [OF assms] dq.inv_push [OF q]
    by (simp add: sched_schedule_retry_def)
  show "adrift (sched_schedule_retry w i at p now) = adrift w - {(i, StateReady)}"
    by (auto simp: adrift_def has_state_def sched_schedule_retry_def dq.queued_push [OF q] split: option.splits)
qed

lemma pop_change:
  assumes "coherent w"
  shows "kept w (fst (lk_pop w))"
    and "snd (lk_pop w) = None \<Longrightarrow> adrift (fst (lk_pop w)) = adrift w"
    and "snd (lk_pop w) = Some e \<Longrightarrow> adrift (fst (lk_pop w)) \<subseteq> adrift w \<union> {(re_task_id e, StateReady)}"
proof -
  note q = coherentD(2) [OF assms]
  show "kept w (fst (lk_pop w))"
    using queue_change [OF assms, of "fst (lk_pop w)"] coherentD(3,4) [OF assms] rq.inv_pop [OF q]
    by (simp add: lk_pop_def split_beta)
  show "adrift (fst (lk_pop w)) = adrift w" if "snd (lk_pop w) = None"
    using that rq.pop_None [OF q] rq.pop_empty [OF q] by (auto simp: lk_pop_def adrift_def has_state_def split: prod.splits)
  show "adrift (fst (lk_pop w)) \<subseteq> adrift w \<union> {(re_task_id e, StateReady)}" if "snd (lk_pop w) = Some e"
    using that rq.pop_Some [OF q, of e] by (auto simp: lk_pop_def adrift_def has_state_def split: prod.splits option.splits)
qed

lemma pop_due_change:
  assumes "coherent w"
  shows "kept w (fst (lk_pop_due now w))"
    and "adrift (fst (lk_pop_due now w)) \<subseteq> adrift w \<union> (de_task_id ` set (snd (lk_pop_due now w))) \<times> {StateReady}"
proof -
  note q = coherentD(3) [OF assms]
  show "kept w (fst (lk_pop_due now w))"
    using queue_change [OF assms, of "fst (lk_pop_due now w)"] coherentD(2,4) [OF assms] dq.inv_pop_due [OF q]
    by (simp add: lk_pop_due_def split_beta)
  show "adrift (fst (lk_pop_due now w)) \<subseteq> adrift w \<union> (de_task_id ` set (snd (lk_pop_due now w))) \<times> {StateReady}"
    using dq.queued_pop_due [OF q, of now] by (auto simp: lk_pop_due_def adrift_def has_state_def split: prod.splits option.splits)
qed

lemma fire_change:
  assumes "coherent w" and "i \<in> dom (tasks_of w)"
  shows "kept w (w\<lparr>w_next_fire := (w_next_fire w)(i \<mapsto> at)\<rparr>)"
    "adrift (w\<lparr>w_next_fire := (w_next_fire w)(i \<mapsto> at)\<rparr>) = adrift w - {(i, StatePending)}"
  using assms(2) coherentD(2-4) [OF assms(1)]
    queue_change [OF assms(1), of "w\<lparr>w_next_fire := (w_next_fire w)(i \<mapsto> at)\<rparr>"]
  by (auto simp: adrift_def has_state_def split: option.splits if_splits)

text \<open>A final task may be taken out everywhere.\<close>

lemma final_change:
  assumes "coherent w" and "tasks_of w i = Some t" and "terminal (state t)"
  shows "calmly w (w\<lparr>w_ready := fst (ready_remove (w_ready w) i)\<rparr>)"
    "calmly w (w\<lparr>w_delayed := fst (delayed_remove (w_delayed w) i)\<rparr>)"
    "calmly w (w\<lparr>w_next_fire := (w_next_fire w)(i := None)\<rparr>)"
proof -
  note q = coherentD(2-4) [OF assms(1)]
  have n: "\<not> has_state w i StateReady" "\<not> has_state w i StatePending" using assms(2,3) by (auto simp: has_state_def terminal_def)
  let ?r = "w\<lparr>w_ready := fst (ready_remove (w_ready w) i)\<rparr>" and ?d = "w\<lparr>w_delayed := fst (delayed_remove (w_delayed w) i)\<rparr>"
    and ?f = "w\<lparr>w_next_fire := (w_next_fire w)(i := None)\<rparr>"
  have "kept w ?r" "kept w ?d" "kept w ?f"
    using queue_change [OF assms(1), of ?r] queue_change [OF assms(1), of ?d] queue_change [OF assms(1), of ?f] q
      rq.inv_remove [OF q(1)] dq.inv_remove [OF q(2)] by auto
  moreover have "adrift ?r \<subseteq> adrift w"
    using n(1) rq.queued_remove [OF q(1), of i] by (auto simp: adrift_def)
  moreover have "adrift ?d \<subseteq> adrift w"
    using n(1) dq.queued_remove [OF q(2), of i] by (auto simp: adrift_def)
  moreover have "adrift ?f \<subseteq> adrift w"
    using n(2) by (auto simp: adrift_def split: if_splits)
  ultimately show "calmly w ?r" "calmly w ?d" "calmly w ?f" by (simp_all add: calmly_def)
qed

text \<open>The lease table, when leases are only dropped or extended.\<close>

definition shrinks :: "lease_table \<Rightarrow> lease_table \<Rightarrow> bool" where
  "shrinks lt lt' \<longleftrightarrow> lt_by_task lt' \<subseteq>\<^sub>m lt_by_task lt \<and>
     (\<forall>k l'. lt_leases lt' k = Some l' \<longrightarrow> (\<exists>l. lt_leases lt k = Some l \<and> lease_task_id l' = lease_task_id l \<and>
        lease_task_version l' = lease_task_version l))"

lemma shrinks_refl [simp]: "shrinks lt lt"
  by (simp add: shrinks_def)

lemma shrinks_trans: "shrinks a b \<Longrightarrow> shrinks b c \<Longrightarrow> shrinks a c"
  unfolding shrinks_def by (metis map_le_trans)

lemma shrinks_delete [simp]: "shrinks lt (lease_delete lt k i)"
  by (auto simp: shrinks_def lease_delete_def map_le_def split: if_splits)

lemma shrinks_collect: "shrinks lt (fst (foldl (reap_collect now) (lt, ls) its))"
proof (induction its arbitrary: lt ls)
  case (Cons i its)
  obtain lt1 ls1 where r: "reap_collect now (lt, ls) i = (lt1, ls1)" by fastforce
  then have "shrinks lt lt1" by (auto simp: reap_collect_def split: option.splits if_splits)
  from shrinks_trans [OF this Cons.IH [of lt1 ls1]] show ?case by (simp add: r)
qed simp

lemma lease_change:
  assumes "coherent w" and "shrinks (w_leases w) lt"
  shows "calmly w (w\<lparr>w_leases := lt\<rparr>)"
proof -
  note c = coherentD [OF assms(1)]
  have le: "lt_by_task lt \<subseteq>\<^sub>m lt_by_task (w_leases w)"
    and old: "\<And>k l'. lt_leases lt k = Some l' \<Longrightarrow> \<exists>l. lt_leases (w_leases w) k = Some l \<and> lease_task_id l' = lease_task_id l \<and>
        lease_task_version l' = lease_task_version l"
    using assms(2) by (simp_all add: shrinks_def)
  have bt: "lt_by_task (w_leases w) i = Some k" if "lt_by_task lt i = Some k" for i k
    using le that by (auto simp: map_le_def dom_def)
  have used: "used (w\<lparr>w_leases := lt\<rparr>) \<subseteq> used w" using old bt by (fastforce simp: used_def ran_def)
  moreover have "coherent (w\<lparr>w_leases := lt\<rparr>)"
  proof -
    have "was_leased (w\<lparr>w_leases := lt\<rparr>) (lease_task_id l) (lease_task_version l)" if "lt_leases lt k = Some l" for k l
      using old [OF that] c(6) by (auto simp: was_leased_def)
    moreover have "lease_task_id l = i" if "lt_by_task lt i = Some k" "lt_leases lt k = Some l" for i k l
      using old [OF that(2)] bt [OF that(1)] c(7) by auto
    ultimately show ?thesis using c(1-5) used by (simp add: coherent_def keyed_def drawn_def)
  qed
  ultimately show ?thesis by (simp add: calmly_def kept_def later_def adrift_def has_state_def)
qed

lemma calm_quiet:
  assumes "\<And>w. w_store (f w) = w_store w" "\<And>w. w_ready (f w) = w_ready w" "\<And>w. w_delayed (f w) = w_delayed w"
    "\<And>w. w_next_fire (f w) = w_next_fire w" "\<And>w. w_leases (f w) = w_leases w" "\<And>w. w_seq (f w) = w_seq w"
  shows "calm f"
  unfolding calm_def calmly_def
proof (intro allI impI conjI)
  fix w :: "'a stack"
  assume "coherent w"
  with coherentD [OF this] show "kept w (f w)" by (intro queue_change) (simp_all add: assms)
  show "adrift (f w) \<subseteq> adrift w" by (simp add: adrift_def has_state_def assms)
qed

lemma calm_next_id: "calm (\<lambda>w. fst (lk_next_id prefix nano w))"
  unfolding calm_def
proof (intro allI impI)
  fix w :: "'a stack"
  assume w: "coherent w" "spare w"
  let ?w = "fst (lk_next_id prefix nano w)"
  obtain g i where "id_next (w_seq w) prefix nano = (g, i)" by fastforce
  then have e: "?w = w\<lparr>w_seq := w_seq w + 1\<rparr>" using fst_id_next [of "w_seq w" prefix nano] by (simp add: lk_next_id_def)
  have "unat (w_seq w) + 1 < 2 ^ 64" using w(2) by (simp add: spare_def room_def)
  then have "unat (w_seq w + 1) = unat (w_seq w) + 1" by (rule unat_seq_next)
  then have l: "later w ?w" by (simp add: e later_def)
  moreover have "used ?w = used w" by (simp add: e used_def)
  moreover have "adrift ?w = adrift w" by (simp add: e adrift_def has_state_def)
  moreover have "coherent ?w"
    using coherentD [OF w(1)] drawn_later [OF l] calculation(2) by (auto simp: coherent_def e keyed_def was_leased_def)
  ultimately show "calmly w ?w" by (simp add: calmly_def kept_def)
qed

lemma calm_release: "calm (\<lambda>w. lease_release w i)"
  unfolding calm_def using lease_change [OF _ shrinks_delete]
  by (auto simp: lease_release_def split: option.split)

lemma calm_collect: "calm (\<lambda>w. fst (lk_collect its now w))"
  unfolding calm_def using lease_change [OF _ shrinks_collect]
  by (auto simp: lk_collect_def split_beta)

lemma calm_renew: "calm (\<lambda>w. fst (lease_renew w i worker now))"
  unfolding calm_def
proof (intro allI impI)
  fix w :: "'a stack"
  assume c: "coherent w"
  have "shrinks (w_leases w) ((w_leases w)\<lparr>lt_leases := (lt_leases (w_leases w))(i \<mapsto> l\<lparr>lease_deadline := d\<rparr>)\<rparr>)"
    if "lt_leases (w_leases w) i = Some l" for l d
    using that by (simp add: shrinks_def)
  then show "calmly w (fst (lease_renew w i worker now))"
    using c lease_change [OF c] by (simp add: lease_renew_def split: option.split sum.split)
qed

lemma calm_renew_all: "calm (\<lambda>w. renew_all worker now w l)"
  unfolding renew_all_def by (rule calm_renew)

end
