(* ===== verification/Debts.thy ===== *)
theory Debts
  imports Threads
begin

text \<open>
  Programs that leave the shared state out of order for a while and put it right again before
  they end. \<open>lost s\<close> is what is out of order in a state; each program answers for a part of it,
  its debt. When every program has ended, nothing is lost.

  Two more things let a program rely on what it has seen. \<open>since s s'\<close> holds of all states
  that may come after \<open>s\<close>, whoever acts. And a program may own names that it has drawn and not
  yet used: no other program uses them. The supply of names is limited, so an action must
  keep its promise only in a state with \<open>room\<close>.
\<close>

section \<open>Programs with debts\<close>

coinductive owes ::
  "('s \<Rightarrow> bool) \<Rightarrow> ('s \<Rightarrow> bool) \<Rightarrow> ('s \<Rightarrow> 's \<Rightarrow> bool) \<Rightarrow> ('s \<Rightarrow> 'd set) \<Rightarrow> ('s \<Rightarrow> 'n set) \<Rightarrow> ('s \<Rightarrow> 'n set) \<Rightarrow>
   's \<Rightarrow> 'd set \<Rightarrow> 'n set \<Rightarrow> ('s, 'a) prog \<Rightarrow> bool"
  for ok room since lost drawn used where
  ow_done: "owes ok room since lost drawn used s {} N (Done x)"
| ow_act: "(\<And>s'. ok s' \<Longrightarrow> room s' \<Longrightarrow> since s s' \<Longrightarrow> used s' \<inter> N = {} \<Longrightarrow>
      ok (f s') \<and> since s' (f s') \<and> used (f s') \<subseteq> used s' \<union> N \<and>
      (\<exists>D' N'. lost (f s') \<subseteq> (lost s' - D) \<union> D' \<and> N' \<subseteq> (N - used (f s')) \<union> (drawn (f s') - drawn s') \<and>
         owes ok room since lost drawn used (f s') D' N' (g s'))) \<Longrightarrow>
    owes ok room since lost drawn used s D N (Act f g)"

inductive_simps owes_simps: "owes ok room since lost drawn used s D N (Done x)" "owes ok room since lost drawn used s D N (Act f g)"

lemma owes_since:
  assumes "owes ok room since lost drawn used s D N p" and "since s t" and "\<And>u. since t u \<Longrightarrow> since s u"
  shows "owes ok room since lost drawn used t D N p"
  using assms by (cases p) (simp_all add: owes_simps)

lemma owes_weaken:
  assumes "owes ok room since lost drawn used s D M p" and "C \<subseteq> D" and "M \<subseteq> N"
  shows "owes ok room since lost drawn used s C N p"
proof (cases p)
  case (Done x)
  with assms show ?thesis by (simp add: owes_simps)
next
  case (Act f g)
  have "ok (f s') \<and> since s' (f s') \<and> used (f s') \<subseteq> used s' \<union> N \<and>
      (\<exists>D' N'. lost (f s') \<subseteq> (lost s' - C) \<union> D' \<and> N' \<subseteq> (N - used (f s')) \<union> (drawn (f s') - drawn s') \<and>
         owes ok room since lost drawn used (f s') D' N' (g s'))"
    if "ok s'" "room s'" "since s s'" "used s' \<inter> N = {}" for s'
  proof -
    have "used s' \<inter> M = {}" using that(4) assms(3) by blast
    with assms(1) that have a: "ok (f s')" "since s' (f s')" "used (f s') \<subseteq> used s' \<union> M"
      and "\<exists>D' N'. lost (f s') \<subseteq> (lost s' - D) \<union> D' \<and> N' \<subseteq> (M - used (f s')) \<union> (drawn (f s') - drawn s') \<and>
        owes ok room since lost drawn used (f s') D' N' (g s')"
      by (simp_all add: Act owes_simps)
    then obtain D' N' where b: "lost (f s') \<subseteq> (lost s' - D) \<union> D'"
      "N' \<subseteq> (M - used (f s')) \<union> (drawn (f s') - drawn s')" "owes ok room since lost drawn used (f s') D' N' (g s')"
      by blast
    have "used (f s') \<subseteq> used s' \<union> N" using a(3) assms(3) by blast
    moreover have "lost (f s') \<subseteq> (lost s' - C) \<union> D'" using b(1) assms(2) by blast
    moreover have "N' \<subseteq> (N - used (f s')) \<union> (drawn (f s') - drawn s')" using b(2) assms(3) by blast
    ultimately show ?thesis using a(1,2) b(3) by blast
  qed
  then show ?thesis by (simp add: Act owes_simps)
qed

lemma owes_and_then:
  assumes "owes ok room since lost drawn used s D N p" and "\<And>x s. owes ok room since lost drawn used s {} {} (k x)"
  shows "owes ok room since lost drawn used s D N (and_then p k)"
  using assms(1)
proof (coinduction arbitrary: p s D N rule: owes.coinduct)
  case owes
  show ?case
  proof (cases p)
    case (Done x)
    with owes have "D = {}" by (simp add: owes_simps)
    with owes_weaken [OF assms(2) [of s x] order_refl, of N] show ?thesis using Done
      by (cases "k x") (fastforce simp: owes_simps)+
  next
    case (Act f g)
    with owes show ?thesis by (fastforce simp: owes_simps)
  qed
qed

section \<open>The pool\<close>

locale debt_pool =
  fixes ok room :: "'s \<Rightarrow> bool"
    and since :: "'s \<Rightarrow> 's \<Rightarrow> bool"
    and lost :: "'s \<Rightarrow> 'd set"
    and drawn used :: "'s \<Rightarrow> 'n set"
    and rely :: "'s \<Rightarrow> 's \<Rightarrow> bool"
    and ops :: "('s, 'a) prog \<Rightarrow> bool"
  assumes since_refl: "since s s"
    and since_trans: "since s t \<Longrightarrow> since t u \<Longrightarrow> since s u"
    and since_drawn: "since s t \<Longrightarrow> drawn s \<subseteq> drawn t"
    and used_drawn: "ok s \<Longrightarrow> used s \<subseteq> drawn s"
    and rely_keeps: "ok s \<Longrightarrow> rely s s' \<Longrightarrow> ok s' \<and> since s s' \<and> lost s' \<subseteq> lost s \<and> used s' \<subseteq> used s"
    and ops_owe: "ops p \<Longrightarrow> ok s \<Longrightarrow> owes ok room since lost drawn used s {} {} p"
begin

abbreviation due :: "'s \<Rightarrow> 'd set \<Rightarrow> 'n set \<Rightarrow> ('s, 'a) prog \<Rightarrow> bool" where
  "due \<equiv> owes ok room since lost drawn used"

text \<open>Thread \<open>j\<close> has the debt \<open>D j\<close> and owns the names \<open>N j\<close>.\<close>

definition settled :: "(nat \<Rightarrow> 'd set) \<Rightarrow> (nat \<Rightarrow> 'n set) \<Rightarrow> 's \<Rightarrow> ('s, 'a) prog list \<Rightarrow> bool" where
  "settled D N s ps \<longleftrightarrow> ok s \<and> (\<forall>j < length ps. due s (D j) (N j) (ps ! j)) \<and> lost s \<subseteq> (\<Union>j < length ps. D j) \<and>
     (\<forall>j < length ps. N j \<subseteq> drawn s - used s) \<and> (\<forall>i < length ps. \<forall>j < length ps. i \<noteq> j \<longrightarrow> N i \<inter> N j = {})"

lemma due_since: "due s D N p \<Longrightarrow> since s t \<Longrightarrow> due t D N p"
  by (erule owes_since) (auto intro: since_trans)

lemma settled_turn:
  assumes "settled D N s ps" and "room s" and k: "k < length ps" "ps ! k = Act f g"
  shows "\<exists>D N. settled D N (f s) (ps[k := g s])"
proof -
  from assms(1) have ok: "ok s" and due: "\<And>j. j < length ps \<Longrightarrow> due s (D j) (N j) (ps ! j)"
    and lost: "lost s \<subseteq> (\<Union>j < length ps. D j)" and names: "\<And>j. j < length ps \<Longrightarrow> N j \<subseteq> drawn s - used s"
    and apart: "\<And>i j. i < length ps \<Longrightarrow> j < length ps \<Longrightarrow> i \<noteq> j \<Longrightarrow> N i \<inter> N j = {}"
    by (auto simp: settled_def)
  have "used s \<inter> N k = {}" using names [OF k(1)] by blast
  with due [OF k(1)] ok assms(2) since_refl k(2) obtain D' N' where
    step: "ok (f s)" "since s (f s)" "used (f s) \<subseteq> used s \<union> N k" "lost (f s) \<subseteq> (lost s - D k) \<union> D'"
      "N' \<subseteq> (N k - used (f s)) \<union> (drawn (f s) - drawn s)" "due (f s) D' N' (g s)"
    by (auto simp: owes_simps)
  have used: "used (f s) \<subseteq> drawn s" using step(3) names [OF k(1)] used_drawn [OF ok] by blast
  have grow: "drawn s \<subseteq> drawn (f s)" using step(2) by (rule since_drawn)
  have "due (f s) ((D(k := D')) j) ((N(k := N')) j) (ps[k := g s] ! j)" if "j < length ps" for j
    using that step(6) due_since [OF due [OF that] step(2)] by (cases "j = k") simp_all
  moreover have "lost (f s) \<subseteq> (\<Union>j < length ps. (D(k := D')) j)"
  proof
    fix x
    assume "x \<in> lost (f s)"
    with step(4) lost consider "x \<in> D'" | j where "j < length ps" "j \<noteq> k" "x \<in> D j" by fastforce
    then show "x \<in> (\<Union>j < length ps. (D(k := D')) j)" using k(1) by cases auto
  qed
  moreover have "(N(k := N')) j \<subseteq> drawn (f s) - used (f s)" if "j < length ps" for j
  proof (cases "j = k")
    case True
    then show ?thesis using step(5) used grow names [OF k(1)] by fastforce
  next
    case False
    then show ?thesis using names [OF that] apart [OF that k(1)] step(3) grow by fastforce
  qed
  moreover have "(N(k := N')) i \<inter> (N(k := N')) j = {}" if "i < length ps" "j < length ps" "i \<noteq> j" for i j
  proof -
    have "N' \<inter> N l = {}" if "l < length ps" "l \<noteq> k" for l
      using step(5) apart [OF k(1) that(1)] names [OF that(1)] that(2) by blast
    with that apart [OF that] show ?thesis by auto
  qed
  ultimately show ?thesis using step(1) unfolding settled_def length_list_update by blast
qed

lemma settled_step:
  assumes "interleave rely ops c c'" and "room (fst c)" and "\<exists>D N. settled D N (fst c) (snd c)"
  shows "\<exists>D N. settled D N (fst c') (snd c')"
  using assms
proof (induction rule: interleave.induct)
  case (il_turn k ps f g s)
  then show ?case using settled_turn by auto
next
  case (il_start p s ps)
  then obtain D N where st: "settled D N s ps" by auto
  then have "due s {} {} p" using ops_owe [OF il_start(1)] by (simp add: settled_def)
  with st have "settled (D(length ps := {})) (N(length ps := {})) s (ps @ [p])"
    by (fastforce simp: settled_def nth_append less_Suc_eq)
  then show ?case by auto
next
  case (il_outside s s' ps)
  then obtain D N where st: "settled D N s ps" by auto
  then have "ok s" by (simp add: settled_def)
  from rely_keeps [OF this il_outside(1)] have k: "ok s'" "since s s'" "lost s' \<subseteq> lost s" "used s' \<subseteq> used s" by blast+
  with st have "settled D N s' ps" using due_since since_drawn [OF k(2)] by (fastforce simp: settled_def)
  then show ?case by auto
qed

text \<open>A run in which there is always room.\<close>

lemma all_settled:
  assumes "(\<lambda>c c'. interleave rely ops c c' \<and> room (fst c))\<^sup>*\<^sup>* (s0, []) c" and "ok s0" and "lost s0 = {}"
  shows "\<exists>D N. settled D N (fst c) (snd c)"
  using assms(1)
proof (induction rule: rtranclp_induct)
  case base
  have "settled (\<lambda>_. {}) (\<lambda>_. {}) s0 []" using assms(2,3) by (simp add: settled_def)
  then show ?case by auto
next
  case (step c c')
  then show ?case using settled_step by blast
qed

lemma nothing_lost:
  assumes "(\<lambda>c c'. interleave rely ops c c' \<and> room (fst c))\<^sup>*\<^sup>* (s0, []) (s, ps)" and "ok s0" and "lost s0 = {}"
    and "\<forall>p \<in> set ps. \<exists>x. p = Done x"
  shows "lost s = {}"
proof -
  obtain D N where st: "settled D N s ps" using all_settled [OF assms(1-3)] by auto
  have "D j = {}" if "j < length ps" for j
  proof -
    have "ps ! j \<in> set ps" using that by simp
    then obtain x where "ps ! j = Done x" using assms(4) by blast
    moreover have "due s (D j) (N j) (ps ! j)" using st that by (simp add: settled_def)
    ultimately show ?thesis by (simp add: owes_simps)
  qed
  with st show ?thesis by (auto simp: settled_def)
qed

end

end
