(* ===== verification/Repayment.thy ===== *)
theory Repayment
  imports Adrift Debts
begin

text \<open>
  One rule for each locked call: what a program owes after it, given what it owed before. A
  task that a program takes out of a queue, or makes ready, is its debt until it is queued.
\<close>

section \<open>Programs that pay what they owe\<close>

abbreviation repays :: "'r stack \<Rightarrow> (string \<times> task_state) set \<Rightarrow> 'r thread \<Rightarrow> bool" where
  "repays w D p \<equiv> owes coherent spare later adrift drawn used w D {} p"

lemma repays_done [intro!]: "repays w {} (Done x)"
  by (rule ow_done)

lemma repays_later: "repays s D p \<Longrightarrow> later s w \<Longrightarrow> repays w D p"
  by (erule owes_since) (auto intro: later_trans)

lemma repays_less: "repays s D p \<Longrightarrow> C \<subseteq> D \<Longrightarrow> repays s C p"
  by (rule owes_weaken) simp_all

lemma repays_step:
  assumes "\<And>w. coherent w \<Longrightarrow> spare w \<Longrightarrow> later s w \<Longrightarrow>
    kept w (f w) \<and> (\<exists>D'. adrift (f w) \<subseteq> (adrift w - D) \<union> D' \<and> repays (f w) D' (g w))"
  shows "repays s D (Act f g)"
proof (rule ow_act)
  fix w
  assume "coherent w" "spare w" "later s w"
  from assms [OF this] show "coherent (f w) \<and> later w (f w) \<and> used (f w) \<subseteq> used w \<union> {} \<and>
      (\<exists>D' N'. adrift (f w) \<subseteq> (adrift w - D) \<union> D' \<and> N' \<subseteq> ({} - used (f w)) \<union> (drawn (f w) - drawn w) \<and>
         owes coherent spare later adrift drawn used (f w) D' N' (g w))"
    unfolding kept_def by blast
qed

lemma repays_act:
  assumes "\<And>w. coherent w \<Longrightarrow> spare w \<Longrightarrow> later s w \<Longrightarrow>
    kept w (fst (a w)) \<and> (\<exists>D'. adrift (fst (a w)) \<subseteq> (adrift w - D) \<union> D' \<and> repays (fst (a w)) D' (k (snd (a w))))"
  shows "repays s D (act a k)"
  unfolding act_def using assms by (rule repays_step)

lemma later_kept: "later s w \<Longrightarrow> kept w w' \<Longrightarrow> later s w' \<and> coherent w'"
  by (auto simp: kept_def intro: later_trans)

text \<open>Actions that leave all debts as they are.\<close>

lemma repays_calm:
  assumes "calm (\<lambda>w. fst (a w))" and "\<And>w x. coherent w \<Longrightarrow> later s w \<Longrightarrow> repays w D (k x)"
  shows "repays s D (act a k)"
proof (rule repays_act)
  fix w
  assume w: "coherent w" "spare w" "later s w"
  then have "calmly w (fst (a w))" using assms(1) by (simp add: calm_def)
  then have "kept w (fst (a w))" "adrift (fst (a w)) \<subseteq> adrift w" by (simp_all add: calmly_def)
  with assms(2) [of "fst (a w)"] later_kept [OF w(3)]
  show "kept w (fst (a w)) \<and> (\<exists>D'. adrift (fst (a w)) \<subseteq> (adrift w - D) \<union> D' \<and> repays (fst (a w)) D' (k (snd (a w))))"
    by blast
qed

lemma upd_as_act: "upd f p = act (\<lambda>w. (f w, ())) (\<lambda>_. p)"
  by (simp add: upd_def act_def)

lemma repays_calm_upd:
  assumes "calm f" and "\<And>w. coherent w \<Longrightarrow> later s w \<Longrightarrow> repays w D p"
  shows "repays s D (upd f p)"
  unfolding upd_as_act using assms by (intro repays_calm) simp_all

lemma repays_quiet:
  assumes "\<And>w. w_store (f w) = w_store w" "\<And>w. w_ready (f w) = w_ready w" "\<And>w. w_delayed (f w) = w_delayed w"
    "\<And>w. w_next_fire (f w) = w_next_fire w" "\<And>w. w_leases (f w) = w_leases w" "\<And>w. w_seq (f w) = w_seq w"
    and "\<And>w. coherent w \<Longrightarrow> later s w \<Longrightarrow> repays w D p"
  shows "repays s D (upd f p)"
  by (rule repays_calm_upd [OF calm_quiet]) (use assms in simp_all)

lemma repays_ask:
  assumes "\<And>w. coherent w \<Longrightarrow> later s w \<Longrightarrow> repays w D (k (q w))"
  shows "repays s D (ask q k)"
  unfolding ask_def by (rule repays_step) (use assms in auto)

text \<open>A debt is found to be void.\<close>

lemma repays_void:
  assumes "\<And>w. coherent w \<Longrightarrow> later s w \<Longrightarrow> \<exists>D'. adrift w \<inter> D \<subseteq> D' \<and> repays w D' (k (q w))"
  shows "repays s D (ask q k)"
  unfolding ask_def
proof (rule repays_step)
  fix w
  assume w: "coherent w" "later s w"
  with assms [OF this] show "kept w w \<and> (\<exists>D'. adrift w \<subseteq> adrift w - D \<union> D' \<and> repays w D' (k (q w)))" by auto
qed

text \<open>Actions that pay.\<close>

lemma repays_push:
  assumes "\<And>w. coherent w \<Longrightarrow> later s w \<Longrightarrow> repays w (D - {(i, StateReady)}) p"
  shows "repays s D (upd (\<lambda>w. push_ready w i pr at) p)"
  unfolding upd_as_act
proof (rule repays_act)
  fix w
  assume w: "coherent w" "later s w"
  note c = push_change [OF w(1), of i pr at]
  with later_kept [OF w(2) c(1)] assms [of "push_ready w i pr at"]
  show "kept w (fst (push_ready w i pr at, ())) \<and> (\<exists>D'. adrift (fst (push_ready w i pr at, ())) \<subseteq> (adrift w - D) \<union> D' \<and>
      repays (fst (push_ready w i pr at, ())) D' p)"
    by (intro conjI exI [of _ "D - {(i, StateReady)}"]) auto
qed

lemma repays_schedule:
  assumes "\<And>w. coherent w \<Longrightarrow> later s w \<Longrightarrow> repays w (D - {(i, StateReady)}) p"
  shows "repays s D (upd (\<lambda>w. sched_schedule_retry w i at pr now) p)"
  unfolding upd_as_act
proof (rule repays_act)
  fix w
  assume w: "coherent w" "later s w"
  note c = schedule_change [OF w(1), of i at pr now]
  with later_kept [OF w(2) c(1)] assms [of "sched_schedule_retry w i at pr now"]
  show "kept w (fst (sched_schedule_retry w i at pr now, ())) \<and>
      (\<exists>D'. adrift (fst (sched_schedule_retry w i at pr now, ())) \<subseteq> (adrift w - D) \<union> D' \<and>
      repays (fst (sched_schedule_retry w i at pr now, ())) D' p)"
    by (intro conjI exI [of _ "D - {(i, StateReady)}"]) auto
qed

lemma repays_fire:
  assumes "\<And>w. f w = w\<lparr>w_next_fire := (w_next_fire w)(i \<mapsto> at)\<rparr>" and "i \<in> dom (tasks_of s)"
    and "\<And>w. coherent w \<Longrightarrow> later s w \<Longrightarrow> repays w (D - {(i, StatePending)}) p"
  shows "repays s D (upd f p)"
  unfolding upd_as_act
proof (rule repays_act)
  fix w
  assume w: "coherent w" "later s w"
  have "i \<in> dom (tasks_of w)" using assms(2) w(2) by (auto elim: later_task)
  note c = fire_change [OF w(1) this, of at]
  with later_kept [OF w(2) c(1)] assms(3) [of "f w"]
  show "kept w (fst (f w, ())) \<and> (\<exists>D'. adrift (fst (f w, ())) \<subseteq> (adrift w - D) \<union> D' \<and> repays (fst (f w, ())) D' p)"
    by (intro conjI exI [of _ "D - {(i, StatePending)}"]) (auto simp: assms(1))
qed

text \<open>Actions that make debts.\<close>

lemma repays_transition:
  assumes "\<not> terminal st" and "st' \<noteq> StatePending"
    and "\<And>w e. coherent w \<Longrightarrow> later s w \<Longrightarrow> repays w {} (k (Inl e))"
    and "\<And>w. coherent w \<Longrightarrow> later s w \<Longrightarrow> repays w {} (k (Inr None))"
    and "\<And>w u. coherent w \<Longrightarrow> later s w \<Longrightarrow> tasks_of w i = Some u \<Longrightarrow> task_id u = i \<Longrightarrow> state u = st' \<Longrightarrow>
      repays w (if st' = StateReady then {(i, StateReady)} else {}) (k (Inr (Some u)))"
  shows "repays s {} (act (lk_transition i st st' v) k)"
proof (rule repays_act)
  fix w
  assume w: "coherent w" "later s w"
  show "kept w (fst (lk_transition i st st' v w)) \<and>
      (\<exists>D'. adrift (fst (lk_transition i st st' v w)) \<subseteq> (adrift w - {}) \<union> D' \<and>
         repays (fst (lk_transition i st st' v w)) D' (k (snd (lk_transition i st st' v w))))"
  proof (rule transition_result [of i st st' v w])
    fix w' t u
    assume r: "lk_transition i st st' v w = (w', Inr (Some u))" "tasks_of w i = Some t" "state t = st"
      "u = t\<lparr>state := st', version := version t + 1, updated_at := w_now w\<rparr>" "tasks_of w' = (tasks_of w)(i \<mapsto> u)" "same_rest w w'"
    then have "task_id u = task_id t" "task_later t u" "state u = st'" using assms(1) by (simp_all add: task_later_def)
    note c = put_later [OF w(1) r(6,5,2) this(1,2)]
    have i: "task_id u = i" using coherentD(1) [OF w(1)] r(2,4) by (simp add: keyed_def)
    have "adrift w' \<subseteq> adrift w \<union> (if st' = StateReady then {(i, StateReady)} else {})"
      using c(2) assms(2) \<open>state u = st'\<close> by auto
    moreover have "repays w' (if st' = StateReady then {(i, StateReady)} else {}) (k (Inr (Some u)))"
      using assms(5) [of w' u] later_kept [OF w(2) c(1)] r(5) i \<open>state u = st'\<close> by simp
    ultimately show ?thesis using c(1) r(1) by auto
  qed (use w assms(3,4) in auto)
qed

lemma repays_mark:
  assumes "\<And>w e. coherent w \<Longrightarrow> later s w \<Longrightarrow> repays w {} (k (Inl e))"
    and "\<And>w u. coherent w \<Longrightarrow> later s w \<Longrightarrow> tasks_of w i = Some u \<Longrightarrow> task_id u = i \<Longrightarrow> repays w {(i, StateReady)} (k (Inr u))"
  shows "repays s {} (act (lk_mark_ready i) k)"
proof (rule repays_act)
  fix w
  assume w: "coherent w" "later s w"
  show "kept w (fst (lk_mark_ready i w)) \<and> (\<exists>D'. adrift (fst (lk_mark_ready i w)) \<subseteq> (adrift w - {}) \<union> D' \<and>
         repays (fst (lk_mark_ready i w)) D' (k (snd (lk_mark_ready i w))))"
  proof (rule mark_result [of i w])
    fix w' t u
    assume r: "lk_mark_ready i w = (w', Inr u)" "tasks_of w i = Some t" "state t = StatePending" "state u = StateReady"
      "task_id u = task_id t" "version u = version t + 1" "tasks_of w' = (tasks_of w)(i \<mapsto> u)" "same_rest w w'"
    then have "task_later t u" by (simp add: task_later_def terminal_def)
    note c = put_later [OF w(1) r(8,7,2,5) this]
    have i: "task_id u = i" using coherentD(1) [OF w(1)] r(2,5) by (simp add: keyed_def)
    have "adrift w' \<subseteq> adrift w \<union> {(i, StateReady)}" using c(2) r(4) by auto
    moreover have "repays w' {(i, StateReady)} (k (Inr u))"
      using assms(2) [of w' u] later_kept [OF w(2) c(1)] r(7) i by simp
    ultimately show ?thesis using c(1) r(1) by auto
  qed (use w assms(1) in auto)
qed

lemma repays_retry:
  assumes "was_leased s i v"
    and "\<And>w e. coherent w \<Longrightarrow> later s w \<Longrightarrow> repays w {} (k (Inl e))"
    and "\<And>w u. coherent w \<Longrightarrow> later s w \<Longrightarrow> task_id u = i \<Longrightarrow> repays w {(i, StateReady)} (k (Inr u))"
  shows "repays s {} (act (lk_retry i nxt v) k)"
proof (rule repays_act)
  fix w
  assume w: "coherent w" "later s w"
  show "kept w (fst (lk_retry i nxt v w)) \<and> (\<exists>D'. adrift (fst (lk_retry i nxt v w)) \<subseteq> (adrift w - {}) \<union> D' \<and>
         repays (fst (lk_retry i nxt v w)) D' (k (snd (lk_retry i nxt v w))))"
  proof (rule retry_result [of i nxt v w])
    fix w' t u
    assume r: "lk_retry i nxt v w = (w', Inr u)" "tasks_of w i = Some t" "version t = v" "state u = StateReady"
      "task_id u = task_id t" "version u = version t + 1" "tasks_of w' = (tasks_of w)(i \<mapsto> u)" "same_rest w w'"
    have "was_leased w i v" using assms(1) w(2) by (rule was_leased_later)
    then have "state t = StateLeased" using r(2,3) by (simp add: was_leased_def)
    then have "task_later t u" using r(6) by (simp add: task_later_def terminal_def)
    note c = put_later [OF w(1) r(8,7,2,5) this]
    have i: "task_id u = i" using coherentD(1) [OF w(1)] r(2,5) by (simp add: keyed_def)
    have "adrift w' \<subseteq> adrift w \<union> {(i, StateReady)}" using c(2) r(4) by auto
    moreover have "repays w' {(i, StateReady)} (k (Inr u))"
      using assms(3) [of w' u] later_kept [OF w(2) c(1)] i by simp
    ultimately show ?thesis using c(1) r(1) by auto
  qed (use w assms(2) in auto)
qed

lemma repays_save:
  assumes "state t = StatePending \<or> task_id t \<in> dom (tasks_of s)"
    and "\<And>w e. coherent w \<Longrightarrow> later s w \<Longrightarrow> repays w {} (k (Some e))"
    and "\<And>w. coherent w \<Longrightarrow> later s w \<Longrightarrow> task_id t \<in> dom (tasks_of w) \<Longrightarrow> repays w {(task_id t, StatePending)} (k None)"
  shows "repays s {} (act (lk_save t) k)"
proof (rule repays_act)
  fix w
  assume w: "coherent w" "later s w"
  show "kept w (fst (lk_save t w)) \<and> (\<exists>D'. adrift (fst (lk_save t w)) \<subseteq> (adrift w - {}) \<union> D' \<and>
         repays (fst (lk_save t w)) D' (k (snd (lk_save t w))))"
  proof (rule save_result [of t w])
    fix w' p u
    assume r: "lk_save t w = (w', None)" "tasks_of w (task_id t) = Some p" "state u = state p"
      "task_id u = task_id p" "task_later p u" "tasks_of w' = (tasks_of w)(task_id t \<mapsto> u)" "same_rest w w'"
    note c = put_later [OF w(1) r(7,6,2,4,5)]
    have "repays w' {(task_id t, StatePending)} (k None)" using assms(3) [of w'] later_kept [OF w(2) c(1)] r(6) by simp
    moreover have "adrift w' \<subseteq> adrift w" using c(3) r(3) by blast
    ultimately show ?thesis using c(1) r(1) by auto
  next
    fix w' u
    assume r: "lk_save t w = (w', None)" "tasks_of w (task_id t) = None" "state u = state t" "task_id u = task_id t"
      "tasks_of w' = (tasks_of w)(task_id t \<mapsto> u)" "same_rest w w'"
    note c = put_new [OF w(1) r(6,5,2,4)]
    have "task_id t \<notin> dom (tasks_of s)" using w(2) r(2) by (auto elim: later_task)
    then have "state t = StatePending" using assms(1) by blast
    moreover have "repays w' {(task_id t, StatePending)} (k None)" using assms(3) [of w'] later_kept [OF w(2) c(1)] r(5) by simp
    ultimately show ?thesis using c r(1,3) by auto
  qed (use w assms(2) in auto)
qed

lemma repays_pop_due:
  assumes "\<And>w es. coherent w \<Longrightarrow> later s w \<Longrightarrow> repays w ((de_task_id ` set es) \<times> {StateReady}) (k es)"
  shows "repays s {} (act (lk_pop_due now) k)"
proof (rule repays_act)
  fix w
  assume w: "coherent w" "later s w"
  note c = pop_due_change [OF w(1), of now]
  with assms [of "fst (lk_pop_due now w)" "snd (lk_pop_due now w)"] later_kept [OF w(2) c(1)]
  show "kept w (fst (lk_pop_due now w)) \<and> (\<exists>D'. adrift (fst (lk_pop_due now w)) \<subseteq> (adrift w - {}) \<union> D' \<and>
      repays (fst (lk_pop_due now w)) D' (k (snd (lk_pop_due now w))))"
    by auto
qed

definition ended :: "'r stack \<Rightarrow> string \<Rightarrow> bool" where
  "ended w i \<longleftrightarrow> (\<exists>t. tasks_of w i = Some t \<and> terminal (state t))"

lemma ended_later: "ended s i \<Longrightarrow> later s w \<Longrightarrow> ended w i"
  by (auto simp: ended_def task_later_def elim: later_task)

lemma ended_change:
  assumes "coherent w" and "ended w i"
  shows "calmly w (w\<lparr>w_ready := fst (ready_remove (w_ready w) i)\<rparr>)"
    "calmly w (w\<lparr>w_delayed := fst (delayed_remove (w_delayed w) i)\<rparr>)"
    "calmly w (w\<lparr>w_next_fire := (w_next_fire w)(i := None)\<rparr>)"
  using final_change [OF assms(1)] assms(2) unfolding ended_def by blast+

lemma repays_final:
  assumes "ended s i" and "\<And>w. coherent w \<Longrightarrow> ended w i \<Longrightarrow> calmly w (f w)"
    and "\<And>w. ended w i \<Longrightarrow> repays w D p"
  shows "repays s D (upd f p)"
  unfolding upd_as_act
proof (rule repays_act)
  fix w
  assume w: "coherent w" "later s w"
  have fin: "ended w i" using assms(1) w(2) by (rule ended_later)
  then have c: "kept w (f w)" "adrift (f w) \<subseteq> adrift w" using assms(2) [OF w(1)] by (auto simp: calmly_def)
  with assms(3) [of "f w"] ended_later [OF fin]
  show "kept w (fst (f w, ())) \<and> (\<exists>D'. adrift (fst (f w, ())) \<subseteq> (adrift w - D) \<union> D' \<and> repays (fst (f w, ())) D' p)"
    by (auto simp: kept_def)
qed

lemma repays_get:
  assumes "\<And>w. coherent w \<Longrightarrow> later s w \<Longrightarrow> tasks_of w i = None \<Longrightarrow> repays w D (k (Inl ErrNotFound))"
    and "\<And>w t. coherent w \<Longrightarrow> later s w \<Longrightarrow> tasks_of w i = Some t \<Longrightarrow> task_id t = i \<Longrightarrow> repays w D (k (Inr t))"
  shows "repays s D (ask (lk_get i) k)"
proof (rule repays_ask)
  fix w
  assume w: "coherent w" "later s w"
  then show "repays w D (k (lk_get i w))"
    using assms(1) [OF w] assms(2) [OF w] coherentD(1) [OF w(1)]
    by (cases "tasks_of w i") (auto simp: lk_get_def store_get_def keyed_def)
qed

lemma repays_and_then: "repays s D p \<Longrightarrow> (\<And>x w. repays w {} (k x)) \<Longrightarrow> repays s D (and_then p k)"
  by (rule owes_and_then)

text \<open>Case distinctions.\<close>

lemma repays_cases [intro!]:
  "(\<And>e. r = Inl e \<Longrightarrow> repays s D (f e)) \<Longrightarrow> (\<And>y. r = Inr y \<Longrightarrow> repays s D (g y)) \<Longrightarrow> repays s D (case r of Inl e \<Rightarrow> f e | Inr y \<Rightarrow> g y)"
  "(m = None \<Longrightarrow> repays s D p) \<Longrightarrow> (\<And>z. m = Some z \<Longrightarrow> repays s D (h z)) \<Longrightarrow> repays s D (case m of None \<Rightarrow> p | Some z \<Rightarrow> h z)"
  "(c \<Longrightarrow> repays s D p) \<Longrightarrow> (\<not> c \<Longrightarrow> repays s D q) \<Longrightarrow> repays s D (if c then p else q)"
  by (simp_all split: sum.split option.split)

end
