(* ===== verification/NoLoss.thy ===== *)
theory NoLoss
  imports Repayment
begin

text \<open>
  No task is lost, at the granularity of the locks: whatever the interleaving, a task that is
  adrift is in the hands of a program that is still running. Left out are batches and
  \<open>Restore\<close>, which delete tasks.
\<close>

section \<open>Ticks, reaping, triggers\<close>

lemma tick_delayed_repays: "repays s ((de_task_id ` set es) \<times> {StateReady}) (tick_delayed_loop now n es)"
proof (induction es arbitrary: s n)
  case (Cons e es)
  let ?D = "(de_task_id ` set es) \<times> {StateReady}" and ?D' = "(de_task_id ` set (e # es)) \<times> {StateReady}"
  have hand: "repays w ?D' (upd (\<lambda>w. push_ready w (de_task_id e) p now) (tick_delayed_loop now (Suc n) es))" for w :: "'a stack" and p
    by (rule repays_push, rule repays_less [OF Cons.IH]) auto
  show ?case
    unfolding tick_delayed_loop.simps
  proof (rule repays_void)
    fix w :: "'a stack"
    assume w: "coherent w"
    show "\<exists>D. adrift w \<inter> ?D' \<subseteq> D \<and> repays w D (case lk_get (de_task_id e) w of
        Inl _ \<Rightarrow> tick_delayed_loop now n es
      | Inr t \<Rightarrow> if state t \<noteq> StateReady then tick_delayed_loop now n es
          else upd (\<lambda>w. push_ready w (task_id t) (priority t) now) (tick_delayed_loop now (Suc n) es))"
    proof (cases "has_state w (de_task_id e) StateReady")
      case True
      then obtain t where "tasks_of w (de_task_id e) = Some t" "state t = StateReady"
        by (auto simp: has_state_def split: option.splits)
      moreover from this have "task_id t = de_task_id e" using coherentD(1) [OF w] by (simp add: keyed_def)
      ultimately show ?thesis using hand by (intro exI [of _ ?D']) (simp add: lk_get_def store_get_def)
    next
      case False
      then have "adrift w \<inter> ?D' \<subseteq> ?D" by (auto simp: adrift_def)
      with False Cons.IH show ?thesis
        by (intro exI [of _ ?D]) (auto simp: lk_get_def store_get_def has_state_def split: option.splits)
    qed
  qed
qed auto

lemma later_dom: "later s w \<Longrightarrow> i \<in> dom (tasks_of s) \<Longrightarrow> i \<in> dom (tasks_of w)"
  by (auto elim: later_task)

lemma tick_cron_repays:
  assumes "i \<in> dom (tasks_of s)" and "\<And>w. later s w \<Longrightarrow> repays w {} rest"
  shows "repays s {} (tick_cron_thread i updated now rest)"
proof -
  have "repays s {} (ask q (\<lambda>nxt. act (lk_set_next_run i nxt) (\<lambda>e. case e of
      Some _ \<Rightarrow> rest | None \<Rightarrow> upd (\<lambda>w. sched_set_next_fire w i nxt) rest)))" for q :: "'a stack \<Rightarrow> instant"
  proof (intro repays_ask repays_calm [OF calm_set_next_run] repays_cases)
    fix v w :: "'a stack"
    assume "later s v" "later v w"
    then have w: "later s w" by (rule later_trans)
    then show "repays w {} rest" by (rule assms(2))
    show "repays w {} (upd (\<lambda>w. sched_set_next_fire w i (q v)) rest)"
    proof (rule repays_fire)
      show "sched_set_next_fire u i (q v) = u\<lparr>w_next_fire := (w_next_fire u)(i \<mapsto> q v)\<rparr>" for u :: "'a stack"
        by (simp add: sched_set_next_fire_def)
      show "i \<in> dom (tasks_of w)" using w assms(1) by (rule later_dom)
      show "repays u ({} - {(i, StatePending)}) rest" if "later w u" for u
        using assms(2) [OF later_trans [OF w that]] by simp
    qed
  qed
  with assms(2) show ?thesis by (auto simp: tick_cron_thread_def)
qed

lemma tick_pending_repays: "set is \<subseteq> dom (tasks_of s) \<Longrightarrow> repays s {} (tick_pending_loop now n is)"
proof (induction "is" arbitrary: s n)
  case Nil
  then show ?case by (auto intro: repays_pop_due tick_delayed_repays)
next
  case (Cons i "is")
  have go: "repays w {} (tick_pending_loop now m is)" if "later s w" for w m
  proof (rule Cons.IH)
    have "set is \<subseteq> dom (tasks_of s)" using Cons.prems by simp
    then show "set is \<subseteq> dom (tasks_of w)" using later_dom [OF that] by blast
  qed
  have "repays v {} (act (lk_mark_ready i) (\<lambda>r. case r of
      Inl _ \<Rightarrow> tick_pending_loop now n is
    | Inr u \<Rightarrow> upd (\<lambda>w. push_ready w (task_id u) (priority u) now) (tick_cron_thread i u now (tick_pending_loop now (Suc n) is))))"
    if v: "later s v" for v
  proof (rule repays_mark)
    fix w
    assume w: "later v w"
    then show "repays w {} (case Inl e of Inl _ \<Rightarrow> tick_pending_loop now n is
        | Inr u \<Rightarrow> upd (\<lambda>w. push_ready w (task_id u) (priority u) now) (tick_cron_thread i u now (tick_pending_loop now (Suc n) is)))" for e
      using go [OF later_trans [OF v]] by simp
    fix u :: task
    assume u: "task_id u = i"
    have "repays x {} (tick_cron_thread i u now (tick_pending_loop now (Suc n) is))" if "later w x" for x
    proof (rule tick_cron_repays)
      have x: "later s x" using v w that by (blast intro: later_trans)
      then show "i \<in> dom (tasks_of x)" using Cons.prems later_dom [OF x, of i] by simp
      show "repays y {} (tick_pending_loop now (Suc n) is)" if "later x y" for y
        using go later_trans [OF x that] by blast
    qed
    with u show "repays w {(i, StateReady)} (case Inr u of Inl _ \<Rightarrow> tick_pending_loop now n is
        | Inr u \<Rightarrow> upd (\<lambda>w. push_ready w (task_id u) (priority u) now) (tick_cron_thread i u now (tick_pending_loop now (Suc n) is)))"
      by (auto intro!: repays_push)
  qed
  moreover have "tasks_of w i \<noteq> None" if "later s w" for w
    using Cons.prems later_dom [OF that, of i] by auto
  ultimately have "repays s {} (ask (lk_get i) (\<lambda>r. case r of
      Inl _ \<Rightarrow> upd (\<lambda>w. w\<lparr>w_next_fire := (w_next_fire w)(i := None)\<rparr>) (tick_pending_loop now n is)
    | Inr t \<Rightarrow> if state t \<noteq> StatePending then tick_pending_loop now n is
        else act (lk_mark_ready i) (\<lambda>r. case r of
            Inl _ \<Rightarrow> tick_pending_loop now n is
          | Inr u \<Rightarrow> upd (\<lambda>w. push_ready w (task_id u) (priority u) now)
              (tick_cron_thread i u now (tick_pending_loop now (Suc n) is)))))"
    using go by (intro repays_get) fastforce+
  then show ?case by simp
qed

lemma tick_repays: "coherent s \<Longrightarrow> repays s {} (tick_thread its now)"
  unfolding tick_thread_def
proof (rule repays_ask, rule tick_pending_repays)
  fix w :: "'a stack"
  assume "coherent w"
  from coherentD(4) [OF this] show "set (tick_due w its now) \<subseteq> dom (tasks_of w)"
    by (auto simp: tick_due_def split: option.splits)
qed

lemma reap_loop_repays: "repays s {} (reap_loop now reaped ls)"
proof (induction ls arbitrary: s reaped)
  case (Cons l ls)
  have "repays w {} (act (lk_transition (lease_task_id l) StateLeased StateReady v) (\<lambda>r. case r of
      Inr (Some u) \<Rightarrow>
        upd (\<lambda>w. push_ready w (task_id u) (priority u) now)
        (upd (\<lambda>w. w\<lparr>w_metrics := (w_metrics w)\<lparr>mt_leases_expired := count_up (mt_leases_expired (w_metrics w))\<rparr>\<rparr>)
        (reap_loop now (reaped @ [lease_task_id l]) ls))
    | _ \<Rightarrow> reap_loop now reaped ls))" for w :: "'a stack" and v
    by (rule repays_transition) (auto simp: terminal_def Cons.IH intro!: repays_push repays_quiet)
  then show ?case by (auto simp: Cons.IH intro!: repays_get)
qed auto

lemma reap_repays: "repays s {} (reap_thread its now)"
  unfolding reap_thread_def by (rule repays_calm [OF calm_collect]) (rule reap_loop_repays)

lemma trigger_repays: "repays s {} (trigger_thread i now)"
  unfolding trigger_thread_def
  by (auto simp: Let_def intro!: repays_get repays_mark repays_push)

lemma cancel_repays: "repays s {} (cancel_thread i)"
proof -
  have "repays w {} (act (lk_transition i (state t) StateCanceled (version t)) (\<lambda>r. case r of
      Inl e \<Rightarrow> Done (Canceled (Some (StoreError e)))
    | Inr None \<Rightarrow> Done (Canceled (Some ErrChanged))
    | Inr (Some _) \<Rightarrow>
        upd (\<lambda>w. w\<lparr>w_ready := fst (ready_remove (w_ready w) i)\<rparr>)
        (upd (\<lambda>w. w\<lparr>w_delayed := fst (delayed_remove (w_delayed w) i)\<rparr>)
        (upd (\<lambda>w. w\<lparr>w_next_fire := (w_next_fire w)(i := None)\<rparr>)
        (Done (Canceled None))))))" if "\<not> terminal (state t)" for w :: "'a stack" and t
  proof (rule repays_transition)
    fix v :: "'a stack" and u
    assume v: "tasks_of v i = Some u" "state u = StateCanceled"
    have "repays v {} (upd (\<lambda>w. w\<lparr>w_ready := fst (ready_remove (w_ready w) i)\<rparr>)
        (upd (\<lambda>w. w\<lparr>w_delayed := fst (delayed_remove (w_delayed w) i)\<rparr>)
        (upd (\<lambda>w. w\<lparr>w_next_fire := (w_next_fire w)(i := None)\<rparr>)
        (Done (Canceled None)))))"
      by (intro repays_final [of _ i] ended_change repays_done) (use v in \<open>simp_all add: ended_def terminal_def\<close>)
    then show "repays v (if StateCanceled = StateReady then {(i, StateReady)} else {}) (case Inr (Some u) of
        Inl e \<Rightarrow> Done (Canceled (Some (StoreError e)))
      | Inr None \<Rightarrow> Done (Canceled (Some ErrChanged))
      | Inr (Some _) \<Rightarrow>
        upd (\<lambda>w. w\<lparr>w_ready := fst (ready_remove (w_ready w) i)\<rparr>)
        (upd (\<lambda>w. w\<lparr>w_delayed := fst (delayed_remove (w_delayed w) i)\<rparr>)
        (upd (\<lambda>w. w\<lparr>w_next_fire := (w_next_fire w)(i := None)\<rparr>)
        (Done (Canceled None)))))" by simp
  qed (use that in auto)
  then show ?thesis by (auto simp: cancel_thread_def intro!: repays_get)
qed

section \<open>Results\<close>

lemma success_repays: "repays s {} (success_thread l t)"
  unfolding success_thread_def
  by (rule repays_transition) (auto simp: terminal_def intro!: repays_quiet repays_calm_upd [OF calm_release])

lemma dead_repays: "repays s {} (dead_thread l t)"
  unfolding dead_thread_def
  by (rule repays_transition) (auto simp: terminal_def intro!: repays_calm_upd [OF calm_release])

lemma retry_repays: "was_leased s (task_id t) (version t) \<Longrightarrow> repays s {} (retry_thread l t finished)"
  unfolding retry_thread_def
  by (rule repays_ask, rule repays_retry)
    (auto intro: was_leased_later intro!: repays_schedule repays_calm_upd [OF calm_release])

lemma failure_repays:
  assumes "was_leased s (task_id t) (version t)"
  shows "repays s {} (failure_thread l t finished)"
  unfolding failure_thread_def
  using was_leased_later [OF assms] by (auto intro!: repays_quiet retry_repays dead_repays)

text \<open>A result that passes the check is for a task that was leased at that version.\<close>

lemma current_was_leased:
  assumes "coherent w" and "lease_current w i = Some c"
  shows "was_leased w i (lease_task_version c)"
proof -
  obtain k where k: "lt_by_task (w_leases w) i = Some k" "lt_leases (w_leases w) k = Some c"
    using assms(2) by (auto simp: lease_current_def split: option.splits)
  from coherentD(6) [OF assms(1) k(2)] coherentD(7) [OF assms(1) k] show ?thesis by simp
qed

lemma record_repays: "repays s {} (record_thread l status message started finished nano stamp)"
  unfolding record_thread_def
proof (rule repays_get)
  fix w :: "'a stack" and t :: task
  assume t: "task_id t = lease_task_id l"
  show "repays w {} (case Inr t of
      Inl e \<Rightarrow> Done (Recorded (Inl (StoreError e)))
    | Inr t \<Rightarrow>
        ask (\<lambda>w. lease_current w (lease_task_id l)) (\<lambda>c. case c of
            None \<Rightarrow> Done (Recorded (Inl ErrStaleResult))
          | Some current \<Rightarrow>
              if lease_id current \<noteq> lease_id l \<or> lease_task_version current \<noteq> version t
              then Done (Recorded (Inl ErrStaleResult))
              else
                act (lk_next_id ''exec'' nano) (\<lambda>i.
                upd (\<lambda>w. w\<lparr>w_records := records_append (w_records w) stamp
                    \<lparr>rec_id = i, rec_task_id = task_id t, rec_attempt = attempt_count t,
                     rec_worker_id = lease_worker_id l, rec_status = status,
                     rec_started_at = started, rec_finished_at = finished, rec_message = message\<rparr>\<rparr>)
                (upd (\<lambda>w. w\<lparr>w_metrics := (w_metrics w)
                    \<lparr>mt_results_recorded := count_up (mt_results_recorded (w_metrics w))\<rparr>\<rparr>)
                (if status = ''success'' then success_thread l t
                 else failure_thread l t finished)))))"
    unfolding sum.case
  proof (intro repays_ask repays_cases repays_done repays_calm [OF calm_next_id])
    fix v u :: "'a stack" and c i
    assume c: "coherent v" "lease_current v (lease_task_id l) = Some c"
      "\<not> (lease_id c \<noteq> lease_id l \<or> lease_task_version c \<noteq> version t)" and u: "later v u"
    from was_leased_later [OF current_was_leased [OF c(1,2)] u] c(3) t
    have "was_leased u (task_id t) (version t)" by simp
    from was_leased_later [OF this]
    show "repays u {} (upd (\<lambda>w. w\<lparr>w_records := records_append (w_records w) stamp
              \<lparr>rec_id = i, rec_task_id = task_id t, rec_attempt = attempt_count t,
               rec_worker_id = lease_worker_id l, rec_status = status,
               rec_started_at = started, rec_finished_at = finished, rec_message = message\<rparr>\<rparr>)
          (upd (\<lambda>w. w\<lparr>w_metrics := (w_metrics w)
              \<lparr>mt_results_recorded := count_up (mt_results_recorded (w_metrics w))\<rparr>\<rparr>)
          (if status = ''success'' then success_thread l t else failure_thread l t finished)))"
      by (auto intro!: repays_quiet success_repays failure_repays intro: later_trans)
  qed
qed auto

section \<open>Leasing\<close>

text \<open>A new lease under an identifier that is drawn and not used.\<close>

lemma insert_change:
  assumes "coherent w" and "lease_id l \<in> drawn w" and "lease_id l \<notin> used w"
    and "was_leased w (lease_task_id l) (lease_task_version l)"
  defines "w' \<equiv> w\<lparr>w_leases := lease_insert (w_leases w) l\<rparr>"
  shows "coherent w'" and "later w w'" and "used w' \<subseteq> used w \<union> {lease_id l}" and "adrift w' = adrift w"
proof -
  note c = coherentD [OF assms(1)]
  show l: "later w w'" by (simp add: w'_def later_def)
  show used: "used w' \<subseteq> used w \<union> {lease_id l}" by (auto simp: w'_def used_def lease_insert_def ran_def split: if_splits)
  show "adrift w' = adrift w" by (simp add: w'_def adrift_def has_state_def)
  have "was_leased w' (lease_task_id m) (lease_task_version m)" if "lt_leases (lease_insert (w_leases w) l) k = Some m" for k m
    using that c(6) assms(4) was_leased_later [OF _ l] by (auto simp: lease_insert_def split: if_splits)
  moreover have "lease_task_id m = i"
    if "lt_by_task (lease_insert (w_leases w) l) i = Some k" "lt_leases (lease_insert (w_leases w) l) k = Some m" for i k m
    using that c(7) assms(3) by (auto simp: lease_insert_def used_def ran_def split: if_splits)
  moreover have "used w' \<subseteq> drawn w'" using used c(5) assms(2) by (auto simp: w'_def drawn_def)
  ultimately show "coherent w'" using c(1-4) by (simp add: w'_def coherent_def keyed_def)
qed

lemma assign_insert_repays:
  assumes "was_leased s (task_id t) (version t)" and "k \<in> drawn s"
  shows "owes coherent spare later adrift drawn used s {} {k}
    (act (\<lambda>w. let l = \<lparr>lease_id = k, lease_task_id = task_id t, lease_worker_id = node_id node,
                     lease_task_version = version t, lease_deadline = now + w_ttl w, lease_created_at = now\<rparr>
               in (w\<lparr>w_leases := lease_insert (w_leases w) l\<rparr>, l)) (\<lambda>l. Done (Assigned (Inr l))))"
  unfolding act_def
proof (rule ow_act)
  fix w
  assume w: "coherent w" "later s w" "used w \<inter> {k} = {}"
  let ?l = "\<lparr>lease_id = k, lease_task_id = task_id t, lease_worker_id = node_id node,
      lease_task_version = version t, lease_deadline = now + w_ttl w, lease_created_at = now\<rparr>"
  have "k \<in> drawn w" using assms(2) drawn_later [OF w(2)] by blast
  from insert_change [OF w(1), of ?l] this w(3) was_leased_later [OF assms(1) w(2)]
  show "coherent (fst (let l = ?l in (w\<lparr>w_leases := lease_insert (w_leases w) l\<rparr>, l))) \<and>
      later w (fst (let l = ?l in (w\<lparr>w_leases := lease_insert (w_leases w) l\<rparr>, l))) \<and>
      used (fst (let l = ?l in (w\<lparr>w_leases := lease_insert (w_leases w) l\<rparr>, l))) \<subseteq> used w \<union> {k} \<and>
      (\<exists>D' N'. adrift (fst (let l = ?l in (w\<lparr>w_leases := lease_insert (w_leases w) l\<rparr>, l))) \<subseteq> (adrift w - {}) \<union> D' \<and>
        N' \<subseteq> ({k} - used (fst (let l = ?l in (w\<lparr>w_leases := lease_insert (w_leases w) l\<rparr>, l)))) \<union>
          (drawn (fst (let l = ?l in (w\<lparr>w_leases := lease_insert (w_leases w) l\<rparr>, l))) - drawn w) \<and>
        owes coherent spare later adrift drawn used (fst (let l = ?l in (w\<lparr>w_leases := lease_insert (w_leases w) l\<rparr>, l))) D' N'
          (Done (Assigned (Inr (snd (let l = ?l in (w\<lparr>w_leases := lease_insert (w_leases w) l\<rparr>, l)))))))"
    by (auto simp: Let_def owes_simps)
qed

lemma assign_rest_repays:
  assumes "was_leased s (re_task_id e) (version t)" and "task_id t = re_task_id e"
  shows "repays s {} (assign_rest pick now nano e t)"
  unfolding assign_rest_def
proof (rule repays_ask, rule repays_cases)
  fix w
  assume w: "later s w"
  let ?push = "\<lambda>err _. upd (\<lambda>w. push_ready w (re_task_id e) (priority t) now) (Done (Assigned (Inl (WorkerError err))))"
  show "repays w {} (act (lk_transition (re_task_id e) StateLeased StateReady (version t)) (?push err))" for err
    by (rule repays_transition) (auto simp: terminal_def intro!: repays_push)
  show "repays w {} (act (lk_next_id ''lease'' nano) (\<lambda>i.
      act (\<lambda>w. let l = \<lparr>lease_id = i, lease_task_id = task_id t, lease_worker_id = node_id node,
                     lease_task_version = version t, lease_deadline = now + w_ttl w, lease_created_at = now\<rparr>
               in (w\<lparr>w_leases := lease_insert (w_leases w) l\<rparr>, l)) (\<lambda>l. Done (Assigned (Inr l)))))" for node
    unfolding act_def [of "lk_next_id ''lease'' nano"]
  proof (rule ow_act)
    fix v
    assume v: "coherent v" "spare v" "later w v"
    let ?v = "fst (lk_next_id ''lease'' nano v)" and ?k = "snd (lk_next_id ''lease'' nano v)"
    have c: "kept v ?v" "adrift ?v \<subseteq> adrift v" using v calm_next_id by (auto simp: calm_def calmly_def)
    have g: "id_next (w_seq v) ''lease'' nano = (w_seq ?v, ?k)"
      by (rule prod_eqI) (simp_all add: lk_next_id_def split_beta)
    have new: "?k \<in> drawn ?v - drawn v"
      using v(2) issued_next [OF _ g] issued_fresh [of "w_seq v" "''lease''" ?k nano] g
      by (auto simp: drawn_def spare_def room_def)
    have "was_leased ?v (task_id t) (version t)"
      using was_leased_later [OF assms(1)] later_trans [OF w later_trans [OF v(3)]] c(1) assms(2) by (simp add: kept_def)
    from assign_insert_repays [OF this, of ?k node now] new c
    show "coherent ?v \<and> later v ?v \<and> used ?v \<subseteq> used v \<union> {} \<and>
        (\<exists>D' N'. adrift ?v \<subseteq> (adrift v - {}) \<union> D' \<and> N' \<subseteq> ({} - used ?v) \<union> (drawn ?v - drawn v) \<and>
          owes coherent spare later adrift drawn used ?v D' N'
           (act (\<lambda>w. let l = \<lparr>lease_id = ?k, lease_task_id = task_id t, lease_worker_id = node_id node,
                     lease_task_version = version t, lease_deadline = now + w_ttl w, lease_created_at = now\<rparr>
               in (w\<lparr>w_leases := lease_insert (w_leases w) l\<rparr>, l)) (\<lambda>l. Done (Assigned (Inr l)))))"
      by (intro conjI exI [of _ "{}"] exI [of _ "{?k}"]) (auto simp: kept_def)
  qed
qed

text \<open>The debts of the loop of \<open>Assign\<close> at its two points.\<close>

definition assign_debt :: "ready_entry option \<Rightarrow> (string \<times> task_state) set" where
  "assign_debt pc = (case pc of None \<Rightarrow> {} | Some e \<Rightarrow> {(re_task_id e, StateReady)})"

lemma assign_pop_step:
  assumes "coherent w"
  shows "kept w (fst (lk_pop w)) \<and> adrift (fst (lk_pop w)) \<subseteq> (adrift w - {}) \<union> assign_debt (snd (lk_pop w))"
  using pop_change [OF assms] by (cases "snd (lk_pop w)") (auto simp: assign_debt_def)

lemma assign_lease_step:
  assumes "coherent w"
  obtains err where "lk_transition i StateReady StateLeased (- 1) w = (w, Inl err)" "(i, StateReady) \<notin> adrift w"
  | "lk_transition i StateReady StateLeased (- 1) w = (w, Inr None)" "(i, StateReady) \<notin> adrift w"
  | w' u where "lk_transition i StateReady StateLeased (- 1) w = (w', Inr (Some u))" "kept w w'"
      "adrift w' \<subseteq> adrift w - {(i, StateReady)}" "was_leased w' i (version u)" "task_id u = i"
proof (rule transition_result [of i StateReady StateLeased "- 1" w])
  fix w' t u
  assume r: "lk_transition i StateReady StateLeased (- 1) w = (w', Inr (Some u))" "tasks_of w i = Some t" "state t = StateReady"
    "u = t\<lparr>state := StateLeased, version := version t + 1, updated_at := w_now w\<rparr>" "tasks_of w' = (tasks_of w)(i \<mapsto> u)" "same_rest w w'"
  then have u: "task_id u = task_id t" "task_later t u" "state u = StateLeased" by (simp_all add: task_later_def terminal_def)
  note c = put_later [OF assms r(6,5,2) u(1,2)]
  have "task_id u = i" using coherentD(1) [OF assms] r(2,4) by (simp add: keyed_def)
  moreover have "adrift w' \<subseteq> adrift w - {(i, StateReady)}" using c(4) u(3) by auto
  moreover have "was_leased w' i (version u)" using r(5) u(3) by (simp add: was_leased_def)
  ultimately show thesis using that(3) [OF r(1) c(1)] by blast
qed (use that(1,2) in \<open>auto simp: adrift_def has_state_def\<close>)

lemma assign_loop_repays: "repays s (assign_debt pc) (assign_loop pick now nano pc)"
proof (coinduction arbitrary: s pc rule: owes.coinduct)
  case owes
  show ?case
  proof (cases pc)
    case None
    let ?next = "\<lambda>w. case snd (lk_pop w) of
        None \<Rightarrow> Done (Assigned (Inl ErrNoReadyTask))
      | Some entry \<Rightarrow> assign_loop pick now nano (Some entry)"
    have "coherent (fst (lk_pop w)) \<and> later w (fst (lk_pop w)) \<and> used (fst (lk_pop w)) \<subseteq> used w \<union> {} \<and>
        (\<exists>D' N'. adrift (fst (lk_pop w)) \<subseteq> (adrift w - assign_debt None) \<union> D' \<and>
          N' \<subseteq> ({} - used (fst (lk_pop w))) \<union> (drawn (fst (lk_pop w)) - drawn w) \<and>
          ((\<exists>s pc. fst (lk_pop w) = s \<and> D' = assign_debt pc \<and> N' = {} \<and> ?next w = assign_loop pick now nano pc) \<or>
           owes coherent spare later adrift drawn used (fst (lk_pop w)) D' N' (?next w)))"
      if "coherent w" for w :: "'a stack"
      using assign_pop_step [OF that]
      by (intro conjI exI [of _ "assign_debt (snd (lk_pop w))"] exI [of _ "{}"])
        (auto simp: kept_def assign_debt_def owes_simps split: option.splits)
    then show ?thesis by (simp add: None assign_loop_None)
  next
    case (Some e)
    let ?call = "lk_transition (re_task_id e) StateReady StateLeased (- 1)"
    let ?next = "\<lambda>w. case snd (?call w) of
        Inl e \<Rightarrow> Done (Assigned (Inl (StoreError e)))
      | Inr None \<Rightarrow> assign_loop pick now nano None
      | Inr (Some t) \<Rightarrow> assign_rest pick now nano e t"
    have "coherent (fst (?call w)) \<and> later w (fst (?call w)) \<and> used (fst (?call w)) \<subseteq> used w \<union> {} \<and>
        (\<exists>D' N'. adrift (fst (?call w)) \<subseteq> (adrift w - assign_debt (Some e)) \<union> D' \<and>
          N' \<subseteq> ({} - used (fst (?call w))) \<union> (drawn (fst (?call w)) - drawn w) \<and>
          ((\<exists>s pc. fst (?call w) = s \<and> D' = assign_debt pc \<and> N' = {} \<and> ?next w = assign_loop pick now nano pc) \<or>
           owes coherent spare later adrift drawn used (fst (?call w)) D' N' (?next w)))"
      if w: "coherent w" for w :: "'a stack"
    proof (rule assign_lease_step [OF w, of "re_task_id e"])
      fix w' u
      assume "?call w = (w', Inr (Some u))" "kept w w'" "adrift w' \<subseteq> adrift w - {(re_task_id e, StateReady)}"
        "was_leased w' (re_task_id e) (version u)" "task_id u = re_task_id e"
      with assign_rest_repays [of w' e u pick now nano] show ?thesis
        by (intro conjI exI [of _ "{}"]) (auto simp: kept_def assign_debt_def)
    qed (use w in \<open>auto simp: assign_debt_def owes_simps intro!: exI [of _ "{}"] exI [of _ None]\<close>)
    then show ?thesis by (simp add: Some assign_loop_Some)
  qed
qed

lemma assign_repays: "repays s {} (assign_thread pick now nano)"
  unfolding assign_thread_def using assign_loop_repays [of s None] by (simp add: assign_debt_def)

lemma finish_repays: "repays s {} (finish_thread l started finished outcome nano stamp)"
  unfolding finish_thread_def
  by (rule repays_and_then)
    (auto split: sum.split outcome.split intro!: record_repays repays_calm_upd [OF calm_release])

lemma run_next_repays: "repays s {} (run_next_thread pick h nano1 nano2 stamp)"
  unfolding run_next_thread_def
  by (rule repays_ask, rule repays_and_then [OF assign_repays])
    (auto split: sum.split outcome.split intro!: repays_ask finish_repays repays_calm_upd [OF calm_release])

section \<open>The handlers\<close>

lemma audit_repays: "(\<And>w. later s w \<Longrightarrow> repays w {} rest) \<Longrightarrow> repays s {} (audit_thread he action target rest)"
  unfolding audit_thread_def by (auto intro!: repays_ask repays_quiet intro: later_trans)

lemma build_repays:
  assumes "\<And>w b. (\<And>t. b = Inr t \<Longrightarrow> state t = StatePending) \<Longrightarrow> repays w {} (k b)"
  shows "repays s {} (build_thread parse_time nano req k)"
  unfolding build_thread_def validate_thread_def Let_def
  by (auto intro!: repays_calm [OF calm_next_id] repays_ask assms)

lemma register_repays: "repays s {} (register_thread parse_time he nano decoded)"
proof -
  have "repays w {} (act (lk_save t) (\<lambda>e. case e of
      Some e \<Rightarrow> Done (Answered (Response 409 (ErrorBody (SchedError (StoreError e)))))
    | None \<Rightarrow> upd (\<lambda>w. sched_track w t)
        (audit_thread he ''register'' (task_id t) (Done (Answered (Response 200 (TaskBody t)))))))"
    if "state t = StatePending" for w t
    using that
    by (auto intro!: repays_save repays_fire [of "\<lambda>w. sched_track w t" "task_id t" "next_run_at t"] audit_repays simp: sched_track_def)
  then show ?thesis by (auto simp: register_thread_def intro!: build_repays)
qed

lemma trigger_request_repays: "repays s {} (trigger_request_thread he decoded)"
  by (auto simp: trigger_request_thread_def split: outcome.split
      intro!: repays_ask repays_and_then trigger_repays audit_repays)

lemma cancel_request_repays: "repays s {} (cancel_request_thread he decoded)"
  by (auto simp: cancel_request_thread_def split: outcome.split intro!: repays_and_then cancel_repays audit_repays)

lemma save_edit_repays:
  assumes "task_id t \<in> dom (tasks_of s)"
  shows "repays s {} (act (lk_save t) (\<lambda>e. case e of
      Some e \<Rightarrow> Done (Answered (Response 409 (ErrorBody (SchedError (StoreError e)))))
    | None \<Rightarrow> upd (\<lambda>w. sched_refresh_cron w t)
        (upd (\<lambda>w. w\<lparr>w_audit := audit_record (w_audit w) entry\<rparr>) (Done x))))"
  using assms
  by (auto intro!: repays_save repays_quiet repays_fire [of "\<lambda>w. sched_refresh_cron w t" "task_id t" "next_run_at t"]
      simp: sched_refresh_cron_def)

lemma got_stays: "coherent w \<Longrightarrow> lk_get i w = Inr t \<Longrightarrow> later w v \<Longrightarrow> task_id t \<in> dom (tasks_of v)"
  by (auto simp: lk_get_def store_get_def coherent_def keyed_def split: option.splits elim: later_task)

lemma update_cron_repays: "repays s {} (update_cron_thread he decoded)"
  unfolding update_cron_thread_def Let_def
  by (auto split: prod.split intro!: repays_ask save_edit_repays dest: got_stays)

lemma worker_repays: "repays s {} (worker_thread he decoded)"
  by (auto simp: worker_thread_def lk_register_def split: prod.split sum.split
      intro!: repays_calm [OF calm_quiet] audit_repays)

lemma renew_all_repays: "repays s {} (renew_all_thread worker now ls (Done x))"
  by (induction ls arbitrary: s) (auto intro!: repays_calm_upd [OF calm_renew_all])

lemma heartbeat_repays: "repays s {} (heartbeat_thread its decoded)"
  by (auto simp: heartbeat_thread_def lk_heartbeat_def split: sum.split
      intro!: repays_ask repays_calm [OF calm_quiet] renew_all_repays)

lemma purge_repays: "repays s {} (purge_thread parse_time format_time he its decoded)"
  by (auto simp: purge_thread_def lk_purge_def split: prod.split
      intro!: repays_calm [OF calm_quiet] audit_repays)

lemma operation_repays: "operation p \<Longrightarrow> coherent s \<Longrightarrow> repays s {} p"
proof (induction p rule: operation.induct)
  case (op_tick its now)
  then show ?case by (rule tick_repays)
qed (auto intro: assign_repays run_next_repays record_repays reap_repays trigger_repays cancel_repays register_repays
    trigger_request_repays cancel_request_repays update_cron_repays worker_repays heartbeat_repays purge_repays
    simp: renew_thread_def release_thread_def intro!: repays_calm [OF calm_renew] repays_calm_upd [OF calm_release])

interpretation dp: debt_pool coherent spare later adrift drawn used clock_moves operation
proof unfold_locales
  fix s s' :: "registry stack"
  assume "coherent s" "clock_moves s s'"
  moreover from this obtain d where "s' = clock_advance s d" by (auto simp: clock_moves_def)
  ultimately show "coherent s' \<and> later s s' \<and> adrift s' \<subseteq> adrift s \<and> used s' \<subseteq> used s"
    using queue_change [of s s'] coherentD(2-4) [of s] by (simp add: clock_advance_def kept_def adrift_def has_state_def)
qed (auto intro: later_trans operation_repays subsetD [OF drawn_later] dest: subsetD [OF coherentD(5)])

section \<open>From a reachable stack\<close>

lemma reachable_coherent:
  assumes "sys_reachable w" and "dom (w_next_fire w) \<subseteq> dom (tasks_of w)"
  shows "coherent w" and "adrift w = {}"
proof -
  note inv = stack_invD [OF reachable_inv [OF assms(1)]]
  have lease: "lease_id l = k" "lt_by_task (w_leases w) (lease_task_id l) = Some k"
    "\<exists>t. tasks_of w (lease_task_id l) = Some t \<and> lease_fits t l" if "lt_leases (w_leases w) k = Some l" for k l
    using inv(4) that by (auto simp: leases_ok_def)
  have task: "\<exists>l. lt_leases (w_leases w) k = Some l \<and> lease_task_id l = i" if "lt_by_task (w_leases w) i = Some k" for i k
    using inv(4) that by (auto simp: leases_ok_def)
  have "used w \<subseteq> dom (lt_leases (w_leases w))" using task by (fastforce simp: used_def ran_def)
  then have "used w \<subseteq> drawn w" using inv(5) by (auto simp: ids_ok_def drawn_def)
  moreover have "was_leased w (lease_task_id l) (lease_task_version l)" if "lt_leases (w_leases w) k = Some l" for k l
    using lease(3) [OF that] by (auto simp: was_leased_def lease_fits_def)
  moreover have "lease_task_id l = i" if "lt_by_task (w_leases w) i = Some k" "lt_leases (w_leases w) k = Some l" for i k l
    using task [OF that(1)] that(2) by auto
  ultimately show "coherent w"
    using inv(2) reachable_keyed [OF assms(1)] assms(2) by (simp add: coherent_def queues_ok_def)
  show "adrift w = {}" using inv(2,3) by (auto simp: adrift_def queues_ok_def tracked_ok_def has_state_def split: option.splits)
qed

text \<open>One step of an interleaving, taken with room for another identifier.\<close>

definition roomy_step :: "wiring \<times> registry thread list \<Rightarrow> wiring \<times> registry thread list \<Rightarrow> bool" where
  "roomy_step c c' \<longleftrightarrow> interleave clock_moves operation c c' \<and> spare (fst c)"

lemma roomy_turns:
  assumes "k < length ps" and "own_turns n (s, ps ! k) = (s', p)" and "\<And>m. m < n \<Longrightarrow> spare (fst (own_turns m (s, ps ! k)))"
  shows "roomy_step\<^sup>*\<^sup>* (s, ps) (s', ps[k := p])"
  using assms
proof (induction n arbitrary: s ps)
  case 0
  then show ?case using list_update_id [of ps k] by simp
next
  case (Suc n)
  show ?case
  proof (cases "ps ! k")
    case (Done x)
    with Suc.prems(2) have "s' = s" "p = ps ! k" by simp_all
    then show ?thesis by simp
  next
    case (Act f g)
    have "spare s" using Suc.prems(3) [of 0] by simp
    with il_turn [OF Suc.prems(1) Act, of clock_moves operation s] have "roomy_step (s, ps) (f s, ps[k := g s])"
      by (simp add: roomy_step_def)
    moreover have "roomy_step\<^sup>*\<^sup>* (f s, ps[k := g s]) (s', ps[k := g s, k := p])"
    proof (rule Suc.IH)
      show "own_turns n (f s, ps[k := g s] ! k) = (s', p)" using Suc.prems(1,2) Act by simp
      show "spare (fst (own_turns m (f s, ps[k := g s] ! k)))" if "m < n" for m
        using Suc.prems(1) Suc.prems(3) [of "Suc m"] that Act by simp
    qed (use Suc.prems(1) in simp)
    ultimately show ?thesis by (simp add: converse_rtranclp_into_rtranclp)
  qed
qed

section \<open>Properties\<close>

text \<open>
  C5. No interleaving loses a task: whenever every program that was started has come to its
  end, every ready task is in the ready queue or in the delayed queue and the scheduler's
  index has a fire time for every pending task. The programs may be any number of ticks,
  leases, executions, results, reapings, renewals, triggers, cancellations, registrations,
  edits and the other operations that delete no task, and the clock may move at any time.
\<close>

theorem interleaved_no_task_lost:
  assumes "sys_reachable w0" and "dom (w_next_fire w0) \<subseteq> dom (tasks_of w0)"
    and run: "roomy_step\<^sup>*\<^sup>* (w0, []) (w, ps)" and ended: "\<forall>p \<in> set ps. \<exists>x. p = Done x"
  shows "(\<forall>i. has_state w i StateReady \<longrightarrow> i \<in> ready_queued (w_ready w) \<union> delayed_queued (w_delayed w)) \<and>
    (\<forall>i. has_state w i StatePending \<longrightarrow> w_next_fire w i \<noteq> None)"
proof -
  have "roomy_step = (\<lambda>c c'. interleave clock_moves operation c c' \<and> spare (fst c))"
    by (simp add: roomy_step_def fun_eq_iff)
  with run have "(\<lambda>c c'. interleave clock_moves operation c c' \<and> spare (fst c))\<^sup>*\<^sup>* (w0, []) (w, ps)" by simp
  from dp.nothing_lost [OF this reachable_coherent [OF assms(1,2)] ended] show ?thesis by (auto simp: adrift_def)
qed

definition kept_end :: wiring where
  "kept_end = fst (own_turns 3 (cron_pending, trigger_thread demo_id 20))"

lemma kept_end_fields:
  "own_turns 3 (cron_pending, trigger_thread demo_id 20) = (kept_end, Done (Triggered None))" "has_state kept_end demo_id StateReady"
  by (simp_all add: kept_end_def prod_eq_iff trigger_thread_def numeral_eq_Suc lk_get_def store_get_def cron_pending_fields
      lk_mark_ready_def store_mark_ready_def Let_def cron_born_def demo_born_def demo_job_def push_ready_def has_state_def)

theorem interleaved_no_task_lost_witness: "demo_id \<in> ready_queued (w_ready kept_end) \<union> delayed_queued (w_delayed kept_end)"
proof -
  have "spare (fst (own_turns m (cron_pending, trigger_thread demo_id 20)))" if "m < 3" for m
  proof -
    from that consider "m = 0" | "m = Suc 0" | "m = Suc (Suc 0)" by linarith
    then show ?thesis
      by cases (simp_all add: trigger_thread_def lk_get_def store_get_def cron_pending_fields spare_def room_def
          lk_mark_ready_def store_mark_ready_def Let_def cron_born_def demo_born_def demo_job_def)
  qed
  with roomy_turns [of 0 "[trigger_thread demo_id 20]" 3 cron_pending] kept_end_fields(1)
  have "roomy_step\<^sup>*\<^sup>* (cron_pending, [trigger_thread demo_id 20]) (kept_end, [Done (Triggered None)])" by simp
  moreover have "roomy_step (cron_pending, []) (cron_pending, [trigger_thread demo_id 20])"
    using il_start [where ops = operation and rely = clock_moves and s = cron_pending and ps = "[]", OF op_trigger [of demo_id 20]]
    by (simp add: roomy_step_def spare_def room_def cron_pending_fields)
  ultimately have "roomy_step\<^sup>*\<^sup>* (cron_pending, []) (kept_end, [Done (Triggered None)])"
    by (rule converse_rtranclp_into_rtranclp [rotated])
  moreover have "dom (w_next_fire cron_pending) \<subseteq> dom (tasks_of cron_pending)"
    by (simp add: cron_pending_fields cron_pending_def harness_register_cron_def Let_def main_wiring_fields demo_id_next
        store_save_def demo_id_nonempty sched_track_def)
  ultimately show ?thesis using interleaved_no_task_lost [OF cron_pending_reachable] kept_end_fields(2) by fastforce
qed

end
