(* ===== verification/Spec2Isabelle.thy ===== *)
theory Spec2Isabelle
  imports ReadyQueue DelayedQueue TaskStore Registry RecordStore AuditLog Validation IdGen Cron
    Snapshot LeaseSafety Progress ApiSafety Router Races Schedd NoLoss
begin

text \<open>
  \<^bold>\<open>The program.\<close> A task scheduler in Go. Tasks, one-time or with a cron trigger, are registered
  through an HTTP control plane (\<open>internal/api\<close>) and kept in a store (\<open>internal/store\<close>). A
  scheduler (\<open>internal/dispatch\<close>) moves due tasks into a ready queue, from which a lease
  manager (\<open>internal/lease\<close>) gives them to live workers (\<open>internal/worker/registry.go\<close>). An
  executor (\<open>internal/worker/executor.go\<close>) runs the handler and reports the result
  (\<open>internal/execution\<close>), which ends the task, or sends it through a delayed queue for a
  retry, or declares it dead. A reaper takes back leases that expired. A task's state goes
  pending, ready, leased, succeeded, dead or canceled; its version counts its changes, and
  every guarded change names the version it expects.

  \<^bold>\<open>The theories.\<close> Each component theory first holds the code, one definition per function in
  the order of its file, then the facts about it and its properties.

    \<^item> \<open>Prelude\<close>: 64-bit wrapping, first-match loops, map filters, shared by all.
    \<^item> \<open>GoStrings\<close>, \<open>GoTime\<close>: what the code uses of \<open>strings\<close>, \<open>strconv\<close> and \<open>time\<close>: an instant
      is nanoseconds since 1970 as an integer, a location a function from seconds to an offset.
    \<^item> \<open>GoHeap\<close>: \<open>container/heap\<close>, with the heap property of its operations.
    \<^item> \<open>TaskModel\<close>: the records of \<open>internal/model\<close>.
    \<^item> \<open>QueueContract\<close> (locales \<open>task_queue\<close>, \<open>ready_contract\<close>, \<open>delayed_contract\<close>), \<open>ReadyQueue\<close>,
      \<open>DelayedQueue\<close>: \<open>internal/queue\<close>; the contracts are interpreted on the models as \<open>rq\<close> and
      \<open>dq\<close>, and the system theories reason about the queues only through these facts.
    \<^item> \<open>TaskStore\<close>, \<open>RecordStore\<close>, \<open>Snapshot\<close>: \<open>internal/store\<close>. The invariant \<open>store_inv\<close> of the task
      store has three parts: \<open>store_sound\<close>, which every run of operations keeps, \<open>names_exact\<close>, which
      an overwrite with another name breaks, and \<open>pending_listed\<close>, which a change of state back to
      pending breaks. A snapshot holds the 100000 oldest tasks at most.
    \<^item> \<open>WorkerContract\<close> (locale \<open>worker_picker\<close>, the interface of the lease manager), \<open>Registry\<close>
      (interpreted as \<open>rp\<close>).
    \<^item> \<open>XXHash\<close>, \<open>IdGen\<close>: the vendored hash in its portable build, and the identifiers.
    \<^item> \<open>Cron\<close>, \<open>Validation\<close>, \<open>AuditLog\<close>: the packages of those names. \<open>Cron\<close> states the grammar of a
      field (\<open>part_names\<close>, \<open>named\<close>) and the fire times of a schedule (\<open>fires_at\<close>) apart from the code.
    \<^item> \<open>Wiring\<close>: metrics, configuration, and the record \<open>stack\<close> of everything the managers
      share. \<open>LeaseManager\<close>, \<open>Dispatch\<close>, \<open>Execution\<close> (with the executor), \<open>Harness\<close> (with the
      loops of \<open>cmd/schedd\<close>) and \<open>Api\<close> are functions on that record.
    \<^item> \<open>Moves\<close>: a relation of small changes to one task, its queues and its lease, and the
      invariant \<open>stack_inv\<close>, which every move keeps. \<open>Runs\<close> and \<open>Operations\<close> decompose every
      operation into moves, once.
    \<^item> \<open>System\<close>: the step relation \<open>sys_step\<close>, one rule per operation with arbitrary arguments,
      and the stacks reachable from \<open>harness.NewWith\<close> or the wiring of \<open>main\<close>. \<open>Demo\<close>: a concrete
      run for the witnesses.
    \<^item> \<open>Lifecycle\<close>: the abstract machine of one task's life, the refinement, and what follows
      for types, final states and bounds. \<open>LeaseSafety\<close>: one lease per task, one result per
      lease, none after reaping, and the stranding of a leased task by an edit. \<open>Progress\<close>: no
      task is lost, ticks and assignments do what they should, due tasks are completed.
      \<open>ApiSafety\<close>: batches, restores, and cron tasks that should never run.
    \<^item> \<open>Router\<close>: the patterns of \<open>internal/api/router.go\<close> and how the mux picks one.
    \<^item> \<open>Threads\<close>: goroutines as trees of atomic actions (a codatatype, since the loop of \<open>Assign\<close>
      may not end), their interleaving, and the locale \<open>guarded_threads\<close> of programs that guard
      their changes by versions. \<open>Concurrent\<close> and \<open>HandlerThreads\<close>: the operations of the
      managers and the handlers again, one action per lock region. \<open>Alone\<close>: a program without
      interference does what its one-step operation does. \<open>Interleaving\<close>: every operation meets
      the contract (interpreted as \<open>il\<close>). \<open>Races\<close>: what holds under every interleaving, and three
      races that reach states no run of whole operations reaches.
    \<^item> \<open>Ownership\<close>: loops of goroutines, and the locale \<open>single_owner\<close>, in which one program
      alone takes things and every other only gives back. \<open>Schedd\<close>: the goroutines of \<open>main\<close> as
      endless programs, with the requests of the server interleaved (interpreted as \<open>sd\<close>).
    \<^item> \<open>Debts\<close>: the locale \<open>debt_pool\<close> of programs that put the state out of order and answer
      for it until it is right again. \<open>Adrift\<close>: ready tasks in no queue and pending tasks not
      indexed, and what each locked call does to them. \<open>Repayment\<close>: a rule for each call.
      \<open>NoLoss\<close>: every operation repays (interpreted as \<open>dp\<close>), so no interleaving loses a task.

  \<^bold>\<open>Granularity.\<close> There are two levels. In \<open>System\<close> an operation is one step; the executor is
  split around its handler, during which any steps may happen, and during one operation the
  clock of the stack stands still (it is the harness's clock; between operations it may move
  by any amount), while an explicit argument \<open>now\<close> may be any instant. In \<open>Concurrent\<close> and
  \<open>HandlerThreads\<close> an operation is a program whose actions are its lock regions, atomic
  additions and readings of the clock, and any number of programs interleave, beside which
  anything may happen that neither deletes a task nor lowers its version (\<open>elsewhere\<close>). The
  programs \<open>operation\<close> of \<open>Races\<close> and \<open>NoLoss\<close> leave out batches and \<open>Restore\<close>, which delete
  tasks; the
  programs \<open>request\<close> of \<open>Schedd\<close> have them, and there only the clock moves besides. The
  properties of \<open>System\<close> are about runs of whole operations: \<open>Races\<close> shows which of them interleaving
  breaks (the binding of leases, the count of retries, the records of refused results) and
  what it cannot break (versions, hence at most one result per leased version), and \<open>NoLoss\<close>
  that it loses no task. \<open>Schedd\<close> shows that the service itself, which has one executor, does
  not lose the binding of a lease.

  \<^bold>\<open>Arguments for what the code does not fix.\<close> The iteration order of a Go map is a list \<open>its\<close>;
  the wall clock in identifiers is \<open>nano\<close> and \<open>stamp\<close>; the handler is a function on the
  stack; JSON, RFC 3339 parsing and the streams of a snapshot are functions or decoded
  values. \<open>sort.Slice\<close>, which is not stable, is modelled by a stable sort: where keys are
  equal the order of the result is one of those the code may give.

  \<^bold>\<open>Bounds.\<close> The identifier counter is a 64-bit word; steps that draw identifiers require that
  it does not wrap (\<open>room\<close>; \<open>spare\<close> for one more identifier). \<open>int\<close> fields of tasks are unbounded here: priorities and retries
  are never computed beyond a decrement that is guarded, while products and sums that can
  overflow (the timeout of a request, cron steps, page bounds, counters) are wrapped. The
  stepping loop of the cron parser, which may wrap, is a partial function proved total; no
  other definition needs fuel.

  \<^bold>\<open>Not modelled.\<close> When the tickers and signals of \<open>main\<close> fire (the interleaving and the
  arguments \<open>quits\<close> choose it), its HTTP server, logging and shutdown; in \<open>Schedd\<close> the worker of
  \<open>main\<close> is registered before the first goroutine starts, which does not look at the roster;
  percent escapes in paths;
  request body limits; the wall clock of \<open>internal/clock\<close>; the assembly and unsafe builds of
  xxhash; null entries in a decoded snapshot. \<open>Restore\<close> is modelled but is not a step of the
  system: it replaces tasks that the queues and leases still name, and \<open>ApiSafety\<close> shows what
  it leaves undone.
\<close>

end
